(* ===== verification/Prelude.thy ===== *)
theory Prelude
  imports Main "HOL-Library.Word" "HOL-Library.AList"
begin

text \<open>
  What every other theory of the development shares: the names of the machine types, the
  model of \<^verbatim>\<open>std::unordered_map\<close>, the two collections of simplification rules
  (\<open>umap_simps\<close> for maps, \<open>word_nat\<close> for the passage from words to natural numbers) and
  the generic lemmas on words and lists that the component theories use.
\<close>

unbundle bit_operations_syntax

section \<open>Machine types\<close>

text \<open>\<^verbatim>\<open>uint8_t\<close> to \<^verbatim>\<open>uint64_t\<close>; \<^verbatim>\<open>size_t\<close> is 64 bits wide on the
  targets of the build files (x86_64 Linux).\<close>

type_synonym u8 = "8 word"
type_synonym u16 = "16 word"
type_synonym u32 = "32 word"
type_synonym u64 = "64 word"

abbreviation UINT64_MAX :: u64 where
  "UINT64_MAX \<equiv> - 1"

named_theorems word_nat \<open>from words to natural numbers\<close>
named_theorems umap_simps \<open>lookup after update in the model of unordered\_map\<close>

lemma unat_UINT64_MAX [word_nat]: "unat UINT64_MAX = 2 ^ 64 - 1"
  by (simp add: unsigned_minus_1_eq_mask mask_eq_exp_minus_1)

lemma unat_u64_less [simp]: "unat (x :: u64) < 18446744073709551616"
  using unsigned_less [of x] by simp

lemma unat_Suc_less [word_nat]: "unat (x + 1) = Suc (unat x)" if "x < y" for x y :: "'a::len word"
proof -
  from that have "x \<noteq> - 1" by (auto simp: word_order.not_eq_extremum [symmetric])
  then have "1 + x \<noteq> 0" by (metis add_eq_0_iff)
  then show ?thesis by (simp add: unatSuc add.commute [of x])
qed

lemma unat_Suc_bound: "unat (x + 1) = Suc (unat x)" if "Suc (unat x) < 2 ^ LENGTH('a)"
  for x :: "'a::len word"
  using that by (simp add: unat_word_ariths)

lemma unat_and_mask [word_nat]: "unat (x AND mask k) = unat x mod 2 ^ k" for x :: "'a::len word"
proof -
  have "unat (x AND mask k) = take_bit k (unat x)"
    by (simp only: take_bit_eq_mask [symmetric] unsigned_take_bit_eq)
  then show ?thesis by (simp only: take_bit_eq_mod)
qed

lemma unat_pow2 [word_nat]: "unat ((2 :: 'a::len word) ^ k) = 2 ^ k" if "k < LENGTH('a)"
proof -
  from that have "unat (push_bit k (1 :: 'a word)) = 2 ^ k"
    by (simp only: unsigned_push_bit_eq unsigned_1 take_bit_push_bit) (simp add: push_bit_eq_mult)
  then show ?thesis by (simp only: push_bit_of_1)
qed

lemma unat_minus_le [word_nat]: "unat (x - y) = unat x - unat y" if "y \<le> x" for x y :: "'a::len word"
  using that by (simp add: unat_sub)

lemma take_bit_small: "unat x < 2 ^ k \<Longrightarrow> take_bit k x = x" for x :: "'a::len word"
  by (simp only: word_unat_eq_iff unsigned_take_bit_eq take_bit_nat_eq_self)

lemma bit_small: "unat x < 2 ^ k \<Longrightarrow> bit x i \<Longrightarrow> i < k" for x :: "'a::len word"
  by (metis bit_take_bit_iff take_bit_small)

lemma wrapped_sum: "d + k = m + a" if "a = (d + k) mod m" "d < m" "k \<le> m" "a < k" for a d k m :: nat
proof (cases "d + k < m")
  case True
  with that show ?thesis by simp
next
  case False
  with that(2,3) have "d + k - m < m" "m \<le> d + k" by linarith+
  then have "(d + k) mod m = d + k - m" by (simp add: le_mod_geq)
  with that(1) \<open>m \<le> d + k\<close> show ?thesis by simp
qed

section \<open>Powers of two\<close>

text \<open>The test \<^verbatim>\<open>(n & (n - 1)) == 0\<close> accepts exactly zero and the powers of two.\<close>

lemma and_pred_eq_0_nat: "\<exists>k. n = 2 ^ k" if "n AND (n - 1) = 0" "0 < n" for n :: nat
  using that
proof (induction n rule: less_induct)
  case (less n)
  show ?case
  proof (cases "even n")
    case True
    then obtain m where m: "n = 2 * m" "0 < m" using less.prems by (auto elim: evenE)
    have "2 * (m AND (m - 1)) = n AND (n - 1)"
      using m by (subst (2) and_nat_rec) (cases m; simp)
    with less.prems m have "m AND (m - 1) = 0" by simp
    with less.IH [of m] m obtain k where "m = 2 ^ k" by auto
    with m have "n = 2 ^ Suc k" by simp
    then show ?thesis by blast
  next
    case False
    then obtain m where m: "n = Suc (2 * m)" by (auto elim: oddE)
    have "n AND (n - 1) = 2 * (m AND m)"
      using m by (subst and_nat_rec) auto
    with less.prems m have "m = 0" by simp
    with m have "n = 2 ^ 0" by simp
    then show ?thesis by blast
  qed
qed

lemma and_pred_eq_0_word: "\<exists>k < LENGTH('a). x = 2 ^ k" if "x AND (x - 1) = 0" "x \<noteq> 0"
  for x :: "'a::len word"
proof -
  have pos: "0 < unat x" using that(2) by (simp add: word_neq_0_conv unat_gt_0)
  have "unat (x - 1) = unat x - 1"
    using that(2) by (simp add: unat_minus_one)
  moreover have "unat (x AND (x - 1)) = unat x AND unat (x - 1)"
    by (rule unsigned_and_eq)
  ultimately have "unat x AND (unat x - 1) = 0" using that(1) by simp
  from and_pred_eq_0_nat [OF this pos] obtain k where k: "unat x = 2 ^ k" by blast
  have "unat x < 2 ^ LENGTH('a)" by (rule unsigned_less)
  with k have "k < LENGTH('a)" by simp
  moreover from this have "x = 2 ^ k" using k unat_pow2 [of k, where 'a = 'a] by (metis word_unat_eq_iff)
  ultimately show ?thesis by blast
qed

lemma pow2_and_pred: "(2 :: 'a::len word) ^ k AND (2 ^ k - 1) = 0"
proof -
  have "(2 :: 'a word) ^ k AND mask k = take_bit k (2 ^ k)" by (simp only: take_bit_eq_mask)
  also have "\<dots> = 0" by (rule bit_word_eqI) (simp add: bit_take_bit_iff bit_exp_iff)
  finally show ?thesis by (simp add: mask_eq_exp_minus_1)
qed

section \<open>The model of unordered maps\<close>

text \<open>
  A \<^verbatim>\<open>std::unordered_map<std::string, V>\<close> is an association list: the keys are
  distinct and the order of the list is the order in which a range-for visits the entries.
  The standard leaves that order open, and so does the development: a theorem about a loop
  over a map holds for every association list, and only distinctness of the keys is assumed
  of it. Lookup is \<open>map_of\<close>, \<^verbatim>\<open>m[k] = v\<close> is \<open>AList.update\<close>.
\<close>

type_synonym 'v umap = "(string \<times> 'v) list"

definition um_ok :: "'v umap \<Rightarrow> bool" where
  "um_ok m \<longleftrightarrow> distinct (map fst m)"

lemma um_ok_Nil [simp]: "um_ok []"
  by (simp add: um_ok_def)

lemma um_ok_update [simp]: "um_ok m \<Longrightarrow> um_ok (AList.update k v m)"
  by (simp add: um_ok_def distinct_update)

lemma map_of_update [umap_simps]: "map_of (AList.update k v m) x = (if x = k then Some v else map_of m x)"
  by (simp add: update_conv')

lemma um_ok_map_values: "um_ok (map (\<lambda>(k, v). (k, f v)) m) = um_ok m"
proof -
  have "map fst (map (\<lambda>(k, v). (k, f v)) m) = map fst m" by (induction m) auto
  then show ?thesis by (simp only: um_ok_def)
qed

lemma map_of_map_values [umap_simps]: "map_of (map (\<lambda>(k, v). (k, f v)) m) x = map_option f (map_of m x)"
  by (induction m) auto

lemma um_ok_filter: "um_ok m \<Longrightarrow> um_ok (filter P m)"
  by (simp add: um_ok_def distinct_map_filter)

lemma map_of_mem: "um_ok m \<Longrightarrow> (k, v) \<in> set m \<longleftrightarrow> map_of m k = Some v"
  by (simp add: um_ok_def)

end
