(* ===== verification/CText.thy ===== *)
theory CText
  imports Prelude
begin

text \<open>
  Character arrays and C strings: the parts of \<^verbatim>\<open><cstring>\<close> and of
  \<^verbatim>\<open>std::string\<close> that the source uses. A \<^verbatim>\<open>std::string\<close> is a \<open>string\<close>; a
  \<^verbatim>\<open>char\<close> array is a \<open>string\<close> of the array's length. Streams print integers in
  decimal (\<open>show_nat\<close>), and \<^verbatim>\<open>std::getline\<close> cuts a text at a delimiter
  (\<open>getline_split\<close>).
\<close>

abbreviation NUL :: char where
  "NUL \<equiv> CHR 0x00"

section \<open>C strings in arrays\<close>

text \<open>\<open>c_str s\<close> is what a C function sees of a string: the characters before the first NUL.\<close>

definition c_str :: "string \<Rightarrow> string" where
  "c_str s = takeWhile (\<lambda>c. c \<noteq> NUL) s"

text \<open>
  Reading a \<^verbatim>\<open>char\<close> array as a C string. An array without a NUL is read past its end,
  which the model reports as \<open>None\<close>.
\<close>

definition c_read :: "char list \<Rightarrow> string option" where
  "c_read buf = (if NUL \<in> set buf then Some (takeWhile (\<lambda>c. c \<noteq> NUL) buf) else None)"

text \<open>\<^verbatim>\<open>strncpy(dst, s, n)\<close>: at most \<open>n\<close> characters, padded with NULs up to \<open>n\<close>.\<close>

definition strncpy :: "char list \<Rightarrow> string \<Rightarrow> nat \<Rightarrow> char list" where
  "strncpy dst s n = take n (c_str s @ replicate n NUL) @ drop n dst"

text \<open>\<^verbatim>\<open>strncmp(a, b, n) == 0\<close>; the end of a literal or of a \<^verbatim>\<open>std::string\<close>
  counts as its NUL.\<close>

fun strncmp_eq :: "char list \<Rightarrow> char list \<Rightarrow> nat \<Rightarrow> bool" where
  "strncmp_eq a b 0 = True"
| "strncmp_eq [] [] (Suc n) = True"
| "strncmp_eq [] (y # ys) (Suc n) = (y = NUL)"
| "strncmp_eq (x # xs) [] (Suc n) = (x = NUL)"
| "strncmp_eq (x # xs) (y # ys) (Suc n) =
     (if x \<noteq> y then False else if x = NUL then True else strncmp_eq xs ys n)"

lemma c_str_no_NUL [simp]: "NUL \<notin> set (c_str s)"
  by (induction s) (auto simp: c_str_def)

lemma c_str_id: "NUL \<notin> set s \<Longrightarrow> c_str s = s"
  by (induction s) (auto simp: c_str_def)

lemma c_str_idem [simp]: "c_str (c_str s) = c_str s"
  by (simp add: c_str_id)

lemma c_str_simps: "c_str [] = []" "c_str (x # xs) = (if x = NUL then [] else x # c_str xs)"
  by (simp_all add: c_str_def)

lemma c_str_take: "c_str (take n s) = take n (c_str s)"
  by (induction s arbitrary: n) (auto simp: c_str_simps take_Cons split: nat.splits)

lemma c_str_append: "NUL \<notin> set xs \<Longrightarrow> c_str (xs @ ys) = xs @ c_str ys"
  by (induction xs) (auto simp: c_str_simps)

lemma c_str_replicate_NUL [simp]: "c_str (replicate n NUL) = []"
  by (cases n) (simp_all add: c_str_simps)

lemma c_str_append_NULs [simp]: "NUL \<notin> set xs \<Longrightarrow> c_str (xs @ replicate n NUL) = xs"
  by (simp add: c_str_append)

lemma c_read_eq: "c_read buf = (if NUL \<in> set buf then Some (c_str buf) else None)"
  by (simp add: c_read_def c_str_def)

lemma length_strncpy: "n \<le> length dst \<Longrightarrow> length (strncpy dst s n) = length dst"
  by (simp add: strncpy_def)

lemma strncpy_pad: "strncpy dst s n = take n (c_str s) @ replicate (n - length (c_str s)) NUL @ drop n dst"
  by (simp add: strncpy_def min_def)

text \<open>\<open>strncmp\<close> is equality of what two C strings show in their first \<open>n\<close> characters.\<close>

lemma strncmp_eq_iff: "strncmp_eq a b n \<longleftrightarrow> take n (c_str a) = take n (c_str b)"
  by (induction a b n rule: strncmp_eq.induct) (auto simp: c_str_simps)

section \<open>Bytes and characters\<close>

definition byte_of_char :: "char \<Rightarrow> u8" where
  "byte_of_char c = word_of_nat (of_char c)"

definition char_of_byte :: "u8 \<Rightarrow> char" where
  "char_of_byte b = char_of (unat b)"

lemma char_of_byte_of_char [simp]: "char_of_byte (byte_of_char c) = c"
proof -
  have "(of_char c :: nat) < 256" by simp
  then show ?thesis by (simp add: char_of_byte_def byte_of_char_def unat_of_nat)
qed

lemma byte_of_char_of_byte [simp]: "byte_of_char (char_of_byte b) = b"
proof -
  have "unat b < 256" using unsigned_less [of b] by simp
  then show ?thesis by (simp add: char_of_byte_def byte_of_char_def)
qed

definition bytes_of :: "string \<Rightarrow> u8 list" where
  "bytes_of s = map byte_of_char s"

definition chars_of :: "u8 list \<Rightarrow> string" where
  "chars_of bs = map char_of_byte bs"

lemma chars_of_bytes_of [simp]: "chars_of (bytes_of s) = s"
  by (simp add: chars_of_def bytes_of_def comp_def)

lemma bytes_of_chars_of [simp]: "bytes_of (chars_of b) = b"
  by (simp add: chars_of_def bytes_of_def comp_def)

lemma length_bytes_of [simp]: "length (bytes_of s) = length s"
  by (simp add: bytes_of_def)

lemma length_chars_of [simp]: "length (chars_of b) = length b"
  by (simp add: chars_of_def)

lemma bytes_of_append: "bytes_of (s @ t) = bytes_of s @ bytes_of t"
  by (simp add: bytes_of_def)

lemma chars_of_append: "chars_of (s @ t) = chars_of s @ chars_of t"
  by (simp add: chars_of_def)

section \<open>Decimal output\<close>

definition digit_char :: "nat \<Rightarrow> char" where
  "digit_char d = char_of (48 + d)"

fun show_nat :: "nat \<Rightarrow> string" where
  "show_nat n = (if n < 10 then [digit_char n] else show_nat (n div 10) @ [digit_char (n mod 10)])"

declare show_nat.simps [simp del]

definition is_digit :: "char \<Rightarrow> bool" where
  "is_digit c \<longleftrightarrow> 48 \<le> (of_char c :: nat) \<and> (of_char c :: nat) \<le> 57"

definition digit_val :: "char \<Rightarrow> nat" where
  "digit_val c = of_char c - 48"

definition dec_val :: "string \<Rightarrow> nat" where
  "dec_val ds = foldl (\<lambda>a c. 10 * a + digit_val c) 0 ds"

lemma digit_char: "d < 10 \<Longrightarrow> is_digit (digit_char d) \<and> digit_val (digit_char d) = d"
  by (simp add: is_digit_def digit_val_def digit_char_def)

lemma show_nat_nonempty: "show_nat n \<noteq> []"
  by (subst show_nat.simps) simp

lemma show_nat_digits: "list_all is_digit (show_nat n)"
  by (induction n rule: show_nat.induct) (subst show_nat.simps, simp add: digit_char)

lemma not_digit_show_nat: "\<not> is_digit c \<Longrightarrow> c \<notin> set (show_nat n)"
  using show_nat_digits [of n] by (auto simp: list_all_iff)

lemma length_show_nat: "n < 10 ^ Suc k \<Longrightarrow> length (show_nat n) \<le> Suc k"
proof (induction k arbitrary: n)
  case 0
  then show ?case by (subst show_nat.simps) simp
next
  case (Suc k)
  show ?case
  proof (cases "n < 10")
    case True
    then show ?thesis by (subst show_nat.simps) simp
  next
    case False
    have "n div 10 < 10 ^ Suc k" using Suc.prems by (simp add: less_mult_imp_div_less)
    with False Suc.IH [of "n div 10"] show ?thesis by (subst show_nat.simps) simp
  qed
qed

lemma dec_val_show_nat: "dec_val (show_nat n) = n"
  by (induction n rule: show_nat.induct)
    (subst show_nat.simps, simp add: dec_val_def digit_char)

section \<open>Searching\<close>

text \<open>\<^verbatim>\<open>s.find(needle)\<close>.\<close>

fun find_sub :: "string \<Rightarrow> string \<Rightarrow> nat option" where
  "find_sub needle [] = (if needle = [] then Some 0 else None)"
| "find_sub needle (c # s) =
     (if take (length needle) (c # s) = needle then Some 0 else map_option Suc (find_sub needle s))"

section \<open>Cutting a text at a delimiter\<close>

text \<open>
  The items a loop \<^verbatim>\<open>while (std::getline(in, item, d))\<close> reads. A delimiter at the very
  end of the text is not followed by an empty item.
\<close>

function getline_split :: "char \<Rightarrow> string \<Rightarrow> string list" where
  "getline_split d s =
     (if s = [] then []
      else takeWhile (\<lambda>c. c \<noteq> d) s #
           (case dropWhile (\<lambda>c. c \<noteq> d) s of [] \<Rightarrow> [] | _ # rest \<Rightarrow> getline_split d rest))"
  by pat_completeness auto
termination
proof (relation "measure (\<lambda>(d, s). length s)", goal_cases)
  case 1 show ?case by simp
next
  case (2 d s c rest)
  then have "length (c # rest) \<le> length s" by (metis length_dropWhile_le)
  then show ?case by simp
qed

declare getline_split.simps [simp del]

lemma getline_split_Nil [simp]: "getline_split d [] = []"
  by (simp add: getline_split.simps)

lemma getline_split_last: "getline_split d s = [s]" if "d \<notin> set s" "s \<noteq> []"
proof -
  from that(1) have t: "takeWhile (\<lambda>c. c \<noteq> d) s = s" and u: "dropWhile (\<lambda>c. c \<noteq> d) s = []"
    by auto
  show ?thesis using that(2) by (subst getline_split.simps) (simp only: t u if_False list.case)
qed

lemma getline_split_item: "d \<notin> set s \<Longrightarrow> getline_split d (s @ d # t) = s # getline_split d t"
proof -
  assume "d \<notin> set s"
  then have "takeWhile (\<lambda>c. c \<noteq> d) (s @ d # t) = s" "dropWhile (\<lambda>c. c \<noteq> d) (s @ d # t) = d # t"
    by (auto simp: takeWhile_append dropWhile_append)
  then show ?thesis by (subst getline_split.simps) simp
qed

lemma getline_split_append:
  "\<forall>l \<in> set ls. d \<notin> set l \<Longrightarrow>
     getline_split d (concat (map (\<lambda>l. l @ [d]) ls) @ t) = ls @ getline_split d t"
  by (induction ls) (simp_all add: getline_split_item)

lemma getline_split_no_delim: "x \<in> set (getline_split d s) \<Longrightarrow> d \<notin> set x"
proof (induction d s rule: getline_split.induct)
  case (1 d s)
  have item: "d \<notin> set (takeWhile (\<lambda>c. c \<noteq> d) s)" by (auto dest: set_takeWhileD)
  show ?case
  proof (cases "dropWhile (\<lambda>c. c \<noteq> d) s")
    case Nil
    then have "getline_split d s = (if s = [] then [] else [takeWhile (\<lambda>c. c \<noteq> d) s])"
      by (simp only: getline_split.simps [of d s] list.case)
    with "1.prems" item show ?thesis by (auto split: if_splits)
  next
    case (Cons c rest)
    then have e: "getline_split d s =
        (if s = [] then [] else takeWhile (\<lambda>c. c \<noteq> d) s # getline_split d rest)"
      by (simp only: getline_split.simps [of d s] list.case)
    show ?thesis
    proof (cases "x \<in> set (getline_split d rest)")
      case True
      with Cons show ?thesis using "1.IH" [of c rest] by (cases "s = []") simp_all
    next
      case False
      with "1.prems" e item show ?thesis by (auto split: if_splits)
    qed
  qed
qed

end
