(* ===== verification/Event.thy ===== *)
theory Event
  imports CText
begin

text \<open>
  \<^verbatim>\<open>core/event.hpp\<close>: the fixed-size record that everything in the pipeline passes
  around, and its four helpers. \<open>event_ok\<close> is its well-formedness: the arrays have their
  declared lengths, both identifiers hold a NUL and the used size fits the payload array.
\<close>

section \<open>The record\<close>

text \<open>\<open>PAYLOAD_MAX\<close> is the build constant \<^verbatim>\<open>MAWMAW_PAYLOAD_MAX\<close>, 256 unless the
  build overrides it.\<close>

definition PAYLOAD_MAX :: nat where
  "PAYLOAD_MAX = 256"

definition STREAM_ID_MAX :: nat where
  "STREAM_ID_MAX = 32"

definition SCHEMA_ID_MAX :: nat where
  "SCHEMA_ID_MAX = 16"

record event =
  ev_timestamp_ns :: u64
  ev_sequence :: u64
  ev_lineage_depth :: u32
  ev_payload_size :: u16
  ev_stream_id :: "char list"
  ev_schema_id :: "char list"
  ev_payload :: "u8 list"

definition event_default :: event where
  "event_default =
     \<lparr>ev_timestamp_ns = 0, ev_sequence = 0, ev_lineage_depth = 0, ev_payload_size = 0,
      ev_stream_id = replicate STREAM_ID_MAX NUL, ev_schema_id = replicate SCHEMA_ID_MAX NUL,
      ev_payload = replicate PAYLOAD_MAX 0\<rparr>"

section \<open>The helpers\<close>

definition set_stream :: "string \<Rightarrow> event \<Rightarrow> event" where
  "set_stream s e = e\<lparr>ev_stream_id :=
     (strncpy (ev_stream_id e) s (STREAM_ID_MAX - 1))[STREAM_ID_MAX - 1 := NUL]\<rparr>"

definition set_schema :: "string \<Rightarrow> event \<Rightarrow> event" where
  "set_schema s e = e\<lparr>ev_schema_id :=
     (strncpy (ev_schema_id e) s (SCHEMA_ID_MAX - 1))[SCHEMA_ID_MAX - 1 := NUL]\<rparr>"

text \<open>The caller's buffer is the list \<open>data\<close>; its length is the argument \<^verbatim>\<open>len\<close>.\<close>

definition set_payload :: "u8 list \<Rightarrow> event \<Rightarrow> bool \<times> event" where
  "set_payload data e =
     (let len = length data in
      if len > PAYLOAD_MAX then (False, e)
      else (True, e\<lparr>ev_payload := data @ drop len (ev_payload e),
                    ev_payload_size := of_nat len\<rparr>))"

definition stream_is :: "string \<Rightarrow> event \<Rightarrow> bool" where
  "stream_is s e \<longleftrightarrow> strncmp_eq (ev_stream_id e) s STREAM_ID_MAX"

text \<open>How the rest of the code reads an event: the identifiers as C strings (a
  \<^verbatim>\<open>std::string\<close> made from the array) and the used part of the payload.\<close>

definition stream_of :: "event \<Rightarrow> string option" where
  "stream_of e = c_read (ev_stream_id e)"

definition schema_of :: "event \<Rightarrow> string option" where
  "schema_of e = c_read (ev_schema_id e)"

definition payload_of :: "event \<Rightarrow> u8 list" where
  "payload_of e = take (unat (ev_payload_size e)) (ev_payload e)"

section \<open>Well-formed events\<close>

definition event_shape :: "event \<Rightarrow> bool" where
  "event_shape e \<longleftrightarrow> length (ev_stream_id e) = STREAM_ID_MAX \<and>
     length (ev_schema_id e) = SCHEMA_ID_MAX \<and> length (ev_payload e) = PAYLOAD_MAX"

definition event_ok :: "event \<Rightarrow> bool" where
  "event_ok e \<longleftrightarrow> event_shape e \<and> NUL \<in> set (ev_stream_id e) \<and> NUL \<in> set (ev_schema_id e) \<and>
     unat (ev_payload_size e) \<le> PAYLOAD_MAX"

lemmas event_sizes = PAYLOAD_MAX_def STREAM_ID_MAX_def SCHEMA_ID_MAX_def

lemma event_ok_default: "event_ok event_default"
  by (simp add: event_ok_def event_shape_def event_default_def event_sizes)

lemma event_shape_default [simp]: "event_shape event_default"
  using event_ok_default by (simp add: event_ok_def)

lemma event_shape_stamp [simp]:
  "event_shape (e\<lparr>ev_timestamp_ns := t\<rparr>) = event_shape e" "event_ok (e\<lparr>ev_timestamp_ns := t\<rparr>) = event_ok e"
  by (simp_all add: event_shape_def event_ok_def)

text \<open>The truncating copy that fills an identifier, for any array length.\<close>

lemma id_array:
  assumes "length buf = Suc n"
  shows "(strncpy buf s n)[n := NUL] = take n (c_str s) @ replicate (Suc n - length (take n (c_str s))) NUL"
proof -
  let ?t = "take n (c_str s)"
  have len: "length ?t \<le> n" by simp
  obtain x where x: "drop n buf = [x]" using assms
    by (metis Cons_nth_drop_Suc drop_all lessI order_refl)
  have "strncpy buf s n = (?t @ replicate (n - length (c_str s)) NUL) @ [x]"
    by (simp add: strncpy_pad x)
  moreover have "length (?t @ replicate (n - length (c_str s)) NUL) = n" by simp
  ultimately have "(strncpy buf s n)[n := NUL] = ?t @ replicate (n - length (c_str s)) NUL @ [NUL]"
    by (metis append.assoc list_update_length)
  also have "replicate (n - length (c_str s)) NUL @ [NUL] = replicate (Suc n - length ?t) NUL"
    using len by (cases "length (c_str s) \<le> n") (simp_all add: Suc_diff_le replicate_append_same)
  finally show ?thesis .
qed

lemma set_stream_array:
  "event_shape e \<Longrightarrow> ev_stream_id (set_stream s e) =
     take 31 (c_str s) @ replicate (32 - length (take 31 (c_str s))) NUL"
  using id_array [of "ev_stream_id e" 31 s]
  by (simp add: set_stream_def event_shape_def event_sizes)

lemma set_schema_array:
  "event_shape e \<Longrightarrow> ev_schema_id (set_schema s e) =
     take 15 (c_str s) @ replicate (16 - length (take 15 (c_str s))) NUL"
  using id_array [of "ev_schema_id e" 15 s]
  by (simp add: set_schema_def event_shape_def event_sizes)

lemma c_read_padded:
  "NUL \<notin> set t \<Longrightarrow> 0 < k \<Longrightarrow> c_read (t @ replicate k NUL) = Some t"
  by (auto simp: c_read_eq)

lemma no_NUL_take: "NUL \<notin> set (take n (c_str s))"
  using c_str_no_NUL [of s] by (meson in_set_takeD)

lemma stream_of_set_stream: "event_shape e \<Longrightarrow> stream_of (set_stream s e) = Some (take 31 (c_str s))"
  unfolding stream_of_def set_stream_array by (rule c_read_padded) (auto simp: no_NUL_take)

lemma schema_of_set_schema: "event_shape e \<Longrightarrow> schema_of (set_schema s e) = Some (take 15 (c_str s))"
  unfolding schema_of_def set_schema_array by (rule c_read_padded) (auto simp: no_NUL_take)

lemma c_str_set_stream: "event_shape e \<Longrightarrow> c_str (ev_stream_id (set_stream s e)) = take 31 (c_str s)"
  unfolding set_stream_array by (simp add: no_NUL_take)

lemma set_stream_frame [simp]:
  "ev_timestamp_ns (set_stream s e) = ev_timestamp_ns e" "ev_sequence (set_stream s e) = ev_sequence e"
  "ev_lineage_depth (set_stream s e) = ev_lineage_depth e"
  "ev_payload_size (set_stream s e) = ev_payload_size e"
  "ev_schema_id (set_stream s e) = ev_schema_id e" "ev_payload (set_stream s e) = ev_payload e"
  by (simp_all add: set_stream_def)

lemma set_schema_frame [simp]:
  "ev_timestamp_ns (set_schema s e) = ev_timestamp_ns e" "ev_sequence (set_schema s e) = ev_sequence e"
  "ev_lineage_depth (set_schema s e) = ev_lineage_depth e"
  "ev_payload_size (set_schema s e) = ev_payload_size e"
  "ev_stream_id (set_schema s e) = ev_stream_id e" "ev_payload (set_schema s e) = ev_payload e"
  by (simp_all add: set_schema_def)

lemma event_shape_set_stream [simp]: "event_shape e \<Longrightarrow> event_shape (set_stream s e)"
  unfolding event_shape_def by (simp add: set_stream_def length_strncpy event_sizes)

lemma event_shape_set_schema [simp]: "event_shape e \<Longrightarrow> event_shape (set_schema s e)"
  unfolding event_shape_def by (simp add: set_schema_def length_strncpy event_sizes)

lemma event_ok_set_stream [simp]: "event_ok e \<Longrightarrow> event_ok (set_stream s e)"
  by (auto simp: event_ok_def set_stream_array)

lemma event_ok_set_schema [simp]: "event_ok e \<Longrightarrow> event_ok (set_schema s e)"
  by (auto simp: event_ok_def set_schema_array)

lemma unat_len16: "len \<le> PAYLOAD_MAX \<Longrightarrow> unat (of_nat len :: u16) = len"
  by (simp add: event_sizes unat_of_nat)

lemma event_ok_set_payload [simp]: "event_ok e \<Longrightarrow> event_ok (snd (set_payload d e))"
  by (auto simp: event_ok_def event_shape_def set_payload_def Let_def unat_len16)

lemma payload_of_set_payload:
  "length d \<le> PAYLOAD_MAX \<Longrightarrow> payload_of (snd (set_payload d e)) = d"
  by (simp add: set_payload_def payload_of_def unat_len16 Let_def)

lemma set_payload_frame [simp]:
  "ev_timestamp_ns (snd (set_payload d e)) = ev_timestamp_ns e"
  "ev_sequence (snd (set_payload d e)) = ev_sequence e"
  "ev_lineage_depth (snd (set_payload d e)) = ev_lineage_depth e"
  "ev_stream_id (snd (set_payload d e)) = ev_stream_id e"
  "ev_schema_id (snd (set_payload d e)) = ev_schema_id e"
  by (simp_all add: set_payload_def Let_def)

section \<open>Properties\<close>

text \<open>\<^verbatim>\<open>stream_is\<close> recognises exactly the truncated name that
  \<^verbatim>\<open>set_stream\<close> stored: after setting \<open>s\<close>, an event is on stream \<open>t\<close> iff
  \<open>t\<close> is the first 31 characters of \<open>s\<close>. A name of 32 characters or more is therefore
  never recognised by itself.\<close>

theorem stream_is_set_stream:
  assumes "event_shape e"
  shows "stream_is t (set_stream s e) \<longleftrightarrow> c_str t = take 31 (c_str s)"
proof -
  have "stream_is t (set_stream s e) \<longleftrightarrow> take 31 (c_str s) = take 32 (c_str t)"
    using assms by (simp add: stream_is_def strncmp_eq_iff c_str_set_stream STREAM_ID_MAX_def min_def)
  also have "\<dots> \<longleftrightarrow> c_str t = take 31 (c_str s)"
  proof
    assume h: "take 31 (c_str s) = take 32 (c_str t)"
    then have "length (take 32 (c_str t)) \<le> 31" by (metis length_take min.cobounded2)
    then have "take 32 (c_str t) = c_str t" by simp
    with h show "c_str t = take 31 (c_str s)" by simp
  qed (simp add: min_def)
  finally show ?thesis .
qed

theorem stream_is_set_stream_witness:
  "stream_is ''test'' (set_stream ''test'' event_default) \<and>
   \<not> stream_is (replicate 40 CHR ''x'') (set_stream (replicate 40 CHR ''x'') event_default)"
  using stream_is_set_stream [OF event_shape_default, of "''test''" "''test''"]
    stream_is_set_stream [OF event_shape_default, of "replicate 40 CHR ''x''" "replicate 40 CHR ''x''"]
  by (simp add: c_str_id c_str_simps numeral_eq_Suc)

text \<open>The helpers keep an event well-formed whatever they are given: identifiers are
  truncated and terminated and only the identifier changes, a payload that fits is stored and
  read back exactly, and one that does not is refused without touching the event.\<close>

theorem event_helpers_ok:
  assumes ok: "event_ok e"
  shows "event_ok (set_stream s e) \<and> stream_of (set_stream s e) = Some (take 31 (c_str s)) \<and>
    event_ok (set_schema s e) \<and> schema_of (set_schema s e) = Some (take 15 (c_str s)) \<and>
    event_ok (snd (set_payload d e)) \<and> (fst (set_payload d e) \<longleftrightarrow> length d \<le> PAYLOAD_MAX) \<and>
    payload_of (snd (set_payload d e)) = (if length d \<le> PAYLOAD_MAX then d else payload_of e)"
proof -
  have shape: "event_shape e" using ok by (simp add: event_ok_def)
  have "fst (set_payload d e) \<longleftrightarrow> length d \<le> PAYLOAD_MAX" by (simp add: set_payload_def Let_def)
  moreover have "payload_of (snd (set_payload d e)) =
      (if length d \<le> PAYLOAD_MAX then d else payload_of e)"
    using payload_of_set_payload [of d e] by (simp add: set_payload_def Let_def)
  ultimately show ?thesis using ok shape by (simp add: stream_of_set_stream schema_of_set_schema)
qed

theorem event_helpers_ok_witness:
  "event_ok (set_stream ''trades'' event_default) \<and>
   stream_of (set_stream ''trades'' event_default) = Some ''trades'' \<and>
   payload_of (snd (set_payload [1, 2, 3] event_default)) = [1, 2, 3] \<and>
   \<not> fst (set_payload (replicate 257 0) event_default)"
  using event_helpers_ok [OF event_ok_default, of "''trades''" "[1, 2, 3]"]
    event_helpers_ok [OF event_ok_default, of "''trades''" "replicate 257 0"]
  by (simp add: c_str_id PAYLOAD_MAX_def)

end
