(* ===== verification/Bytes.thy ===== *)
theory Bytes
  imports Prelude
begin

text \<open>
  Little-endian integers in byte buffers: the writers of \<^verbatim>\<open>server/main.cpp\<close> (the
  lambdas \<^verbatim>\<open>w64\<close> and \<^verbatim>\<open>w16\<close> of the telemetry packers) and of
  \<^verbatim>\<open>executor/wasm/wasm_script.hpp\<close>, and the readers of
  \<^verbatim>\<open>publisher/endpoints.hpp\<close> and \<^verbatim>\<open>wasm_script.hpp\<close>. The code has two
  styles for the same encoding (a loop over the bytes, and the bytes written out). Each is
  translated as it is written, and all of them are shown to be instances of one
  contract, the locale \<open>byte_codec\<close>. A reader is only called on a buffer that holds
  the bytes it reads; its callers check that.
\<close>

section \<open>Writers\<close>

text \<open>The loop that pushes the low byte and shifts, \<open>n\<close> times.\<close>

fun put_le :: "nat \<Rightarrow> 'a::len word \<Rightarrow> u8 list" where
  "put_le 0 v = []"
| "put_le (Suc n) v = ucast (v AND 255) # put_le n (drop_bit 8 v)"

definition w64 :: "u64 \<Rightarrow> u8 list" where
  "w64 v = put_le 8 v"

definition w16 :: "u16 \<Rightarrow> u8 list" where
  "w16 v = [ucast (v AND 255), ucast (drop_bit 8 v AND 255)]"

definition w16_ptr :: "u16 \<Rightarrow> u8 list" where
  "w16_ptr v = [ucast (v AND 255), ucast (drop_bit 8 v)]"

definition w32_ptr :: "u32 \<Rightarrow> u8 list" where
  "w32_ptr v = [ucast (v AND 255), ucast (drop_bit 8 v AND 255),
                ucast (drop_bit 16 v AND 255), ucast (drop_bit 24 v AND 255)]"

definition w64_ptr :: "u64 \<Rightarrow> u8 list" where
  "w64_ptr v = put_le 8 v"

section \<open>Readers\<close>

definition read_u64 :: "u8 list \<Rightarrow> u64" where
  "read_u64 p = foldl (\<lambda>v i. v OR push_bit (8 * i) (ucast (p ! i))) 0 [0..<8]"

definition read_u16 :: "u8 list \<Rightarrow> u16" where
  "read_u16 p = ucast (p ! 0) OR push_bit 8 (ucast (p ! 1))"

text \<open>In \<open>r16\<close> and \<open>r32\<close> the bytes are promoted to \<^verbatim>\<open>int\<close> before the shifts; the
  32-bit result is converted to the return type.\<close>

definition r16 :: "u8 list \<Rightarrow> u16" where
  "r16 p = ucast (ucast (p ! 0) OR push_bit 8 (ucast (p ! 1)) :: u32)"

definition r32 :: "u8 list \<Rightarrow> u32" where
  "r32 p = ((ucast (p ! 0) OR push_bit 8 (ucast (p ! 1))) OR push_bit 16 (ucast (p ! 2)))
             OR push_bit 24 (ucast (p ! 3))"

definition r64 :: "u8 list \<Rightarrow> u64" where
  "r64 p = foldl (\<lambda>v i. push_bit 8 v OR ucast (p ! i)) 0 (rev [0..<8])"

section \<open>The bits of an encoding\<close>

lemma ucast_and_255: "(ucast (v AND 255 :: 'a::len word) :: u8) = ucast v"
proof -
  have "(255 :: 'a word) = mask 8" by (simp add: mask_eq_exp_minus_1)
  then have "v AND 255 = take_bit 8 v" by (simp only: take_bit_eq_mask)
  then show ?thesis by (simp only:) (rule bit_word_eqI, simp add: bit_unsigned_iff bit_take_bit_iff)
qed

lemma bit_u8_less: "bit (b :: u8) j \<Longrightarrow> j < 8"
  by (drule bit_imp_le_length) simp

lemma length_put_le [simp]: "length (put_le n v) = n"
  by (induction n arbitrary: v) auto

lemma bit_put_le: "i < n \<Longrightarrow> bit (put_le n v ! i) j \<longleftrightarrow> j < 8 \<and> bit v (8 * i + j)"
  by (induction n arbitrary: v i)
    (auto simp: nth_Cons ucast_and_255 bit_unsigned_iff bit_drop_bit_eq ac_simps
      split: nat.splits dest: bit_imp_le_length)

text \<open>What a little-endian reader of \<open>n\<close> bytes computes, bit by bit.\<close>

definition reads_le :: "nat \<Rightarrow> u8 list \<Rightarrow> 'a::len word \<Rightarrow> bool" where
  "reads_le n p v \<longleftrightarrow>
     (\<forall>k. bit v k \<longleftrightarrow> k < LENGTH('a) \<and> k < 8 * n \<and> bit (p ! (k div 8)) (k mod 8))"

lemma reads_le_put_le:
  assumes "8 * n = LENGTH('a)" and "reads_le n (put_le n v @ rest) w"
  shows "w = (v :: 'a::len word)"
proof (rule bit_word_eqI)
  fix k
  assume k: "k < LENGTH('a)"
  with assms(1) have "k div 8 < n" by (simp add: less_mult_imp_div_less)
  then have "bit ((put_le n v @ rest) ! (k div 8)) (k mod 8) = bit v (8 * (k div 8) + k mod 8)"
    by (simp add: nth_append bit_put_le)
  with k assms(1) show "bit w k = bit v k"
    using assms(2) [unfolded reads_le_def, rule_format, of k] by simp
qed

lemma reads_le_or:
  assumes "reads_le n p v"
  shows "reads_le (Suc n) p (v OR push_bit (8 * n) (ucast (p ! n)) :: 'a::len word)"
  unfolding reads_le_def
proof (intro allI)
  fix k
  note v = assms [unfolded reads_le_def, rule_format, of k]
  show "bit (v OR push_bit (8 * n) (ucast (p ! n))) k =
    (k < LENGTH('a) \<and> k < 8 * Suc n \<and> bit (p ! (k div 8)) (k mod 8))"
  proof (cases "8 * n \<le> k \<and> k < 8 * Suc n")
    case True
    then have "k div 8 = n" "k mod 8 = k - 8 * n" by (auto simp: mod_nat_eqI)
    with True v show ?thesis by (simp add: bit_simps) (auto dest: bit_imp_le_length)
  next
    case False
    with v show ?thesis by (auto simp: bit_simps dest: bit_u8_less)
  qed
qed

lemma reads_le_0: "reads_le 0 p 0"
  by (simp add: reads_le_def)

lemma reads_le_foldl: "reads_le n p (foldl (\<lambda>v i. v OR push_bit (8 * i) (ucast (p ! i))) 0 [0..<n])"
  by (induction n) (simp_all add: reads_le_0 reads_le_or)

text \<open>The reader that walks from the last byte down computes the same value.\<close>

lemma foldl_down_bit:
  fixes p :: "u8 list"
  shows "m \<le> n \<Longrightarrow> bit (foldl (\<lambda>v i. push_bit 8 v OR ucast (p ! i)) 0 (rev [m..<n]) :: 'a::len word) k
     \<longleftrightarrow> k < LENGTH('a) \<and> k < 8 * (n - m) \<and> bit (p ! (m + k div 8)) (k mod 8)"
proof (induction "n - m" arbitrary: m k)
  case 0
  then show ?case by simp
next
  case (Suc d)
  then have m: "m < n" and d: "d = n - Suc m" by auto
  let ?v = "foldl (\<lambda>v i. push_bit 8 v OR ucast (p ! i)) 0 (rev [Suc m..<n]) :: 'a word"
  have e: "foldl (\<lambda>v i. push_bit 8 v OR ucast (p ! i)) 0 (rev [m..<n])
      = (push_bit 8 ?v OR ucast (p ! m) :: 'a word)"
    using m by (simp add: upt_conv_Cons)
  show ?case
  proof (cases "k < 8")
    case True
    with m show ?thesis unfolding e by (auto simp: bit_simps dest: bit_imp_le_length)
  next
    case False
    then have k: "k div 8 = Suc ((k - 8) div 8)" "k mod 8 = (k - 8) mod 8"
      by (simp_all add: le_div_geq le_mod_geq)
    have "bit (p ! m) k = False" using False bit_u8_less [of "p ! m" k] by auto
    with False Suc.hyps(1) [OF d, of "k - 8"] m show ?thesis
      unfolding e k by (auto simp: bit_simps)
  qed
qed

lemma reads_le_down: "reads_le n p (foldl (\<lambda>v i. push_bit 8 v OR ucast (p ! i)) 0 (rev [0..<n]))"
  by (simp add: reads_le_def foldl_down_bit)

section \<open>The contract of a codec\<close>

locale byte_codec =
  fixes put :: "'v \<Rightarrow> u8 list" and get :: "u8 list \<Rightarrow> 'v" and width :: nat
  assumes length_put: "length (put v) = width"
    and get_put: "get (put v @ rest) = v"
begin

lemma get_put_alone: "get (put v) = v"
  using get_put [of v "[]"] by simp

lemma put_inject: "put v @ xs = put w @ ys \<longleftrightarrow> v = w \<and> xs = ys"
  by (metis append_eq_append_conv get_put length_put)

lemma drop_put: "drop width (put v @ rest) = rest"
  by (simp add: length_put)

lemma get_at: "length pre = k \<Longrightarrow> get (drop k (pre @ put v @ rest)) = v"
  by (simp add: get_put)

lemma drop_past: "length pre = k \<Longrightarrow> drop (k + width) (pre @ put v @ rest) = rest"
  by (simp add: length_put)

lemma length_puts: "length (concat (map put vs)) = width * length vs"
  by (induction vs) (simp_all add: length_put)

end

lemma w64_eq: "w64 v = put_le 8 v" "w64_ptr v = put_le 8 v"
  by (simp_all add: w64_def w64_ptr_def)

lemma w16_eq: "w16 v = put_le 2 v" "w16_ptr v = put_le 2 v"
proof -
  have "(ucast (drop_bit 8 v) :: u8) = ucast (drop_bit 8 v AND 255)" by (simp only: ucast_and_255)
  then show "w16 v = put_le 2 v" "w16_ptr v = put_le 2 v"
    by (simp_all add: w16_def w16_ptr_def numeral_2_eq_2)
qed

lemma w32_ptr_eq: "w32_ptr v = put_le 4 v"
  by (simp add: w32_ptr_def numeral_eq_Suc)

lemma read_u16_eq: "reads_le 2 p (read_u16 p)"
  using reads_le_foldl [of 2 p, where 'a = 16] by (simp add: read_u16_def numeral_2_eq_2)

lemma r32_eq: "reads_le 4 p (r32 p)"
  using reads_le_foldl [of 4 p, where 'a = 32] by (simp add: r32_def numeral_eq_Suc)

lemma r16_eq: "reads_le 2 p (r16 p)"
proof -
  have "reads_le 2 p (ucast (p ! 0) OR push_bit 8 (ucast (p ! 1)) :: u32)"
    using reads_le_foldl [of 2 p, where 'a = 32] by (simp add: numeral_2_eq_2)
  then have "bit (ucast (p ! 0) OR push_bit 8 (ucast (p ! 1)) :: u32) k \<longleftrightarrow>
      k < 32 \<and> k < 16 \<and> bit (p ! (k div 8)) (k mod 8)" for k
    by (simp add: reads_le_def)
  note b = this
  show ?thesis
    unfolding r16_def reads_le_def bit_unsigned_iff b by (intro allI) auto
qed

interpretation tel64: byte_codec w64 read_u64 8
proof (unfold_locales, goal_cases)
  case 1 show ?case by (simp add: w64_eq)
next
  case (2 v rest)
  show ?case unfolding read_u64_def w64_eq by (rule reads_le_put_le [OF _ reads_le_foldl]) simp
qed

interpretation tel16: byte_codec w16 read_u16 2
proof (unfold_locales, goal_cases)
  case 1 show ?case by (simp add: w16_eq)
next
  case (2 v rest)
  show ?case unfolding w16_eq by (rule reads_le_put_le [OF _ read_u16_eq]) simp
qed

interpretation wasm16: byte_codec w16_ptr r16 2
proof (unfold_locales, goal_cases)
  case 1 show ?case by (simp add: w16_eq)
next
  case (2 v rest)
  show ?case unfolding w16_eq by (rule reads_le_put_le [OF _ r16_eq]) simp
qed

interpretation wasm32: byte_codec w32_ptr r32 4
proof (unfold_locales, goal_cases)
  case 1 show ?case by (simp add: w32_ptr_eq)
next
  case (2 v rest)
  show ?case unfolding w32_ptr_eq by (rule reads_le_put_le [OF _ r32_eq]) simp
qed

interpretation wasm64: byte_codec w64_ptr r64 8
proof (unfold_locales, goal_cases)
  case 1 show ?case by (simp add: w64_eq)
next
  case (2 v rest)
  show ?case unfolding r64_def w64_eq by (rule reads_le_put_le [OF _ reads_le_down]) simp
qed

end
