(* ===== verification/Telemetry.thy ===== *)
theory Telemetry
  imports Event Bytes
begin

text \<open>
  \<^verbatim>\<open>core/telemetry.hpp\<close> and the part of \<^verbatim>\<open>server/main.cpp\<close> that implements it:
  the counters the hot path bumps, the two packers that drain them into chunks of at most
  one payload, and the events a report consists of. The locks make each operation atomic,
  so it is a function on the state; the weak compare-and-exchange of the latency extrema may
  fail spuriously, and a list of booleans says which of its attempts do.
\<close>

section \<open>State\<close>

record script_stats =
  ss_count :: u64
  ss_total_latency_ns :: u64
  ss_min_latency_ns :: u64
  ss_max_latency_ns :: u64

definition script_stats_init :: script_stats where
  "script_stats_init = \<lparr>ss_count = 0, ss_total_latency_ns = 0,
     ss_min_latency_ns = UINT64_MAX, ss_max_latency_ns = 0\<rparr>"

record telemetry =
  tm_enabled :: bool
  tm_running :: bool
  tm_event_counts :: "u64 umap"
  tm_emitted_counts :: "u64 umap"
  tm_drops :: u64
  tm_script_stats :: "script_stats umap"

definition telemetry_new :: telemetry where
  "telemetry_new = \<lparr>tm_enabled = False, tm_running = False, tm_event_counts = [],
     tm_emitted_counts = [], tm_drops = 0, tm_script_stats = []\<rparr>"

section \<open>Recording\<close>

text \<open>\<^verbatim>\<open>id == "telemetry" || id.rfind("telemetry.", 0) == 0\<close>: the engine's own streams.\<close>

definition telemetry_stream :: "string \<Rightarrow> bool" where
  "telemetry_stream sid \<longleftrightarrow> sid = ''telemetry'' \<or> take 10 sid = ''telemetry.''"

text \<open>Find the counter or insert it at zero, then \<^verbatim>\<open>fetch_add(1)\<close>.\<close>

definition bump :: "u64 umap \<Rightarrow> string \<Rightarrow> u64 umap" where
  "bump m k = (case map_of m k of
     Some n \<Rightarrow> AList.update k (n + 1) m
   | None \<Rightarrow> AList.update k (0 + 1) m)"

definition record_event :: "string \<Rightarrow> telemetry \<Rightarrow> telemetry" where
  "record_event sid t =
     (if \<not> tm_enabled t then t
      else if telemetry_stream sid then t
      else t\<lparr>tm_event_counts := bump (tm_event_counts t) sid\<rparr>)"

definition record_emitted :: "string \<Rightarrow> telemetry \<Rightarrow> telemetry" where
  "record_emitted sid t =
     (if \<not> tm_enabled t then t
      else if telemetry_stream sid then t
      else t\<lparr>tm_emitted_counts := bump (tm_emitted_counts t) sid\<rparr>)"

definition record_drop :: "telemetry \<Rightarrow> telemetry" where
  "record_drop t = (if \<not> tm_enabled t then t else t\<lparr>tm_drops := tm_drops t + 1\<rparr>)"

text \<open>
  \<^verbatim>\<open>while (better(d, cur) && !shared.compare_exchange_weak(cur, d)) {}\<close>. The list holds,
  for each attempt, whether the exchange fails spuriously; a failed attempt reloads
  \<open>cur\<close>. The result is the value left in the shared variable, \<open>None\<close> while the loop
  still spins when the list is used up.
\<close>

fun cas_loop :: "(u64 \<Rightarrow> u64 \<Rightarrow> bool) \<Rightarrow> bool list \<Rightarrow> u64 \<Rightarrow> u64 \<Rightarrow> u64 \<Rightarrow> u64 option" where
  "cas_loop better [] d shared cur = (if better d cur then None else Some shared)"
| "cas_loop better (spurious # fs) d shared cur =
     (if better d cur
      then if spurious \<or> shared \<noteq> cur then cas_loop better fs d shared shared else Some d
      else Some shared)"

definition record_script_invocation ::
  "bool list \<Rightarrow> bool list \<Rightarrow> string \<Rightarrow> u64 \<Rightarrow> telemetry \<Rightarrow> telemetry option" where
  "record_script_invocation fmin fmax sid duration_ns t =
     (if \<not> tm_enabled t then Some t
      else case map_of (tm_script_stats t) sid of
        None \<Rightarrow> Some t
      | Some st \<Rightarrow>
          (case (cas_loop (<) fmin duration_ns (ss_min_latency_ns st) (ss_min_latency_ns st),
                 cas_loop (>) fmax duration_ns (ss_max_latency_ns st) (ss_max_latency_ns st)) of
             (Some mn, Some mx) \<Rightarrow>
               Some (t\<lparr>tm_script_stats := AList.update sid
                 \<lparr>ss_count = ss_count st + 1,
                  ss_total_latency_ns = ss_total_latency_ns st + duration_ns,
                  ss_min_latency_ns = mn, ss_max_latency_ns = mx\<rparr> (tm_script_stats t)\<rparr>)
           | _ \<Rightarrow> None))"

text \<open>\<^verbatim>\<open>emplace\<close> keeps an entry that is already there.\<close>

definition register_script_stats :: "string \<Rightarrow> telemetry \<Rightarrow> telemetry" where
  "register_script_stats sid t =
     (case map_of (tm_script_stats t) sid of
        Some _ \<Rightarrow> t
      | None \<Rightarrow> t\<lparr>tm_script_stats := AList.update sid script_stats_init (tm_script_stats t)\<rparr>)"

definition set_enabled :: "bool \<Rightarrow> telemetry \<Rightarrow> telemetry" where
  "set_enabled en t = t\<lparr>tm_enabled := en\<rparr>"

definition telemetry_start :: "telemetry \<Rightarrow> telemetry" where
  "telemetry_start t = (if tm_running t then t else t\<lparr>tm_enabled := True, tm_running := True\<rparr>)"

definition telemetry_stop :: "telemetry \<Rightarrow> telemetry" where
  "telemetry_stop t = (if \<not> tm_running t then t else t\<lparr>tm_running := False\<rparr>)"

section \<open>Draining the stream counters\<close>

text \<open>\<^verbatim>\<open>exchange(0)\<close> on every counter; the counters that were not zero are copied.\<close>

definition snapshot_counts :: "u64 umap \<Rightarrow> u64 umap" where
  "snapshot_counts m = filter (\<lambda>(k, v). v > 0) m"

definition zero_counts :: "u64 umap \<Rightarrow> u64 umap" where
  "zero_counts m = map (\<lambda>(k, v). (k, 0)) m"

definition total_count :: "u64 umap \<Rightarrow> u64" where
  "total_count m = foldl (\<lambda>a kv. a + snd kv) 0 m"

text \<open>\<^verbatim>\<open>for (auto& kv : snap) combined[kv.first] += kv.second;\<close>\<close>

definition add_counts :: "u64 umap \<Rightarrow> u64 umap \<Rightarrow> u64 umap" where
  "add_counts combined snap = foldl (\<lambda>m (k, v).
     AList.update k ((case map_of m k of Some n \<Rightarrow> n | None \<Rightarrow> 0) + v) m) combined snap"

section \<open>Chunks\<close>

text \<open>
  Both packers cut their entries into chunks by the same loop: chunk \<open>c\<close> starts at entry
  \<open>idx\<close>, takes as many entries as fit, and is followed by the others.
\<close>

fun chunk_loop :: "(nat \<Rightarrow> nat \<Rightarrow> u8 list) \<Rightarrow> ('e \<Rightarrow> u8 list) \<Rightarrow> nat \<Rightarrow> 'e list \<Rightarrow> nat \<Rightarrow> nat \<Rightarrow> nat
    \<Rightarrow> u8 list list" where
  "chunk_loop header entry mx entries 0 c idx = []"
| "chunk_loop header entry mx entries (Suc k) c idx =
     (let n = min mx (length entries - idx);
          out = header c n @ concat (map entry (take n (drop idx entries)))
      in out # chunk_loop header entry mx entries k (Suc c) (idx + n))"

text \<open>The 32-byte field a name is copied into (\<^verbatim>\<open>char buf[32] = {}; strncpy(buf, id, 31)\<close>).\<close>

definition name_field :: "string \<Rightarrow> u8 list" where
  "name_field sid = bytes_of (strncpy (replicate 32 NUL) sid 31)"

definition STREAM_HEADER :: nat where
  "STREAM_HEADER = 8 + 8 + 8 + 8 + 1 + 1 + 2"

definition STREAM_ENTRY :: nat where
  "STREAM_ENTRY = 32 + 8"

definition STREAM_PER_CHUNK :: nat where
  "STREAM_PER_CHUNK = (PAYLOAD_MAX - STREAM_HEADER) div STREAM_ENTRY"

definition stream_header :: "u64 \<Rightarrow> u64 \<Rightarrow> u64 \<Rightarrow> u64 \<Rightarrow> nat \<Rightarrow> nat \<Rightarrow> nat \<Rightarrow> u8 list" where
  "stream_header ts te tm drops chunk_count c n =
     w64 ts @ w64 te @ w64 tm @ w64 drops @ [of_nat c, of_nat chunk_count] @ w16 (of_nat n)"

definition stream_entry :: "string \<times> u64 \<Rightarrow> u8 list" where
  "stream_entry = (\<lambda>(sid, count). name_field sid @ w64 count)"

definition stream_chunks :: "u64 \<Rightarrow> u64 \<Rightarrow> u64 \<Rightarrow> u64 \<Rightarrow> (string \<times> u64) list \<Rightarrow> u8 list list" where
  "stream_chunks ts te tm drops entries =
     (let total = length entries;
          chunk_count = if total = 0 then 1
                        else (total + STREAM_PER_CHUNK - 1) div STREAM_PER_CHUNK
      in chunk_loop (stream_header ts te tm drops chunk_count) stream_entry STREAM_PER_CHUNK
           entries chunk_count 0 0)"

text \<open>The result, the chunks and the drained state.\<close>

definition pack_stream_metrics :: "u64 \<Rightarrow> telemetry \<Rightarrow> bool \<times> u8 list list \<times> telemetry" where
  "pack_stream_metrics ts t =
     (let event_snap = snapshot_counts (tm_event_counts t);
          emitted_snap = snapshot_counts (tm_emitted_counts t);
          drops = tm_drops t;
          t' = t\<lparr>tm_event_counts := zero_counts (tm_event_counts t),
                 tm_emitted_counts := zero_counts (tm_emitted_counts t), tm_drops := 0\<rparr>;
          total_events = total_count event_snap;
          total_emitted = total_count emitted_snap;
          combined = add_counts (add_counts [] event_snap) emitted_snap
      in if combined = [] \<and> drops = 0 then (False, [], t')
         else (True, stream_chunks ts total_events total_emitted drops combined, t'))"

section \<open>Draining the script statistics\<close>

definition SCRIPT_HEADER :: nat where
  "SCRIPT_HEADER = 8 + 1 + 1 + 2"

definition SCRIPT_ENTRY :: nat where
  "SCRIPT_ENTRY = 32 + 8 + 8 + 8 + 8"

definition SCRIPT_PER_CHUNK :: nat where
  "SCRIPT_PER_CHUNK = (PAYLOAD_MAX - SCRIPT_HEADER) div SCRIPT_ENTRY"

definition script_header :: "u64 \<Rightarrow> nat \<Rightarrow> nat \<Rightarrow> nat \<Rightarrow> u8 list" where
  "script_header ts chunk_count c n =
     w64 ts @ [of_nat c, of_nat chunk_count] @ w16 (of_nat n)"

definition script_avg :: "script_stats \<Rightarrow> u64" where
  "script_avg st = (if ss_count st > 0 then ss_total_latency_ns st div ss_count st else 0)"

definition script_entry :: "string \<times> script_stats \<Rightarrow> u8 list" where
  "script_entry = (\<lambda>(sid, st). name_field sid @ w64 (ss_count st) @ w64 (script_avg st) @
     w64 (if ss_min_latency_ns st = UINT64_MAX then 0 else ss_min_latency_ns st) @
     w64 (ss_max_latency_ns st))"

definition script_chunks :: "u64 \<Rightarrow> (string \<times> script_stats) list \<Rightarrow> u8 list list" where
  "script_chunks ts snap =
     (let total = length snap;
          chunk_count = (total + SCRIPT_PER_CHUNK - 1) div SCRIPT_PER_CHUNK
      in chunk_loop (script_header ts chunk_count) script_entry SCRIPT_PER_CHUNK
           snap chunk_count 0 0)"

text \<open>\<open>clock\<close> is the time read when the caller passes the timestamp zero.\<close>

definition pack_script_metrics :: "u64 \<Rightarrow> u64 \<Rightarrow> telemetry \<Rightarrow> bool \<times> u8 list list \<times> telemetry" where
  "pack_script_metrics clock ts0 t =
     (let ts = if ts0 = 0 then clock else ts0;
          snap = filter (\<lambda>(sid, st). ss_count st > 0) (tm_script_stats t);
          t' = t\<lparr>tm_script_stats := map (\<lambda>(sid, st). (sid, script_stats_init)) (tm_script_stats t)\<rparr>
      in if snap = [] then (False, [], t') else (True, script_chunks ts snap, t'))"

section \<open>The events of a report\<close>

text \<open>The event \<^verbatim>\<open>emit_metrics\<close> builds for a chunk; \<open>None\<close> is its \<^verbatim>\<open>BUG\<close>
  branch, which drops a chunk larger than the payload.\<close>

definition metric_event :: "string \<Rightarrow> u64 \<Rightarrow> u8 list \<Rightarrow> event option" where
  "metric_event schema now chunk =
     (let ev = set_schema schema (set_stream ''telemetry'' (event_default\<lparr>ev_timestamp_ns := now\<rparr>));
          (ok, ev') = set_payload chunk ev
      in if \<not> ok then None else Some ev')"

end
