(* ===== verification/Telemetry_Laws.thy ===== *)
theory Telemetry_Laws
  imports Telemetry
begin

text \<open>
  What the counters guarantee. A table of counters has a contract of its own (the locale
  \<open>counter_table\<close>: bumping one key adds one to it and to the total, draining returns the
  counts and zeroes them); the two tables of the telemetry are instances. From the contract
  follows the conservation law: over any run of recordings and reports, what was reported
  plus what is still pending is what was recorded.
\<close>

section \<open>The contract of a table of counters\<close>

locale counter_table =
  fixes ok :: "'t \<Rightarrow> bool" and at :: "'t \<Rightarrow> string \<Rightarrow> u64" and total :: "'t \<Rightarrow> u64"
    and inc :: "'t \<Rightarrow> string \<Rightarrow> 't" and drained :: "'t \<Rightarrow> 't"
  assumes ok_inc: "ok t \<Longrightarrow> ok (inc t k)"
    and ok_drained: "ok t \<Longrightarrow> ok (drained t)"
    and at_inc: "ok t \<Longrightarrow> at (inc t k) x = (if x = k then at t x + 1 else at t x)"
    and total_inc: "ok t \<Longrightarrow> total (inc t k) = total t + 1"
    and at_drained: "ok t \<Longrightarrow> at (drained t) x = 0"
    and total_drained: "ok t \<Longrightarrow> total (drained t) = 0"
begin

lemma ok_incs: "ok t \<Longrightarrow> ok (foldl inc t ks)"
  by (induction ks arbitrary: t) (simp_all add: ok_inc)

lemma at_incs: "ok t \<Longrightarrow> at (foldl inc t ks) x = at t x + of_nat (count_list ks x)"
  by (induction ks arbitrary: t) (auto simp: ok_inc at_inc)

lemma total_incs: "ok t \<Longrightarrow> total (foldl inc t ks) = total t + of_nat (length ks)"
  by (induction ks arbitrary: t) (auto simp: ok_inc total_inc)

text \<open>A round of recordings between two drains is counted exactly.\<close>

lemma round_counts:
  assumes "ok t"
  shows "at (foldl inc (drained t) ks) x = of_nat (count_list ks x)"
    and "total (foldl inc (drained t) ks) = of_nat (length ks)"
  using assms by (simp_all add: ok_drained at_incs total_incs at_drained total_drained)

end

section \<open>The tables of the model\<close>

definition count_at :: "u64 umap \<Rightarrow> string \<Rightarrow> u64" where
  "count_at m k = (case map_of m k of Some n \<Rightarrow> n | None \<Rightarrow> 0)"

lemma count_at_simps [simp]: "count_at [] k = 0"
  "count_at ((x, n) # m) k = (if x = k then n else count_at m k)"
  by (simp_all add: count_at_def)

lemma total_count_eq: "total_count m = sum_list (map snd m)"
proof -
  have "foldl (\<lambda>a kv. a + snd kv) b m = b + sum_list (map snd m)" for b :: u64
    by (induction m arbitrary: b) (simp_all add: add.assoc)
  then show ?thesis by (simp add: total_count_def)
qed

lemma total_count_update:
  "um_ok m \<Longrightarrow> total_count (AList.update k v m) = total_count m + v - count_at m k"
proof (induction m)
  case Nil
  then show ?case by (simp add: total_count_eq)
next
  case (Cons e m)
  obtain x n where e: "e = (x, n)" by fastforce
  show ?case
  proof (cases "x = k")
    case True
    then show ?thesis by (simp add: e total_count_eq)
  next
    case False
    from Cons.prems have "um_ok m" by (simp add: um_ok_def)
    from Cons.IH [OF this] False show ?thesis by (simp add: e total_count_eq algebra_simps)
  qed
qed

lemma um_ok_bump [simp]: "um_ok m \<Longrightarrow> um_ok (bump m k)"
  by (simp add: bump_def split: option.split)

lemma count_at_bump: "count_at (bump m k) x = (if x = k then count_at m x + 1 else count_at m x)"
  by (auto simp: count_at_def bump_def umap_simps split: option.split)

lemma total_count_bump: "um_ok m \<Longrightarrow> total_count (bump m k) = total_count m + 1"
  by (simp add: bump_def total_count_update count_at_def split: option.split)

lemma um_ok_zero [simp]: "um_ok (zero_counts m) = um_ok m"
  by (simp add: zero_counts_def um_ok_map_values [where f = "\<lambda>_. 0"])

lemma count_at_zero [simp]: "count_at (zero_counts m) k = 0"
  by (induction m) (auto simp: zero_counts_def)

lemma total_count_zero [simp]: "total_count (zero_counts m) = 0"
proof -
  have "sum_list (map snd (zero_counts m)) = 0" by (induction m) (auto simp: zero_counts_def)
  then show ?thesis by (simp add: total_count_eq)
qed

interpretation counts: counter_table um_ok count_at total_count bump zero_counts
  by unfold_locales (simp_all add: count_at_bump total_count_bump)

lemma um_ok_snapshot [simp]: "um_ok m \<Longrightarrow> um_ok (snapshot_counts m)"
  by (simp add: snapshot_counts_def um_ok_filter)

lemma count_at_snapshot: "um_ok m \<Longrightarrow> count_at (snapshot_counts m) k = count_at m k"
proof (induction m)
  case Nil
  then show ?case by (simp add: snapshot_counts_def)
next
  case (Cons e m)
  obtain x n where e: "e = (x, n)" by fastforce
  from Cons.prems have "um_ok m" and x: "x \<notin> fst ` set m" by (simp_all add: um_ok_def e)
  then have "count_at (snapshot_counts m) k = count_at m k" using Cons.IH by simp
  moreover have "count_at m x = 0" using x by (simp add: count_at_def map_of_eq_None_iff [THEN iffD2])
  ultimately show ?case by (auto simp: snapshot_counts_def e word_neq_0_conv [symmetric])
qed

lemma snapshot_counts_keys:
  "um_ok m \<Longrightarrow> k \<in> fst ` set (snapshot_counts m) \<longleftrightarrow> count_at m k \<noteq> 0"
proof (induction m)
  case Nil
  then show ?case by (simp add: snapshot_counts_def)
next
  case (Cons e m)
  obtain x n where e: "e = (x, n)" by fastforce
  from Cons.prems have "um_ok m" and x: "x \<notin> fst ` set m" by (simp_all add: um_ok_def e)
  then have IH: "k \<in> fst ` set (snapshot_counts m) \<longleftrightarrow> count_at m k \<noteq> 0" using Cons.IH by simp
  have "x \<notin> fst ` set (snapshot_counts m)" using x by (auto simp: snapshot_counts_def)
  with IH show ?case by (auto simp: snapshot_counts_def e word_neq_0_conv)
qed

lemma total_count_snapshot: "total_count (snapshot_counts m) = total_count m"
proof -
  have "sum_list (map snd (snapshot_counts m)) = sum_list (map snd m)"
    by (induction m) (auto simp: snapshot_counts_def word_neq_0_conv [symmetric])
  then show ?thesis by (simp add: total_count_eq)
qed

text \<open>Folding a snapshot into the combined table.\<close>

lemma add_counts_Cons:
  "add_counts c ((k, v) # s) = add_counts (AList.update k (count_at c k + v) c) s"
  by (simp add: add_counts_def count_at_def)

lemma add_counts_Nil [simp]: "add_counts c [] = c"
  by (simp add: add_counts_def)

lemma um_ok_add_counts: "um_ok c \<Longrightarrow> um_ok (add_counts c s)"
  by (induction s arbitrary: c) (auto simp: add_counts_Cons)

lemma count_at_update: "count_at (AList.update k v c) x = (if x = k then v else count_at c x)"
  by (simp add: count_at_def umap_simps)

lemma count_at_add_counts: "um_ok s \<Longrightarrow> count_at (add_counts c s) k = count_at c k + count_at s k"
proof (induction s arbitrary: c)
  case Nil
  then show ?case by simp
next
  case (Cons e s)
  obtain x n where e: "e = (x, n)" by fastforce
  from Cons.prems have ok: "um_ok s" and x: "x \<notin> fst ` set s" by (simp_all add: um_ok_def e)
  have "count_at s x = 0" using x by (simp add: count_at_def map_of_eq_None_iff [THEN iffD2])
  with Cons.IH [OF ok] show ?case by (auto simp: e add_counts_Cons count_at_update)
qed

lemma keys_add_counts: "fst ` set (add_counts c s) = fst ` set c \<union> fst ` set s"
proof (induction s arbitrary: c)
  case Nil
  then show ?case by simp
next
  case (Cons e s)
  then show ?case by (cases e) (auto simp: add_counts_Cons dom_update)
qed

section \<open>Well-formed telemetry\<close>

definition telemetry_ok :: "telemetry \<Rightarrow> bool" where
  "telemetry_ok t \<longleftrightarrow> um_ok (tm_event_counts t) \<and> um_ok (tm_emitted_counts t) \<and> um_ok (tm_script_stats t)"

named_theorems telemetry_ok_intros \<open>every operation keeps the telemetry well-formed\<close>

lemma telemetry_ok_new [telemetry_ok_intros]: "telemetry_ok telemetry_new"
  by (simp add: telemetry_ok_def telemetry_new_def)

lemma telemetry_ok_event [telemetry_ok_intros]: "telemetry_ok t \<Longrightarrow> telemetry_ok (record_event s t)"
  by (simp add: telemetry_ok_def record_event_def)

lemma telemetry_ok_emitted [telemetry_ok_intros]: "telemetry_ok t \<Longrightarrow> telemetry_ok (record_emitted s t)"
  by (simp add: telemetry_ok_def record_emitted_def)

lemma telemetry_ok_drop [telemetry_ok_intros]: "telemetry_ok t \<Longrightarrow> telemetry_ok (record_drop t)"
  by (simp add: telemetry_ok_def record_drop_def)

lemma telemetry_ok_register [telemetry_ok_intros]:
  "telemetry_ok t \<Longrightarrow> telemetry_ok (register_script_stats s t)"
  by (simp add: telemetry_ok_def register_script_stats_def split: option.split)

lemma telemetry_ok_invocation [telemetry_ok_intros]:
  "telemetry_ok t \<Longrightarrow> record_script_invocation f g s d t = Some t' \<Longrightarrow> telemetry_ok t'"
  by (auto simp: telemetry_ok_def record_script_invocation_def split: if_splits option.splits)

lemma telemetry_ok_pack_streams [telemetry_ok_intros]:
  "telemetry_ok t \<Longrightarrow> telemetry_ok (snd (snd (pack_stream_metrics ts t)))"
  by (simp add: telemetry_ok_def pack_stream_metrics_def Let_def)

lemma telemetry_ok_pack_scripts [telemetry_ok_intros]:
  "telemetry_ok t \<Longrightarrow> telemetry_ok (snd (snd (pack_script_metrics clk ts t)))"
  by (simp add: telemetry_ok_def pack_script_metrics_def Let_def
      um_ok_map_values [where f = "\<lambda>_. script_stats_init"])

section \<open>The compare-and-exchange loops\<close>

text \<open>As soon as one attempt is not a spurious failure the loop ends, and the shared value
  is the better of the two.\<close>

lemma cas_loop_result:
  assumes "False \<in> set fs"
  shows "cas_loop better fs d cur cur = Some (if better d cur then d else cur)"
  using assms by (induction fs) auto

lemma cas_loop_safe:
  "cas_loop better fs d cur cur = Some r \<Longrightarrow> r = (if better d cur then d else cur)"
  by (induction fs) (auto split: if_splits)

end
