(* ===== verification/Chunking.thy ===== *)
theory Chunking
  imports Telemetry
begin

text \<open>
  What the chunks of a report look like: a closed form of the packing loop, the sizes of
  the chunks, and the fact that the chunks carry every entry once and in order. The event of
  a chunk always fits the payload, so the \<^verbatim>\<open>BUG\<close> branch of
  \<^verbatim>\<open>emit_metrics\<close> is dead.
\<close>

definition group_at :: "nat \<Rightarrow> 'e list \<Rightarrow> nat \<Rightarrow> 'e list" where
  "group_at mx es j = take mx (drop (j * mx) es)"

definition chunk_of :: "(nat \<Rightarrow> nat \<Rightarrow> u8 list) \<Rightarrow> ('e \<Rightarrow> u8 list) \<Rightarrow> nat \<Rightarrow> 'e list \<Rightarrow> u8 list" where
  "chunk_of header entry c g = header c (length g) @ concat (map entry g)"

lemma chunk_loop_eq:
  "chunk_loop header entry mx es k c idx =
     map (\<lambda>j. chunk_of header entry (c + j) (take mx (drop (idx + j * mx) es))) [0..<k]"
proof (induction k arbitrary: c idx)
  case 0
  show ?case by simp
next
  case (Suc k)
  let ?n = "min mx (length es - idx)"
  have g: "take ?n (drop idx es) = take mx (drop idx es)" by (simp add: min_def)
  have n: "length (take mx (drop idx es)) = ?n" by simp
  have rest: "take mx (drop (idx + ?n + j * mx) es) = take mx (drop (idx + Suc j * mx) es)" for j
  proof (cases "mx \<le> length es - idx")
    case True
    then show ?thesis by (simp add: min_def algebra_simps)
  next
    case False
    then have "length es \<le> idx + ?n + j * mx" "length es \<le> idx + Suc j * mx" by auto
    then show ?thesis by simp
  qed
  have "chunk_loop header entry mx es (Suc k) c idx =
      chunk_of header entry c (take mx (drop idx es)) #
      chunk_loop header entry mx es k (Suc c) (idx + ?n)"
    by (simp only: chunk_loop.simps Let_def chunk_of_def g n)
  also have "\<dots> = chunk_of header entry c (take mx (drop (idx + 0 * mx) es)) #
      map (\<lambda>j. chunk_of header entry (c + Suc j) (take mx (drop (idx + Suc j * mx) es))) [0..<k]"
    by (simp only: Suc.IH rest add_Suc_shift mult_0 add_0_right)
  also have "\<dots> = map (\<lambda>j. chunk_of header entry (c + j) (take mx (drop (idx + j * mx) es))) [0..<Suc k]"
    by (simp add: upt_conv_Cons map_Suc_upt [symmetric] comp_def del: upt_Suc mult_Suc)
  finally show ?case .
qed

lemma concat_groups: "concat (map (group_at mx es) [0..<k]) = take (k * mx) es"
  by (induction k) (simp_all add: group_at_def take_add [symmetric] add.commute)

lemma length_group_at: "length (group_at mx es j) \<le> mx"
  by (simp add: group_at_def)

definition ceil_div :: "nat \<Rightarrow> nat \<Rightarrow> nat" where
  "ceil_div n mx = (n + mx - 1) div mx"

lemma ceil_div_covers: "0 < mx \<Longrightarrow> n \<le> ceil_div n mx * mx"
proof -
  assume "0 < mx"
  have "n + mx - 1 = ceil_div n mx * mx + (n + mx - 1) mod mx" by (simp add: ceil_div_def)
  moreover have "(n + mx - 1) mod mx \<le> mx - 1" using \<open>0 < mx\<close> by (simp add: less_Suc_eq_le [symmetric])
  ultimately show ?thesis using \<open>0 < mx\<close> by linarith
qed

section \<open>Names\<close>

lemma length_name_field [simp]: "length (name_field s) = 32"
  by (simp add: name_field_def length_strncpy)

lemma chars_of_name_field: "chars_of (name_field s) = take 31 (c_str s) @ replicate (32 - length (take 31 (c_str s))) NUL"
proof -
  have "strncpy (replicate 32 NUL) s 31 = take 31 (c_str s) @ replicate (31 - length (c_str s)) NUL @ [NUL]"
    by (simp add: strncpy_pad)
  also have "replicate (31 - length (c_str s)) NUL @ [NUL] = replicate (Suc (31 - length (c_str s))) NUL"
    by (simp add: replicate_append_same)
  also have "Suc (31 - length (c_str s)) = 32 - length (take 31 (c_str s))" by simp
  finally show ?thesis by (simp add: name_field_def)
qed

lemma c_str_name_field [simp]: "c_str (chars_of (name_field s)) = take 31 (c_str s)"
  unfolding chars_of_name_field by (rule c_str_append_NULs) (rule no_NUL_take)

section \<open>Sizes\<close>

lemma per_chunk: "STREAM_PER_CHUNK = 5" "SCRIPT_PER_CHUNK = 3"
  by (simp_all add: STREAM_PER_CHUNK_def STREAM_HEADER_def STREAM_ENTRY_def SCRIPT_PER_CHUNK_def
      SCRIPT_HEADER_def SCRIPT_ENTRY_def PAYLOAD_MAX_def)

lemma length_stream_header [simp]: "length (stream_header ts te tm d cc c n) = 36"
  by (simp add: stream_header_def tel64.length_put tel16.length_put)

lemma length_script_header [simp]: "length (script_header ts cc c n) = 12"
  by (simp add: script_header_def tel64.length_put tel16.length_put)

lemma length_stream_entry [simp]: "length (stream_entry e) = 40"
  by (simp add: stream_entry_def tel64.length_put split: prod.split)

lemma length_script_entry [simp]: "length (script_entry e) = 64"
  by (simp add: script_entry_def tel64.length_put split: prod.split)

lemma length_concat_const: "(\<And>x. length (f x) = k) \<Longrightarrow> length (concat (map f xs)) = k * length xs"
  by (induction xs) simp_all

lemma length_stream_chunk:
  "length (chunk_of (stream_header ts te tm d cc) stream_entry c g) = 36 + 40 * length g"
  by (simp add: chunk_of_def length_concat_const)

lemma length_script_chunk:
  "length (chunk_of (script_header ts cc) script_entry c g) = 12 + 64 * length g"
  by (simp add: chunk_of_def length_concat_const)

definition stream_chunk_count :: "nat \<Rightarrow> nat" where
  "stream_chunk_count n = (if n = 0 then 1 else ceil_div n 5)"

lemma stream_chunks_eq:
  "stream_chunks ts te tm d es =
     map (\<lambda>j. chunk_of (stream_header ts te tm d (stream_chunk_count (length es))) stream_entry j
       (group_at 5 es j)) [0..<stream_chunk_count (length es)]"
  by (simp add: stream_chunks_def Let_def chunk_loop_eq per_chunk stream_chunk_count_def
      ceil_div_def group_at_def)

lemma script_chunks_eq:
  "script_chunks ts es =
     map (\<lambda>j. chunk_of (script_header ts (ceil_div (length es) 3)) script_entry j
       (group_at 3 es j)) [0..<ceil_div (length es) 3]"
  by (simp add: script_chunks_def Let_def chunk_loop_eq per_chunk ceil_div_def group_at_def)

lemma stream_groups_all: "concat (map (group_at 5 es) [0..<stream_chunk_count (length es)]) = es"
  using ceil_div_covers [of 5 "length es"] by (simp add: concat_groups stream_chunk_count_def)

lemma script_groups_all: "concat (map (group_at 3 es) [0..<ceil_div (length es) 3]) = es"
  using ceil_div_covers [of 3 "length es"] by (simp add: concat_groups)

lemma chunk_sizes:
  "ch \<in> set (stream_chunks ts te tm d es) \<Longrightarrow> length ch \<le> 236"
  "ch \<in> set (script_chunks ts ss) \<Longrightarrow> length ch \<le> 204"
  using length_group_at [of 5 es] length_group_at [of 3 ss]
  by (force simp: stream_chunks_eq length_stream_chunk, force simp: script_chunks_eq length_script_chunk)

text \<open>The event of a chunk that fits.\<close>

definition metric_base :: "string \<Rightarrow> u64 \<Rightarrow> event" where
  "metric_base schema now =
     set_schema schema (set_stream ''telemetry'' (event_default\<lparr>ev_timestamp_ns := now\<rparr>))"

lemma metric_base_ok: "event_ok (metric_base schema now)"
  by (simp add: metric_base_def event_ok_default)

lemma metric_event_fits:
  "length ch \<le> PAYLOAD_MAX \<Longrightarrow>
     metric_event schema now ch = Some (snd (set_payload ch (metric_base schema now)))"
  by (simp add: metric_event_def metric_base_def [symmetric] Let_def set_payload_def)

lemma metric_event_too_large: "PAYLOAD_MAX < length ch \<Longrightarrow> metric_event schema now ch = None"
  by (simp add: metric_event_def Let_def set_payload_def)

end
