(* ===== verification/Dashboard.thy ===== *)
theory Dashboard
  imports Chunking
begin

text \<open>
  The telemetry endpoint of \<^verbatim>\<open>publisher/endpoints.hpp\<close>
  (\<^verbatim>\<open>TelemetryStdoutEndpoint\<close>): a state machine that reassembles the chunks of a
  report and shows it when the last chunk is in. A handler is \<open>None\<close> where the code reads
  beyond the payload array. What \<^verbatim>\<open>render\<close> is given is recorded in
  \<open>db_screens\<close>; the theory \<^verbatim>\<open>Dashboard_Text\<close> has the text it prints.
\<close>

section \<open>State\<close>

record stream_group =
  sg_timestamp_ns :: u64
  sg_total_events :: u64
  sg_total_emitted :: u64
  sg_drops :: u64
  sg_chunk_count :: u8
  sg_received :: "bool list"
  sg_entries :: "(string \<times> u64) list"

record script_row =
  sr_id :: string
  sr_count :: u64
  sr_avg :: u64
  sr_min :: u64
  sr_max :: u64

record script_group =
  cg_timestamp_ns :: u64
  cg_chunk_count :: u8
  cg_received :: "bool list"
  cg_entries :: "script_row list"

record dashboard =
  db_id :: string
  db_pending_stream :: "stream_group option"
  db_pending_script :: "script_group option"
  db_latest_stream :: "stream_group option"
  db_latest_script :: "script_group option"
  db_screens :: "(stream_group option \<times> script_group option) list"
  db_notes :: "string list"

definition dashboard_new :: "string \<Rightarrow> dashboard" where
  "dashboard_new eid = \<lparr>db_id = eid, db_pending_stream = None, db_pending_script = None,
     db_latest_stream = None, db_latest_script = None, db_screens = [], db_notes = []\<rparr>"

definition render :: "dashboard \<Rightarrow> dashboard" where
  "render d = d\<lparr>db_screens := db_screens d @ [(db_latest_stream d, db_latest_script d)]\<rparr>"

section \<open>Stream chunks\<close>

text \<open>The 32 bytes of a name, copied into \<^verbatim>\<open>char[33]\<close> with a NUL after them.\<close>

definition read_name :: "u8 list \<Rightarrow> string" where
  "read_name p = c_str (chars_of (take 32 p))"

fun read_stream_entries :: "nat \<Rightarrow> u8 list \<Rightarrow> (string \<times> u64) list option" where
  "read_stream_entries 0 p = Some []"
| "read_stream_entries (Suc n) p =
     (if length p < 40 then None
      else case read_stream_entries n (drop 40 p) of
        None \<Rightarrow> None
      | Some es \<Rightarrow> Some ((read_name p, read_u64 (drop 32 p)) # es))"

definition handle_stream_chunk :: "event \<Rightarrow> dashboard \<Rightarrow> dashboard option" where
  "handle_stream_chunk ev d =
     (let p = ev_payload ev;
          ts = read_u64 p;
          total_events = read_u64 (drop 8 p);
          total_emitted = read_u64 (drop 16 p);
          drops = read_u64 (drop 24 p);
          chunk_index = p ! 32;
          chunk_count = p ! 33;
          n = read_u16 (drop 34 p);
          pending = (case db_pending_stream d of
             Some g \<Rightarrow> if sg_timestamp_ns g \<noteq> ts then None else Some g | None \<Rightarrow> None);
          g = (case pending of
             Some g \<Rightarrow> g
           | None \<Rightarrow> \<lparr>sg_timestamp_ns = ts, sg_total_events = total_events,
               sg_total_emitted = total_emitted, sg_drops = drops, sg_chunk_count = chunk_count,
               sg_received = replicate (unat chunk_count) False, sg_entries = []\<rparr>)
      in if unat chunk_index \<ge> length (sg_received g) \<or> sg_received g ! unat chunk_index
         then Some (d\<lparr>db_pending_stream := Some g\<rparr>)
         else case read_stream_entries (unat n) (drop 36 p) of
           None \<Rightarrow> None
         | Some es \<Rightarrow>
             (let g' = g\<lparr>sg_received := (sg_received g)[unat chunk_index := True],
                         sg_entries := sg_entries g @ es\<rparr>
              in if list_all id (sg_received g')
                 then Some (render (d\<lparr>db_latest_stream := Some g', db_pending_stream := None\<rparr>))
                 else Some (d\<lparr>db_pending_stream := Some g'\<rparr>)))"

section \<open>Script chunks\<close>

fun read_script_entries :: "nat \<Rightarrow> u8 list \<Rightarrow> script_row list option" where
  "read_script_entries 0 p = Some []"
| "read_script_entries (Suc n) p =
     (if length p < 64 then None
      else case read_script_entries n (drop 64 p) of
        None \<Rightarrow> None
      | Some es \<Rightarrow> Some (\<lparr>sr_id = read_name p, sr_count = read_u64 (drop 32 p),
          sr_avg = read_u64 (drop 40 p), sr_min = read_u64 (drop 48 p),
          sr_max = read_u64 (drop 56 p)\<rparr> # es))"

definition handle_script_chunk :: "event \<Rightarrow> dashboard \<Rightarrow> dashboard option" where
  "handle_script_chunk ev d =
     (let p = ev_payload ev;
          ts = read_u64 p;
          chunk_index = p ! 8;
          chunk_count = p ! 9;
          n = read_u16 (drop 10 p);
          pending = (case db_pending_script d of
             Some g \<Rightarrow> if cg_timestamp_ns g \<noteq> ts then None else Some g | None \<Rightarrow> None);
          g = (case pending of
             Some g \<Rightarrow> g
           | None \<Rightarrow> \<lparr>cg_timestamp_ns = ts, cg_chunk_count = chunk_count,
               cg_received = replicate (unat chunk_count) False, cg_entries = []\<rparr>)
      in if unat chunk_index \<ge> length (cg_received g) \<or> cg_received g ! unat chunk_index
         then Some (d\<lparr>db_pending_script := Some g\<rparr>)
         else case read_script_entries (unat n) (drop 12 p) of
           None \<Rightarrow> None
         | Some es \<Rightarrow>
             (let g' = g\<lparr>cg_received := (cg_received g)[unat chunk_index := True],
                         cg_entries := cg_entries g @ es\<rparr>
              in if list_all id (cg_received g')
                 then Some (render (d\<lparr>db_latest_script := Some g', db_pending_script := None\<rparr>))
                 else Some (d\<lparr>db_pending_script := Some g'\<rparr>)))"

section \<open>The endpoint\<close>

text \<open>\<^verbatim>\<open>publish\<close>: streams whose name does not start with \<^verbatim>\<open>telemetry\<close> are
  ignored, the schema selects the handler, and an unknown schema is printed (as a C
  string, so \<open>None\<close> if the array holds no NUL).\<close>

definition dashboard_publish :: "event \<Rightarrow> dashboard \<Rightarrow> dashboard option" where
  "dashboard_publish ev d =
     (if \<not> strncmp_eq (ev_stream_id ev) ''telemetry'' 9 \<and>
         \<not> strncmp_eq (ev_stream_id ev) ''telemetry.'' 10 then Some d
      else if strncmp_eq (ev_schema_id ev) ''streams_v1'' 10 then handle_stream_chunk ev d
      else if strncmp_eq (ev_schema_id ev) ''scripts_v1'' 10 then handle_script_chunk ev d
      else case schema_of ev of
        None \<Rightarrow> None
      | Some s \<Rightarrow> Some (d\<lparr>db_notes := db_notes d @ [''[telemetry] unknown schema: '' @ s]\<rparr>))"

fun dashboard_feed :: "event list \<Rightarrow> dashboard \<Rightarrow> dashboard option" where
  "dashboard_feed [] d = Some d"
| "dashboard_feed (ev # evs) d =
     (case dashboard_publish ev d of None \<Rightarrow> None | Some d' \<Rightarrow> dashboard_feed evs d')"

section \<open>Reading back what was packed\<close>

text \<open>What an entry looks like on the dashboard.\<close>

definition shown_stream :: "string \<times> u64 \<Rightarrow> string \<times> u64" where
  "shown_stream = (\<lambda>(sid, n). (take 31 (c_str sid), n))"

definition shown_script :: "string \<times> script_stats \<Rightarrow> script_row" where
  "shown_script = (\<lambda>(sid, st). \<lparr>sr_id = take 31 (c_str sid), sr_count = ss_count st,
     sr_avg = script_avg st,
     sr_min = (if ss_min_latency_ns st = UINT64_MAX then 0 else ss_min_latency_ns st),
     sr_max = ss_max_latency_ns st\<rparr>)"

lemma read_name_field [simp]: "read_name (name_field s @ rest) = take 31 (c_str s)"
  by (simp add: read_name_def)

lemma read_stream_entries_packed:
  "read_stream_entries (length g) (concat (map stream_entry g) @ rest) = Some (map shown_stream g)"
proof (induction g)
  case Nil
  then show ?case by simp
next
  case (Cons e g)
  obtain s n where e: "e = (s, n)" by fastforce
  show ?case using Cons
    by (simp add: e) (simp add: stream_entry_def shown_stream_def tel64.get_put)
qed

lemma read_script_entries_packed:
  "read_script_entries (length g) (concat (map script_entry g) @ rest) = Some (map shown_script g)"
proof (induction g)
  case Nil
  then show ?case by simp
next
  case (Cons e g)
  obtain s st where e: "e = (s, st)" by fastforce
  show ?case using Cons
    by (simp add: e) (simp add: script_entry_def shown_script_def tel64.get_put tel64.length_put)
qed

definition packed :: "u8 list \<Rightarrow> u8 list \<Rightarrow> bool" where
  "packed ch p \<longleftrightarrow> (\<exists>rest. p = ch @ rest)"

lemma packed_set_payload: "length ch \<le> PAYLOAD_MAX \<Longrightarrow> packed ch (ev_payload (snd (set_payload ch e)))"
  by (auto simp: packed_def set_payload_def Let_def)

lemma nth_after: "length pre = k \<Longrightarrow> (pre @ x # rest) ! k = x"
  by (metis nth_append_length)

lemma stream_header_fields:
  assumes "p = stream_header ts te tm dr cc c n @ rest"
  shows "read_u64 p = ts" "read_u64 (drop 8 p) = te" "read_u64 (drop 16 p) = tm"
    "read_u64 (drop 24 p) = dr" "p ! 32 = of_nat c" "p ! 33 = of_nat cc"
    "read_u16 (drop 34 p) = of_nat n" "drop 36 p = rest"
  by (simp_all add: assms stream_header_def tel64.get_put tel64.length_put tel16.get_put
      tel16.length_put nth_append)

lemma script_header_fields:
  assumes "p = script_header ts cc c n @ rest"
  shows "read_u64 p = ts" "p ! 8 = of_nat c" "p ! 9 = of_nat cc"
    "read_u16 (drop 10 p) = of_nat n" "drop 12 p = rest"
  by (simp_all add: assms script_header_def tel64.get_put tel64.length_put tel16.get_put
      tel16.length_put nth_append)

end
