(* ===== verification/Reassembly.thy ===== *)
theory Reassembly
  imports Dashboard
begin

text \<open>
  Reports survive the trip through the pipeline: feeding the chunks of a report to the
  dashboard in order shows exactly the entries that were packed. Both kinds of report go
  through the same protocol, which the locale \<open>reassembly\<close> states: a chunk that is not the
  last extends the partial group, and the last one finishes it.
\<close>

section \<open>The protocol\<close>

locale reassembly =
  fixes fits :: bool and step :: "'c \<Rightarrow> 's \<Rightarrow> 's option" and group :: "'s \<Rightarrow> 'g"
    and partial :: "nat \<Rightarrow> 'g" and finish :: "'s \<Rightarrow> 's" and chunk :: "nat \<Rightarrow> 'c" and chunks :: nat
  assumes extend: "fits \<Longrightarrow> group s = partial j \<Longrightarrow> Suc j < chunks \<Longrightarrow>
      \<exists>s'. step (chunk j) s = Some s' \<and> group s' = partial (Suc j) \<and> finish s' = finish s"
    and complete: "fits \<Longrightarrow> group s = partial j \<Longrightarrow> Suc j = chunks \<Longrightarrow> step (chunk j) s = Some (finish s)"
begin

fun feed :: "nat list \<Rightarrow> 's \<Rightarrow> 's option" where
  "feed [] s = Some s"
| "feed (j # js) s = (case step (chunk j) s of None \<Rightarrow> None | Some s' \<Rightarrow> feed js s')"

lemma feed_from: "fits \<Longrightarrow> group s = partial j \<Longrightarrow> j < chunks \<Longrightarrow> feed [j..<chunks] s = Some (finish s)"
proof (induction "chunks - j" arbitrary: j s)
  case 0
  then show ?case by simp
next
  case (Suc k)
  show ?case
  proof (cases "Suc j = chunks")
    case True
    then show ?thesis using complete Suc.prems by (simp add: upt_conv_Cons)
  next
    case False
    with Suc.prems have j: "Suc j < chunks" by simp
    from extend [OF Suc.prems(1,2) j] obtain s' where
      s': "step (chunk j) s = Some s'" "group s' = partial (Suc j)" "finish s' = finish s" by blast
    from Suc.hyps(1) [of "Suc j" s'] Suc.hyps(2) Suc.prems(1) s' j
    have "feed [Suc j..<chunks] s' = Some (finish s)" by simp
    with s' Suc.prems(3) show ?thesis by (simp add: upt_conv_Cons)
  qed
qed

lemma feed_all: "fits \<Longrightarrow> group s = partial 0 \<Longrightarrow> 0 < chunks \<Longrightarrow> feed [0..<chunks] s = Some (finish s)"
  by (rule feed_from)

end

section \<open>Facts both handlers share\<close>

definition progress :: "nat \<Rightarrow> nat \<Rightarrow> bool list" where
  "progress n j = replicate j True @ replicate (n - j) False"

lemma progress_simps [simp]:
  "length (progress n j) = max n j" "progress n 0 = replicate n False"
  by (auto simp: progress_def)

lemma progress_next: "j < n \<Longrightarrow> \<not> progress n j ! j"
  by (simp add: progress_def nth_append)

lemma progress_mark: "j < n \<Longrightarrow> (progress n j)[j := True] = progress n (Suc j)"
proof -
  assume "j < n"
  then obtain k where "n - j = Suc k" "n - Suc j = k" by (metis Suc_diff_Suc)
  then show ?thesis by (simp add: progress_def list_update_append replicate_app_Cons_same)
qed

lemma progress_done: "list_all id (progress n j) \<longleftrightarrow> j = n" if "j \<le> n"
proof (cases "n - j")
  case 0
  with that show ?thesis by (simp add: progress_def list_all_iff)
next
  case (Suc k)
  with that have "j \<noteq> n" by simp
  with Suc show ?thesis by (simp add: progress_def)
qed

lemma take_group: "take (mx * j) es @ group_at mx es j = take (mx * Suc j) es"
proof -
  have "take (mx * j) es @ group_at mx es j = take (mx * j) es @ take mx (drop (mx * j) es)"
    by (simp add: group_at_def mult.commute)
  also have "\<dots> = take (mx * j + mx) es" by (rule take_add [symmetric])
  also have "mx * j + mx = mx * Suc j" by simp
  finally show ?thesis .
qed

lemma unat_of_nat8: "k < 256 \<Longrightarrow> unat (of_nat k :: u8) = k"
  by (simp add: unat_of_nat)

lemma unat_of_nat16: "k < 65536 \<Longrightarrow> unat (of_nat k :: u16) = k"
  by (simp add: unat_of_nat)

text \<open>The guards of \<^verbatim>\<open>publish\<close> on the engine's own events.\<close>

lemma metric_stream: "c_str (ev_stream_id (metric_base schema now)) = ''telemetry''"
  by (simp add: metric_base_def c_str_set_stream c_str_id)

lemma metric_schema: "c_str (ev_schema_id (metric_base schema now)) = take 15 (c_str schema)"
  by (simp add: metric_base_def set_schema_array no_NUL_take)

lemma publish_stream_chunk:
  "dashboard_publish (snd (set_payload ch (metric_base ''streams_v1'' now))) d =
     handle_stream_chunk (snd (set_payload ch (metric_base ''streams_v1'' now))) d"
  by (simp add: dashboard_publish_def metric_stream strncmp_eq_iff metric_schema c_str_id)

lemma publish_script_chunk:
  "dashboard_publish (snd (set_payload ch (metric_base ''scripts_v1'' now))) d =
     handle_script_chunk (snd (set_payload ch (metric_base ''scripts_v1'' now))) d"
  by (simp add: dashboard_publish_def metric_stream strncmp_eq_iff metric_schema c_str_id)

section \<open>Stream reports\<close>

definition stream_fresh :: "u64 \<Rightarrow> u64 \<Rightarrow> u64 \<Rightarrow> u64 \<Rightarrow> nat \<Rightarrow> stream_group" where
  "stream_fresh ts te tm dr cc = \<lparr>sg_timestamp_ns = ts, sg_total_events = te, sg_total_emitted = tm,
     sg_drops = dr, sg_chunk_count = of_nat cc, sg_received = replicate cc False, sg_entries = []\<rparr>"

definition stream_partial :: "u64 \<Rightarrow> u64 \<Rightarrow> u64 \<Rightarrow> u64 \<Rightarrow> (string \<times> u64) list \<Rightarrow> nat \<Rightarrow> stream_group" where
  "stream_partial ts te tm dr es j =
     (stream_fresh ts te tm dr (stream_chunk_count (length es)))
       \<lparr>sg_received := progress (stream_chunk_count (length es)) j,
        sg_entries := map shown_stream (take (5 * j) es)\<rparr>"

text \<open>The group a chunk with timestamp \<open>ts\<close> is added to.\<close>

definition stream_group_for :: "u64 \<Rightarrow> stream_group \<Rightarrow> dashboard \<Rightarrow> stream_group" where
  "stream_group_for ts fresh d =
     (case db_pending_stream d of
        Some g \<Rightarrow> if sg_timestamp_ns g \<noteq> ts then fresh else g | None \<Rightarrow> fresh)"

lemma handle_stream_packed:
  assumes p: "ev_payload ev = chunk_of (stream_header ts te tm dr cc) stream_entry c g @ rest"
    and small: "c < 256" "cc < 256" "length g < 65536"
    and G: "stream_group_for ts (stream_fresh ts te tm dr cc) d = G"
  shows "handle_stream_chunk ev d =
    (if c \<ge> length (sg_received G) \<or> sg_received G ! c then Some (d\<lparr>db_pending_stream := Some G\<rparr>)
     else let g' = G\<lparr>sg_received := (sg_received G)[c := True],
                      sg_entries := sg_entries G @ map shown_stream g\<rparr>
          in if list_all id (sg_received g')
             then Some (render (d\<lparr>db_latest_stream := Some g', db_pending_stream := None\<rparr>))
             else Some (d\<lparr>db_pending_stream := Some g'\<rparr>))"
proof -
  have p': "ev_payload ev = stream_header ts te tm dr cc c (length g) @ (concat (map stream_entry g) @ rest)"
    by (simp add: p chunk_of_def)
  have G': "(case (case db_pending_stream d of Some g \<Rightarrow> if sg_timestamp_ns g \<noteq> ts then None else Some g
        | None \<Rightarrow> None) of Some g \<Rightarrow> g | None \<Rightarrow> stream_fresh ts te tm dr cc) = G"
    using G by (auto simp: stream_group_for_def split: option.splits)
  show ?thesis
    unfolding handle_stream_chunk_def Let_def stream_header_fields [OF p']
      unat_of_nat8 [OF small(1)] unat_of_nat8 [OF small(2)] unat_of_nat16 [OF small(3)]
      read_stream_entries_packed option.case stream_fresh_def [symmetric] G' ..
qed

definition stream_report_event :: "u64 \<Rightarrow> u64 \<Rightarrow> u64 \<Rightarrow> u64 \<Rightarrow> u64 \<Rightarrow> (string \<times> u64) list \<Rightarrow> nat \<Rightarrow> event" where
  "stream_report_event now ts te tm dr es j =
     snd (set_payload (chunk_of (stream_header ts te tm dr (stream_chunk_count (length es))) stream_entry j
       (group_at 5 es j)) (metric_base ''streams_v1'' now))"

definition stream_report_done :: "u64 \<Rightarrow> u64 \<Rightarrow> u64 \<Rightarrow> u64 \<Rightarrow> (string \<times> u64) list \<Rightarrow> dashboard \<Rightarrow> dashboard" where
  "stream_report_done ts te tm dr es d =
     render (d\<lparr>db_latest_stream := Some (stream_partial ts te tm dr es (stream_chunk_count (length es))),
               db_pending_stream := None\<rparr>)"

lemma stream_report_step:
  assumes cc: "stream_chunk_count (length es) < 256" and j: "j < stream_chunk_count (length es)"
    and G: "stream_group_for ts (stream_fresh ts te tm dr (stream_chunk_count (length es))) d =
      stream_partial ts te tm dr es j"
  shows "dashboard_publish (stream_report_event now ts te tm dr es j) d =
    (if Suc j = stream_chunk_count (length es) then Some (stream_report_done ts te tm dr es d)
     else Some (d\<lparr>db_pending_stream := Some (stream_partial ts te tm dr es (Suc j))\<rparr>))"
proof -
  let ?cc = "stream_chunk_count (length es)"
  let ?ch = "chunk_of (stream_header ts te tm dr ?cc) stream_entry j (group_at 5 es j)"
  let ?ev = "snd (set_payload ?ch (metric_base ''streams_v1'' now))"
  have len: "length (group_at 5 es j) \<le> 5" by (rule length_group_at)
  then have "length ?ch \<le> PAYLOAD_MAX" by (simp add: length_stream_chunk PAYLOAD_MAX_def)
  then obtain rest where p: "ev_payload ?ev = ?ch @ rest"
    using packed_set_payload [of ?ch] by (auto simp: packed_def)
  have n: "length (group_at 5 es j) < 65536" using len by simp
  have jc: "j < 256" using j cc by simp
  let ?G = "stream_partial ts te tm dr es j"
  have r: "sg_received ?G = progress ?cc j" "sg_entries ?G = map shown_stream (take (5 * j) es)"
    by (simp_all add: stream_partial_def)
  have next_G: "?G\<lparr>sg_received := progress ?cc (Suc j),
      sg_entries := map shown_stream (take (5 * j) es) @ map shown_stream (group_at 5 es j)\<rparr> =
      stream_partial ts te tm dr es (Suc j)"
    by (simp add: stream_partial_def map_append [symmetric] take_group del: map_append)
  have recv: "sg_received (stream_partial ts te tm dr es (Suc j)) = progress ?cc (Suc j)"
    by (simp add: stream_partial_def)
  from handle_stream_packed [OF p jc cc n G] j
  have "handle_stream_chunk ?ev d = (let g' = stream_partial ts te tm dr es (Suc j) in
      if list_all id (sg_received g')
      then Some (render (d\<lparr>db_latest_stream := Some g', db_pending_stream := None\<rparr>))
      else Some (d\<lparr>db_pending_stream := Some g'\<rparr>))"
    unfolding r by (simp add: progress_next progress_mark next_G)
  then show ?thesis using j progress_done [of "Suc j" ?cc]
    by (simp add: stream_report_event_def publish_stream_chunk recv Let_def stream_report_done_def)
qed

interpretation stream_report: reassembly
  "stream_chunk_count (length es) < 256" dashboard_publish
  "stream_group_for ts (stream_fresh ts te tm dr (stream_chunk_count (length es)))"
  "stream_partial ts te tm dr es" "stream_report_done ts te tm dr es"
  "stream_report_event now ts te tm dr es" "stream_chunk_count (length es)"
  for now ts te tm dr es
proof (unfold_locales, goal_cases)
  case (1 s j)
  then show ?case
    by (simp add: stream_report_step) (simp add: stream_group_for_def stream_partial_def
        stream_fresh_def stream_report_done_def render_def)
next
  case (2 s j)
  then show ?case by (simp add: stream_report_step)
qed

section \<open>Script reports\<close>

definition script_chunk_count :: "nat \<Rightarrow> nat" where
  "script_chunk_count n = ceil_div n 3"

definition script_fresh :: "u64 \<Rightarrow> nat \<Rightarrow> script_group" where
  "script_fresh ts cc = \<lparr>cg_timestamp_ns = ts, cg_chunk_count = of_nat cc,
     cg_received = replicate cc False, cg_entries = []\<rparr>"

definition script_partial :: "u64 \<Rightarrow> (string \<times> script_stats) list \<Rightarrow> nat \<Rightarrow> script_group" where
  "script_partial ts es j =
     (script_fresh ts (script_chunk_count (length es)))
       \<lparr>cg_received := progress (script_chunk_count (length es)) j,
        cg_entries := map shown_script (take (3 * j) es)\<rparr>"

definition script_group_for :: "u64 \<Rightarrow> script_group \<Rightarrow> dashboard \<Rightarrow> script_group" where
  "script_group_for ts fresh d =
     (case db_pending_script d of
        Some g \<Rightarrow> if cg_timestamp_ns g \<noteq> ts then fresh else g | None \<Rightarrow> fresh)"

lemma handle_script_packed:
  assumes p: "ev_payload ev = chunk_of (script_header ts cc) script_entry c g @ rest"
    and small: "c < 256" "cc < 256" "length g < 65536"
    and G: "script_group_for ts (script_fresh ts cc) d = G"
  shows "handle_script_chunk ev d =
    (if c \<ge> length (cg_received G) \<or> cg_received G ! c then Some (d\<lparr>db_pending_script := Some G\<rparr>)
     else let g' = G\<lparr>cg_received := (cg_received G)[c := True],
                      cg_entries := cg_entries G @ map shown_script g\<rparr>
          in if list_all id (cg_received g')
             then Some (render (d\<lparr>db_latest_script := Some g', db_pending_script := None\<rparr>))
             else Some (d\<lparr>db_pending_script := Some g'\<rparr>))"
proof -
  have p': "ev_payload ev = script_header ts cc c (length g) @ (concat (map script_entry g) @ rest)"
    by (simp add: p chunk_of_def)
  have G': "(case (case db_pending_script d of Some g \<Rightarrow> if cg_timestamp_ns g \<noteq> ts then None else Some g
        | None \<Rightarrow> None) of Some g \<Rightarrow> g | None \<Rightarrow> script_fresh ts cc) = G"
    using G by (auto simp: script_group_for_def split: option.splits)
  show ?thesis
    unfolding handle_script_chunk_def Let_def script_header_fields [OF p']
      unat_of_nat8 [OF small(1)] unat_of_nat8 [OF small(2)] unat_of_nat16 [OF small(3)]
      read_script_entries_packed option.case script_fresh_def [symmetric] G' ..
qed

definition script_report_event :: "u64 \<Rightarrow> u64 \<Rightarrow> (string \<times> script_stats) list \<Rightarrow> nat \<Rightarrow> event" where
  "script_report_event now ts es j =
     snd (set_payload (chunk_of (script_header ts (script_chunk_count (length es))) script_entry j
       (group_at 3 es j)) (metric_base ''scripts_v1'' now))"

definition script_report_done :: "u64 \<Rightarrow> (string \<times> script_stats) list \<Rightarrow> dashboard \<Rightarrow> dashboard" where
  "script_report_done ts es d =
     render (d\<lparr>db_latest_script := Some (script_partial ts es (script_chunk_count (length es))),
               db_pending_script := None\<rparr>)"

lemma script_report_step:
  assumes cc: "script_chunk_count (length es) < 256" and j: "j < script_chunk_count (length es)"
    and G: "script_group_for ts (script_fresh ts (script_chunk_count (length es))) d =
      script_partial ts es j"
  shows "dashboard_publish (script_report_event now ts es j) d =
    (if Suc j = script_chunk_count (length es) then Some (script_report_done ts es d)
     else Some (d\<lparr>db_pending_script := Some (script_partial ts es (Suc j))\<rparr>))"
proof -
  let ?cc = "script_chunk_count (length es)"
  let ?ch = "chunk_of (script_header ts ?cc) script_entry j (group_at 3 es j)"
  let ?ev = "snd (set_payload ?ch (metric_base ''scripts_v1'' now))"
  have len: "length (group_at 3 es j) \<le> 3" by (rule length_group_at)
  then have "length ?ch \<le> PAYLOAD_MAX" by (simp add: length_script_chunk PAYLOAD_MAX_def)
  then obtain rest where p: "ev_payload ?ev = ?ch @ rest"
    using packed_set_payload [of ?ch] by (auto simp: packed_def)
  have n: "length (group_at 3 es j) < 65536" using len by simp
  have jc: "j < 256" using j cc by simp
  let ?G = "script_partial ts es j"
  have r: "cg_received ?G = progress ?cc j" "cg_entries ?G = map shown_script (take (3 * j) es)"
    by (simp_all add: script_partial_def)
  have next_G: "?G\<lparr>cg_received := progress ?cc (Suc j),
      cg_entries := map shown_script (take (3 * j) es) @ map shown_script (group_at 3 es j)\<rparr> =
      script_partial ts es (Suc j)"
    by (simp add: script_partial_def map_append [symmetric] take_group del: map_append)
  have recv: "cg_received (script_partial ts es (Suc j)) = progress ?cc (Suc j)"
    by (simp add: script_partial_def)
  from handle_script_packed [OF p jc cc n G] j
  have "handle_script_chunk ?ev d = (let g' = script_partial ts es (Suc j) in
      if list_all id (cg_received g')
      then Some (render (d\<lparr>db_latest_script := Some g', db_pending_script := None\<rparr>))
      else Some (d\<lparr>db_pending_script := Some g'\<rparr>))"
    unfolding r by (simp add: progress_next progress_mark next_G)
  then show ?thesis using j progress_done [of "Suc j" ?cc]
    by (simp add: script_report_event_def publish_script_chunk recv Let_def script_report_done_def)
qed

interpretation script_report: reassembly
  "script_chunk_count (length es) < 256" dashboard_publish
  "script_group_for ts (script_fresh ts (script_chunk_count (length es)))"
  "script_partial ts es" "script_report_done ts es"
  "script_report_event now ts es" "script_chunk_count (length es)"
  for now ts es
proof (unfold_locales, goal_cases)
  case (1 s j)
  then show ?case
    by (simp add: script_report_step) (simp add: script_group_for_def script_partial_def
        script_fresh_def script_report_done_def render_def)
next
  case (2 s j)
  then show ?case by (simp add: script_report_step)
qed

section \<open>Whole reports\<close>

text \<open>The events \<^verbatim>\<open>emit_metrics\<close> hands to the router for the chunks of a report; a
  chunk that takes the \<^verbatim>\<open>BUG\<close> branch is skipped.\<close>

definition report_events :: "string \<Rightarrow> u64 \<Rightarrow> u8 list list \<Rightarrow> event list" where
  "report_events schema now chunks = List.map_filter (metric_event schema now) chunks"

lemma map_filter_all: "(\<And>x. x \<in> set xs \<Longrightarrow> f x = Some (g x)) \<Longrightarrow> List.map_filter f xs = map g xs"
  by (induction xs) simp_all

lemma report_events_fit:
  assumes "\<And>ch. ch \<in> set chunks \<Longrightarrow> length ch \<le> PAYLOAD_MAX"
  shows "report_events schema now chunks = map (\<lambda>ch. snd (set_payload ch (metric_base schema now))) chunks"
  unfolding report_events_def using assms by (intro map_filter_all) (simp add: metric_event_fits)

lemma stream_report_events:
  "report_events ''streams_v1'' now (stream_chunks ts te tm dr es) =
     map (stream_report_event now ts te tm dr es) [0..<stream_chunk_count (length es)]"
proof -
  have "length ch \<le> PAYLOAD_MAX" if "ch \<in> set (stream_chunks ts te tm dr es)" for ch
    using chunk_sizes(1) [OF that] by (simp add: PAYLOAD_MAX_def)
  then have "report_events ''streams_v1'' now (stream_chunks ts te tm dr es) =
      map (\<lambda>ch. snd (set_payload ch (metric_base ''streams_v1'' now))) (stream_chunks ts te tm dr es)"
    by (rule report_events_fit)
  also have "\<dots> = map (stream_report_event now ts te tm dr es) [0..<stream_chunk_count (length es)]"
    by (simp add: stream_chunks_eq stream_report_event_def)
  finally show ?thesis .
qed

lemma script_report_events:
  "report_events ''scripts_v1'' now (script_chunks ts es) =
     map (script_report_event now ts es) [0..<script_chunk_count (length es)]"
proof -
  have "length ch \<le> PAYLOAD_MAX" if "ch \<in> set (script_chunks ts es)" for ch
    using chunk_sizes(2) [OF that] by (simp add: PAYLOAD_MAX_def)
  then have "report_events ''scripts_v1'' now (script_chunks ts es) =
      map (\<lambda>ch. snd (set_payload ch (metric_base ''scripts_v1'' now))) (script_chunks ts es)"
    by (rule report_events_fit)
  also have "\<dots> = map (script_report_event now ts es) [0..<script_chunk_count (length es)]"
    by (simp add: script_chunks_eq script_report_event_def script_chunk_count_def)
  finally show ?thesis .
qed

lemma stream_feed_map:
  "dashboard_feed (map (stream_report_event now ts te tm dr es) js) d =
     stream_report.feed now ts te tm dr es js d"
  by (induction js arbitrary: d) (auto split: option.split)

lemma script_feed_map:
  "dashboard_feed (map (script_report_event now ts es) js) d = script_report.feed now ts es js d"
  by (induction js arbitrary: d) (auto split: option.split)

lemma stream_chunk_count_bounds:
  "0 < stream_chunk_count n" "stream_chunk_count n < 256 \<longleftrightarrow> n \<le> 1275" "n \<le> 5 * stream_chunk_count n"
  by (auto simp: stream_chunk_count_def ceil_div_def)

lemma script_chunk_count_bounds:
  "0 < script_chunk_count n \<longleftrightarrow> 0 < n" "script_chunk_count n < 256 \<longleftrightarrow> n \<le> 765" "n \<le> 3 * script_chunk_count n"
  by (auto simp: script_chunk_count_def ceil_div_def)

text \<open>A dashboard that is not in the middle of a report with the same timestamp.\<close>

definition stream_idle :: "u64 \<Rightarrow> dashboard \<Rightarrow> bool" where
  "stream_idle ts d \<longleftrightarrow> (case db_pending_stream d of Some g \<Rightarrow> sg_timestamp_ns g \<noteq> ts | None \<Rightarrow> True)"

definition script_idle :: "u64 \<Rightarrow> dashboard \<Rightarrow> bool" where
  "script_idle ts d \<longleftrightarrow> (case db_pending_script d of Some g \<Rightarrow> cg_timestamp_ns g \<noteq> ts | None \<Rightarrow> True)"

lemma feed_stream_report:
  assumes "length es \<le> 1275" "stream_idle ts d"
  shows "dashboard_feed (report_events ''streams_v1'' now (stream_chunks ts te tm dr es)) d =
    Some (stream_report_done ts te tm dr es d)"
proof -
  have "stream_group_for ts (stream_fresh ts te tm dr (stream_chunk_count (length es))) d =
      stream_partial ts te tm dr es 0"
    using assms(2) by (auto simp: stream_idle_def stream_group_for_def stream_partial_def
        stream_fresh_def split: option.splits)
  then show ?thesis
    using assms(1) stream_report.feed_all [of es ts te tm dr d now]
    by (simp add: stream_report_events stream_feed_map stream_chunk_count_bounds)
qed

lemma feed_script_report:
  assumes "es \<noteq> []" "length es \<le> 765" "script_idle ts d"
  shows "dashboard_feed (report_events ''scripts_v1'' now (script_chunks ts es)) d =
    Some (script_report_done ts es d)"
proof -
  have "script_group_for ts (script_fresh ts (script_chunk_count (length es))) d = script_partial ts es 0"
    using assms(3) by (auto simp: script_idle_def script_group_for_def script_partial_def
        script_fresh_def split: option.splits)
  then show ?thesis
    using assms(1,2) script_report.feed_all [of es ts d now]
    by (simp add: script_report_events script_feed_map script_chunk_count_bounds)
qed

lemma stream_report_done_shows:
  assumes "stream_report_done ts te tm dr es d = d'"
  shows "db_latest_stream d' = Some \<lparr>sg_timestamp_ns = ts, sg_total_events = te, sg_total_emitted = tm,
      sg_drops = dr, sg_chunk_count = of_nat (stream_chunk_count (length es)),
      sg_received = replicate (stream_chunk_count (length es)) True, sg_entries = map shown_stream es\<rparr>"
    and "db_pending_stream d' = None" and "length (db_screens d') = Suc (length (db_screens d))"
  using assms stream_chunk_count_bounds(3) [of "length es"]
  by (auto simp: stream_report_done_def render_def stream_partial_def stream_fresh_def progress_def)

lemma script_report_done_shows:
  assumes "script_report_done ts es d = d'"
  shows "db_latest_script d' = Some \<lparr>cg_timestamp_ns = ts,
      cg_chunk_count = of_nat (script_chunk_count (length es)),
      cg_received = replicate (script_chunk_count (length es)) True, cg_entries = map shown_script es\<rparr>"
    and "db_pending_script d' = None" and "length (db_screens d') = Suc (length (db_screens d))"
  using assms script_chunk_count_bounds(3) [of "length es"]
  by (auto simp: script_report_done_def render_def script_partial_def script_fresh_def progress_def)

end
