(* ===== verification/Telemetry_Runs.thy ===== *)
theory Telemetry_Runs
  imports Telemetry_Laws Reassembly
begin

text \<open>
  The properties of the telemetry as a whole: counts are conserved over any run of
  recordings and reports, a report reaches the dashboard unchanged, what happens beyond the
  255 chunks a report can have, and what the script statistics mean.
\<close>

section \<open>Runs\<close>

text \<open>The operations the other threads call, and a report (\<^verbatim>\<open>pack_stream_metrics\<close>
  at some time). A run returns the chunks of each report and the final state.\<close>

datatype tel_op = Record string | Emitted string | Dropped | Report u64

fun tel_run :: "tel_op list \<Rightarrow> telemetry \<Rightarrow> u8 list list list \<times> telemetry" where
  "tel_run [] t = ([], t)"
| "tel_run (Record s # ops) t = tel_run ops (record_event s t)"
| "tel_run (Emitted s # ops) t = tel_run ops (record_emitted s t)"
| "tel_run (Dropped # ops) t = tel_run ops (record_drop t)"
| "tel_run (Report ts # ops) t =
     (let (ok, chunks, t') = pack_stream_metrics ts t; (rs, t'') = tel_run ops t'
      in (chunks # rs, t''))"

text \<open>The totals a report carries, read from the header of its first chunk at the given
  offset (8 events, 16 emitted, 24 drops); a report that was not sent carries none.\<close>

definition reported :: "nat \<Rightarrow> u8 list list \<Rightarrow> u64" where
  "reported off chunks = (case chunks of [] \<Rightarrow> 0 | ch # _ \<Rightarrow> read_u64 (drop off ch))"

text \<open>What the run recorded: the engine's own streams are not counted.\<close>

definition recorded_events :: "tel_op list \<Rightarrow> nat" where
  "recorded_events ops =
     length (filter (\<lambda>x. case x of Record s \<Rightarrow> \<not> telemetry_stream s | _ \<Rightarrow> False) ops)"

definition recorded_emitted :: "tel_op list \<Rightarrow> nat" where
  "recorded_emitted ops =
     length (filter (\<lambda>x. case x of Emitted s \<Rightarrow> \<not> telemetry_stream s | _ \<Rightarrow> False) ops)"

definition recorded_drops :: "tel_op list \<Rightarrow> nat" where
  "recorded_drops ops = length (filter (\<lambda>x. x = Dropped) ops)"

lemma recorded_simps [simp]:
  "recorded_events [] = 0" "recorded_emitted [] = 0" "recorded_drops [] = 0"
  "recorded_events (Record s # ops) = (if telemetry_stream s then 0 else 1) + recorded_events ops"
  "recorded_events (Emitted s # ops) = recorded_events ops"
  "recorded_events (Dropped # ops) = recorded_events ops"
  "recorded_events (Report ts # ops) = recorded_events ops"
  "recorded_emitted (Record s # ops) = recorded_emitted ops"
  "recorded_emitted (Emitted s # ops) = (if telemetry_stream s then 0 else 1) + recorded_emitted ops"
  "recorded_emitted (Dropped # ops) = recorded_emitted ops"
  "recorded_emitted (Report ts # ops) = recorded_emitted ops"
  "recorded_drops (Record s # ops) = recorded_drops ops"
  "recorded_drops (Emitted s # ops) = recorded_drops ops"
  "recorded_drops (Dropped # ops) = Suc (recorded_drops ops)"
  "recorded_drops (Report ts # ops) = recorded_drops ops"
  by (simp_all add: recorded_events_def recorded_emitted_def recorded_drops_def)

section \<open>One report\<close>

definition pending_counts :: "telemetry \<Rightarrow> u64 \<times> u64 \<times> u64" where
  "pending_counts t = (total_count (tm_event_counts t), total_count (tm_emitted_counts t), tm_drops t)"

lemma snapshot_empty: "snapshot_counts m = [] \<Longrightarrow> total_count m = 0"
  using total_count_snapshot [of m] by (simp add: total_count_eq)

lemma add_counts_empty: "add_counts c s = [] \<longleftrightarrow> c = [] \<and> s = []"
  using keys_add_counts [of c s] by auto

lemma hd_stream_chunks: "\<exists>rest chs. stream_chunks ts te tm dr es =
    (stream_header ts te tm dr (stream_chunk_count (length es)) 0 (length (group_at 5 es 0)) @ rest) # chs"
  using stream_chunk_count_bounds(1) [of "length es"]
  by (auto simp: stream_chunks_eq upt_conv_Cons chunk_of_def)

lemma pack_reports:
  assumes "pack_stream_metrics ts t = (ok, chunks, t')"
  shows "(reported 8 chunks, reported 16 chunks, reported 24 chunks) = pending_counts t"
    and "pending_counts t' = (0, 0, 0)" and "tm_enabled t' = tm_enabled t"
proof -
  let ?e = "snapshot_counts (tm_event_counts t)" and ?m = "snapshot_counts (tm_emitted_counts t)"
  let ?c = "add_counts (add_counts [] ?e) ?m"
  have t': "t' = t\<lparr>tm_event_counts := zero_counts (tm_event_counts t),
      tm_emitted_counts := zero_counts (tm_emitted_counts t), tm_drops := 0\<rparr>"
    using assms by (auto simp: pack_stream_metrics_def Let_def split: if_splits)
  then show "pending_counts t' = (0, 0, 0)" "tm_enabled t' = tm_enabled t"
    by (simp_all add: pending_counts_def)
  show "(reported 8 chunks, reported 16 chunks, reported 24 chunks) = pending_counts t"
  proof (cases "?c = [] \<and> tm_drops t = 0")
    case True
    then have "chunks = []" using assms by (simp add: pack_stream_metrics_def Let_def)
    with True show ?thesis
      by (simp add: reported_def pending_counts_def add_counts_empty snapshot_empty)
  next
    case False
    then have "chunks = stream_chunks ts (total_count ?e) (total_count ?m) (tm_drops t) ?c"
      using assms by (simp add: pack_stream_metrics_def Let_def split: if_splits)
    with hd_stream_chunks obtain h chs where "chunks = h # chs" and
      h: "\<exists>rest. h = stream_header ts (total_count ?e) (total_count ?m) (tm_drops t)
            (stream_chunk_count (length ?c)) 0 (length (group_at 5 ?c 0)) @ rest"
      by (metis (no_types, lifting))
    moreover obtain rest where "h = stream_header ts (total_count ?e) (total_count ?m) (tm_drops t)
            (stream_chunk_count (length ?c)) 0 (length (group_at 5 ?c 0)) @ rest" using h by blast
    note stream_header_fields(2-4) [OF this]
    ultimately show ?thesis by (simp add: reported_def pending_counts_def total_count_snapshot)
  qed
qed

section \<open>Properties\<close>

text \<open>Conservation of counts. Over any run of recordings and reports of an enabled
  telemetry, the totals in the headers of the reports that were sent plus the counts still
  pending are exactly what was pending before plus what the run recorded (modulo
  \<open>2^64\<close>, where the counters wrap): a report neither loses nor repeats an event, an
  emission or a drop.\<close>

theorem telemetry_conservation:
  assumes "telemetry_ok t" "tm_enabled t" "tel_run ops t = (reports, t')"
  shows "sum_list (map (reported 8) reports) + total_count (tm_event_counts t') =
      total_count (tm_event_counts t) + of_nat (recorded_events ops) \<and>
    sum_list (map (reported 16) reports) + total_count (tm_emitted_counts t') =
      total_count (tm_emitted_counts t) + of_nat (recorded_emitted ops) \<and>
    sum_list (map (reported 24) reports) + tm_drops t' = tm_drops t + of_nat (recorded_drops ops)"
  using assms
proof (induction ops t arbitrary: reports t' rule: tel_run.induct)
  case (1 t)
  then show ?case by simp
next
  case (2 s ops t)
  have ok: "telemetry_ok (record_event s t)" by (rule telemetry_ok_event) (rule 2)
  have en: "tm_enabled (record_event s t)" using 2 by (simp add: record_event_def)
  from 2(4) have run: "tel_run ops (record_event s t) = (reports, t')" by simp
  from 2(1) [OF ok en run] 2(2,3) show ?case
    by (simp add: record_event_def telemetry_ok_def total_count_bump)
next
  case (3 s ops t)
  have ok: "telemetry_ok (record_emitted s t)" by (rule telemetry_ok_emitted) (rule 3)
  have en: "tm_enabled (record_emitted s t)" using 3 by (simp add: record_emitted_def)
  from 3(4) have run: "tel_run ops (record_emitted s t) = (reports, t')" by simp
  from 3(1) [OF ok en run] 3(2,3) show ?case
    by (simp add: record_emitted_def telemetry_ok_def total_count_bump)
next
  case (4 ops t)
  have ok: "telemetry_ok (record_drop t)" by (rule telemetry_ok_drop) (rule 4)
  have en: "tm_enabled (record_drop t)" using 4 by (simp add: record_drop_def)
  from 4(4) have run: "tel_run ops (record_drop t) = (reports, t')" by simp
  from 4(1) [OF ok en run] 4(3) show ?case by (simp add: record_drop_def)
next
  case (5 ts ops t)
  obtain ok chunks t1 where p: "pack_stream_metrics ts t = (ok, chunks, t1)" by (metis prod_cases3)
  obtain rs t2 where r: "tel_run ops t1 = (rs, t2)" by fastforce
  from 5(4) p r have e: "reports = chunks # rs" "t' = t2" by simp_all
  have ok1: "telemetry_ok t1" using telemetry_ok_pack_streams [OF 5(2), of ts] p by simp
  have en1: "tm_enabled t1" using pack_reports(3) [OF p] 5(3) by simp
  from 5(1) [OF p [symmetric] refl refl ok1 en1 r] pack_reports(1,2) [OF p]
  show ?case by (simp add: e pending_counts_def add.assoc)
qed

theorem telemetry_conservation_witness:
  "let t = set_enabled True telemetry_new;
       ops = [Record ''a'', Record ''b'', Dropped, Report 7, Record ''a'', Record ''telemetry'']
   in sum_list (map (reported 8) (fst (tel_run ops t))) + total_count (tm_event_counts (snd (tel_run ops t))) = 3"
proof -
  let ?t = "set_enabled True telemetry_new"
  have t: "telemetry_ok ?t" "tm_enabled ?t"
    by (simp_all add: set_enabled_def telemetry_ok_def telemetry_new_def)
  show ?thesis
    using telemetry_conservation [OF t, of
        "[Record ''a'', Record ''b'', Dropped, Report 7, Record ''a'', Record ''telemetry'']"]
    by (simp add: Let_def telemetry_stream_def set_enabled_def telemetry_new_def total_count_eq
        split: prod.splits)
qed

text \<open>The entries of a stream report: every stream that was counted, once, with its events
  and emissions added up.\<close>

definition report_entries :: "telemetry \<Rightarrow> (string \<times> u64) list" where
  "report_entries t =
     add_counts (add_counts [] (snapshot_counts (tm_event_counts t))) (snapshot_counts (tm_emitted_counts t))"

lemma pack_stream_result:
  "pack_stream_metrics ts t = (True, chunks, t') \<Longrightarrow>
     chunks = stream_chunks ts (total_count (tm_event_counts t)) (total_count (tm_emitted_counts t))
       (tm_drops t) (report_entries t)"
  by (simp add: pack_stream_metrics_def Let_def report_entries_def total_count_snapshot split: if_splits)

lemma report_entries_ok:
  assumes "telemetry_ok t"
  shows "um_ok (report_entries t)"
    and "count_at (report_entries t) s = count_at (tm_event_counts t) s + count_at (tm_emitted_counts t) s"
    and "s \<in> fst ` set (report_entries t) \<longleftrightarrow>
      count_at (tm_event_counts t) s \<noteq> 0 \<or> count_at (tm_emitted_counts t) s \<noteq> 0"
  using assms by (simp_all add: telemetry_ok_def report_entries_def um_ok_add_counts
      count_at_add_counts count_at_snapshot keys_add_counts snapshot_counts_keys)

lemma report_entries_length:
  assumes "telemetry_ok t"
  shows "length (report_entries t) \<le> length (tm_event_counts t) + length (tm_emitted_counts t)"
proof -
  have d: "distinct (map fst (report_entries t))"
    using report_entries_ok(1) [OF assms] by (simp add: um_ok_def)
  have "length (report_entries t) = card (fst ` set (report_entries t))"
    using distinct_card [OF d] by simp
  also have "\<dots> \<le> card (fst ` set (tm_event_counts t) \<union> fst ` set (tm_emitted_counts t))"
    by (rule card_mono) (auto simp: report_entries_def keys_add_counts snapshot_counts_def)
  also have "\<dots> \<le> card (fst ` set (tm_event_counts t)) + card (fst ` set (tm_emitted_counts t))"
    by (rule card_Un_le)
  also have "\<dots> \<le> length (tm_event_counts t) + length (tm_emitted_counts t)"
    by (metis add_mono card_length length_map list.set_map)
  finally show ?thesis .
qed

text \<open>C7. A stream report arrives. The chunks \<^verbatim>\<open>pack_stream_metrics\<close> produces, sent as
  the events of \<^verbatim>\<open>emit_metrics\<close> and published in order to a dashboard that is not in the
  middle of a report with the same timestamp, complete the report: the dashboard renders once,
  shows the totals of the telemetry, and one row per counted stream, whose name is cut to 31
  characters and whose number is the events and the emissions of the stream together. The
  bound is 1275 streams, the 255 chunks of five the one-byte chunk count can express.\<close>

theorem stream_report_arrives:
  assumes "telemetry_ok t" "pack_stream_metrics ts t = (True, chunks, t')"
    and "length (tm_event_counts t) + length (tm_emitted_counts t) \<le> 1275" "stream_idle ts d"
  shows "\<exists>d' g es. dashboard_feed (report_events ''streams_v1'' now chunks) d = Some d' \<and>
    db_latest_stream d' = Some g \<and> db_pending_stream d' = None \<and>
    length (db_screens d') = Suc (length (db_screens d)) \<and>
    sg_timestamp_ns g = ts \<and> sg_total_events g = total_count (tm_event_counts t) \<and>
    sg_total_emitted g = total_count (tm_emitted_counts t) \<and> sg_drops g = tm_drops t \<and>
    sg_entries g = map (\<lambda>(s, n). (take 31 (c_str s), n)) es \<and> distinct (map fst es) \<and>
    (\<forall>s. count_at es s = count_at (tm_event_counts t) s + count_at (tm_emitted_counts t) s)"
proof -
  let ?es = "report_entries t"
  have len: "length ?es \<le> 1275" using report_entries_length [OF assms(1)] assms(3) by simp
  note shows_it = stream_report_done_shows [OF refl, of ts "total_count (tm_event_counts t)"
      "total_count (tm_emitted_counts t)" "tm_drops t" ?es d]
  have "distinct (map fst ?es)" using report_entries_ok(1) [OF assms(1)] by (simp add: um_ok_def)
  with shows_it show ?thesis
    by (simp add: pack_stream_result [OF assms(2)] feed_stream_report [OF len assms(4)]
        shown_stream_def) (use report_entries_ok(2) [OF assms(1)] in blast)
qed

theorem stream_report_arrives_witness:
  "let t = record_drop (record_emitted ''b'' (record_event ''a'' (set_enabled True telemetry_new)))
   in \<exists>d' g. dashboard_feed (report_events ''streams_v1'' 9 (fst (snd (pack_stream_metrics 7 t))))
       (dashboard_new ''t'') = Some d' \<and> db_latest_stream d' = Some g \<and> sg_drops g = 1 \<and>
       sg_timestamp_ns g = 7"
proof -
  define t where "t = record_drop (record_emitted ''b'' (record_event ''a'' (set_enabled True telemetry_new)))"
  have ok: "telemetry_ok t"
    unfolding t_def
    by (rule telemetry_ok_drop telemetry_ok_emitted telemetry_ok_event)+
      (simp add: set_enabled_def telemetry_ok_def telemetry_new_def)
  have v: "tm_drops t = 1" "length (tm_event_counts t) + length (tm_emitted_counts t) \<le> 1275"
    unfolding t_def record_drop_def record_emitted_def record_event_def set_enabled_def
        telemetry_new_def telemetry_stream_def bump_def by simp_all
  have "fst (pack_stream_metrics 7 t)" using v(1) by (simp add: pack_stream_metrics_def Let_def)
  then obtain ch t' where p: "pack_stream_metrics 7 t = (True, ch, t')"
    by (cases "pack_stream_metrics 7 t") auto
  have "stream_idle 7 (dashboard_new ''t'')" by (simp add: stream_idle_def dashboard_new_def)
  from stream_report_arrives [OF ok p v(2) this, of 9] show ?thesis
    unfolding t_def [symmetric] Let_def p fst_conv snd_conv using v(1) by auto
qed

text \<open>A script report arrives: the dashboard shows one row per script that ran since the
  last report, with its invocation count, mean, minimum and maximum latency. The bound is 765
  scripts, 255 chunks of three.\<close>

theorem script_report_arrives:
  assumes "pack_script_metrics clk ts0 t = (True, chunks, t')"
    and "length (tm_script_stats t) \<le> 765" "script_idle (if ts0 = 0 then clk else ts0) d"
  shows "\<exists>d' g. dashboard_feed (report_events ''scripts_v1'' now chunks) d = Some d' \<and>
    db_latest_script d' = Some g \<and> db_pending_script d' = None \<and>
    length (db_screens d') = Suc (length (db_screens d)) \<and>
    cg_timestamp_ns g = (if ts0 = 0 then clk else ts0) \<and>
    cg_entries g = map (\<lambda>(s, st). \<lparr>sr_id = take 31 (c_str s), sr_count = ss_count st,
        sr_avg = ss_total_latency_ns st div ss_count st,
        sr_min = (if ss_min_latency_ns st = UINT64_MAX then 0 else ss_min_latency_ns st),
        sr_max = ss_max_latency_ns st\<rparr>)
      (filter (\<lambda>(s, st). ss_count st > 0) (tm_script_stats t))"
proof -
  let ?ts = "if ts0 = 0 then clk else ts0"
  let ?es = "filter (\<lambda>(s, st). ss_count st > 0) (tm_script_stats t)"
  have ch: "chunks = script_chunks ?ts ?es" and ne: "?es \<noteq> []"
    using assms(1) by (auto simp: pack_script_metrics_def Let_def split: if_splits)
  have len: "length ?es \<le> 765" using assms(2) length_filter_le order_trans by blast
  have rows: "map shown_script ?es = map (\<lambda>(s, st). \<lparr>sr_id = take 31 (c_str s), sr_count = ss_count st,
        sr_avg = ss_total_latency_ns st div ss_count st,
        sr_min = (if ss_min_latency_ns st = UINT64_MAX then 0 else ss_min_latency_ns st),
        sr_max = ss_max_latency_ns st\<rparr>) ?es"
    by (auto simp: shown_script_def script_avg_def)
  note feed_script_report [OF ne len assms(3), of now] script_report_done_shows [OF refl, of ?ts ?es d]
  then show ?thesis unfolding ch rows by simp
qed

theorem script_report_arrives_witness:
  "let t = the (record_script_invocation [False] [False] ''s'' 40
        (register_script_stats ''s'' (set_enabled True telemetry_new)))
   in \<exists>d' g. dashboard_feed (report_events ''scripts_v1'' 9 (fst (snd (pack_script_metrics 3 0 t))))
       (dashboard_new ''t'') = Some d' \<and> db_latest_script d' = Some g \<and>
       map sr_max (cg_entries g) = [40]"
proof -
  define t where "t = the (record_script_invocation [False] [False] ''s'' 40
        (register_script_stats ''s'' (set_enabled True telemetry_new)))"
  have st: "tm_script_stats t = [(''s'', \<lparr>ss_count = 1, ss_total_latency_ns = 40,
      ss_min_latency_ns = 40, ss_max_latency_ns = 40\<rparr>)]"
    by (simp add: t_def record_script_invocation_def register_script_stats_def set_enabled_def
        telemetry_new_def script_stats_init_def)
  then have len: "length (tm_script_stats t) \<le> 765" by simp
  have "fst (pack_script_metrics 3 0 t)" using st by (simp add: pack_script_metrics_def Let_def)
  then obtain ch t' where p: "pack_script_metrics 3 0 t = (True, ch, t')"
    by (cases "pack_script_metrics 3 0 t") auto
  have "script_idle (if (0::u64) = 0 then 3 else 0) (dashboard_new ''t'')"
    by (simp add: script_idle_def dashboard_new_def)
  from script_report_arrives [OF p len this, of 9] show ?thesis
    unfolding t_def [symmetric] Let_def p fst_conv snd_conv st by auto
qed

section \<open>A report too long for its chunk count\<close>

text \<open>A dashboard that can show nothing of a report with this timestamp.\<close>

definition stream_stuck :: "u64 \<Rightarrow> dashboard \<Rightarrow> bool" where
  "stream_stuck ts d \<longleftrightarrow>
     (case db_pending_stream d of Some g \<Rightarrow> sg_timestamp_ns g = ts \<longrightarrow> sg_received g = [] | None \<Rightarrow> True)"

lemma stuck_if_idle: "stream_idle ts d \<Longrightarrow> stream_stuck ts d"
  by (simp add: stream_idle_def stream_stuck_def split: option.splits)

lemma handle_stuck:
  assumes p: "ev_payload ev = stream_header ts te tm dr 256 c n @ rest" and d: "stream_stuck ts d"
  shows "\<exists>g. handle_stream_chunk ev d = Some (d\<lparr>db_pending_stream := Some g\<rparr>) \<and>
    stream_stuck ts (d\<lparr>db_pending_stream := Some g\<rparr>)"
proof -
  have z: "(word_of_nat 256 :: u8) = 0" by simp
  show ?thesis using d
    unfolding handle_stream_chunk_def Let_def stream_header_fields [OF p] stream_stuck_def z
    by (cases "db_pending_stream d") auto
qed

lemma feed_stuck:
  assumes "\<And>ev. ev \<in> set evs \<Longrightarrow> \<exists>c n rest. ev_payload ev = stream_header ts te tm dr 256 c n @ rest \<and>
      dashboard_publish ev = handle_stream_chunk ev" and "stream_stuck ts d"
  shows "\<exists>d'. dashboard_feed evs d = Some d' \<and> db_latest_stream d' = db_latest_stream d \<and>
    db_screens d' = db_screens d"
  using assms
proof (induction evs arbitrary: d)
  case Nil
  then show ?case by simp
next
  case (Cons ev evs)
  from Cons.prems(1) [of ev] obtain c n rest where
    ev: "ev_payload ev = stream_header ts te tm dr 256 c n @ rest" "dashboard_publish ev = handle_stream_chunk ev"
    by auto
  from handle_stuck [OF ev(1) Cons.prems(2)] obtain g where
    g: "handle_stream_chunk ev d = Some (d\<lparr>db_pending_stream := Some g\<rparr>)"
      "stream_stuck ts (d\<lparr>db_pending_stream := Some g\<rparr>)" by blast
  from Cons.IH [OF Cons.prems(1) g(2)] show ?case by (simp add: ev(2) g(1))
qed

text \<open>Beyond 255 chunks a stream report is lost. The chunk count is one byte, so a report
  of 1276 to 1280 streams (256 chunks) announces zero chunks: the dashboard accepts every
  event, but discards each chunk and neither renders nor replaces the report it shows.\<close>

theorem stream_report_overflow:
  assumes "1276 \<le> length es" "length es \<le> 1280" "stream_idle ts d"
  shows "\<exists>d'. dashboard_feed (report_events ''streams_v1'' now (stream_chunks ts te tm dr es)) d = Some d' \<and>
    db_latest_stream d' = db_latest_stream d \<and> db_screens d' = db_screens d"
proof -
  have cc: "stream_chunk_count (length es) = 256"
    using assms(1,2) by (auto simp: stream_chunk_count_def ceil_div_def)
  show ?thesis unfolding stream_report_events
  proof (rule feed_stuck [OF _ stuck_if_idle [OF assms(3)]])
    fix ev assume "ev \<in> set (map (stream_report_event now ts te tm dr es) [0..<stream_chunk_count (length es)])"
    then obtain j where ev: "ev = stream_report_event now ts te tm dr es j" by auto
    let ?ch = "chunk_of (stream_header ts te tm dr 256) stream_entry j (group_at 5 es j)"
    have "length ?ch \<le> PAYLOAD_MAX"
      using length_group_at [of 5 es j] by (simp add: length_stream_chunk PAYLOAD_MAX_def)
    from packed_set_payload [OF this, of "metric_base ''streams_v1'' now"]
    show "\<exists>c n rest. ev_payload ev = stream_header ts te tm dr 256 c n @ rest \<and>
      dashboard_publish ev = handle_stream_chunk ev"
      by (auto simp: ev stream_report_event_def cc packed_def chunk_of_def publish_stream_chunk)
  qed
qed

theorem stream_report_overflow_witness:
  "\<exists>d'. dashboard_feed (report_events ''streams_v1'' 9 (stream_chunks 7 0 0 0 (replicate 1276 (''s'', 1))))
     (dashboard_new ''t'') = Some d' \<and> db_latest_stream d' = None"
  using stream_report_overflow [of "replicate 1276 (''s'', 1)" 7 "dashboard_new ''t''" 9 0 0 0]
  by (auto simp: stream_idle_def dashboard_new_def)

section \<open>Script statistics\<close>

text \<open>A run of invocations of one script; each brings the spurious failures its two loops met.\<close>

fun invocations :: "string \<Rightarrow> (bool list \<times> bool list \<times> u64) list \<Rightarrow> telemetry \<Rightarrow> telemetry option" where
  "invocations s [] t = Some t"
| "invocations s ((f, g, d) # is) t =
     (case record_script_invocation f g s d t of None \<Rightarrow> None | Some t' \<Rightarrow> invocations s is t')"

definition stats_after :: "u64 list \<Rightarrow> script_stats \<Rightarrow> script_stats" where
  "stats_after ds st = \<lparr>ss_count = ss_count st + of_nat (length ds),
     ss_total_latency_ns = ss_total_latency_ns st + sum_list ds,
     ss_min_latency_ns = fold min ds (ss_min_latency_ns st),
     ss_max_latency_ns = fold max ds (ss_max_latency_ns st)\<rparr>"

lemma invocation_step:
  assumes "tm_enabled t" "map_of (tm_script_stats t) s = Some st" "False \<in> set f" "False \<in> set g"
  shows "record_script_invocation f g s d t =
    Some (t\<lparr>tm_script_stats := AList.update s (stats_after [d] st) (tm_script_stats t)\<rparr>)"
  using assms by (auto simp: record_script_invocation_def cas_loop_result stats_after_def min_def max_def)

lemma stats_after_Cons: "stats_after ds (stats_after [d] st) = stats_after (d # ds) st"
  by (simp add: stats_after_def add.assoc min.commute max.commute)

text \<open>What the script statistics mean. After any run of invocations of a registered
  script, whose compare-and-exchange loops each have one attempt that does not fail
  spuriously, the entry holds the number of invocations, the sum of their latencies, and the
  least and the greatest of them against what was there (counts and sums modulo \<open>2^64\<close>);
  every run with such loops returns.\<close>

theorem script_stats_meaning:
  assumes "tm_enabled t" "map_of (tm_script_stats t) s = Some st"
    and "\<forall>(f, g, d) \<in> set is. False \<in> set f \<and> False \<in> set g"
  shows "\<exists>t'. invocations s is t = Some t' \<and>
    map_of (tm_script_stats t') s = Some \<lparr>ss_count = ss_count st + of_nat (length is),
      ss_total_latency_ns = ss_total_latency_ns st + sum_list (map (\<lambda>(f, g, d). d) is),
      ss_min_latency_ns = fold min (map (\<lambda>(f, g, d). d) is) (ss_min_latency_ns st),
      ss_max_latency_ns = fold max (map (\<lambda>(f, g, d). d) is) (ss_max_latency_ns st)\<rparr>"
proof -
  have "\<exists>t'. invocations s is t = Some t' \<and>
      map_of (tm_script_stats t') s = Some (stats_after (map (\<lambda>(f, g, d). d) is) st)"
    using assms
  proof (induction s "is" t arbitrary: st rule: invocations.induct)
    case (1 s t)
    then show ?case by (simp add: stats_after_def)
  next
    case (2 s f g d "is" t)
    let ?t = "t\<lparr>tm_script_stats := AList.update s (stats_after [d] st) (tm_script_stats t)\<rparr>"
    have step: "record_script_invocation f g s d t = Some ?t"
      by (rule invocation_step) (use 2(2-) in auto)
    have "map_of (tm_script_stats ?t) s = Some (stats_after [d] st)" by (simp add: umap_simps)
    from 2(1) [OF step _ this] 2(2,4) show ?case
      by (simp add: step stats_after_Cons)
  qed
  then show ?thesis by (simp add: stats_after_def)
qed

theorem script_stats_meaning_witness:
  "\<exists>t'. invocations ''s'' [([False], [False], 40), ([True, False], [False], 10), ([False], [False], 25)]
     (register_script_stats ''s'' (set_enabled True telemetry_new)) = Some t' \<and>
     map_of (tm_script_stats t') ''s'' = Some \<lparr>ss_count = 3, ss_total_latency_ns = 75,
       ss_min_latency_ns = 10, ss_max_latency_ns = 40\<rparr>"
  using script_stats_meaning [of "register_script_stats ''s'' (set_enabled True telemetry_new)" "''s''"
      script_stats_init "[([False], [False], 40), ([True, False], [False], 10), ([False], [False], 25)]"]
  by (simp add: register_script_stats_def set_enabled_def telemetry_new_def script_stats_init_def min_def max_def)

end
