(* ===== verification/Publisher.thy ===== *)
theory Publisher
  imports Telemetry_Laws
begin

text \<open>
  \<^verbatim>\<open>publisher/publisher.hpp\<close>: the table of named endpoints. \<^verbatim>\<open>IEndpoint\<close> is an
  interface with two virtual methods, so the operations take the two functions as arguments;
  the locale \<open>endpoints\<close> states what the publisher relies on, and \<open>Endpoints\<close>
  interprets it with the endpoint classes of the code. A publish that is \<open>None\<close> is one
  whose behaviour is undefined.
\<close>

section \<open>State and operations\<close>

record 'ep publisher =
  pb_endpoints :: "'ep umap"
  pb_telemetry :: bool

definition publisher_new :: "'ep publisher" where
  "publisher_new = \<lparr>pb_endpoints = [], pb_telemetry = False\<rparr>"

definition publisher_set_telemetry :: "bool \<Rightarrow> 'ep publisher \<Rightarrow> 'ep publisher" where
  "publisher_set_telemetry present p = p\<lparr>pb_telemetry := present\<rparr>"

definition add_endpoint :: "('ep \<Rightarrow> string) \<Rightarrow> 'ep \<Rightarrow> 'ep publisher \<Rightarrow> 'ep publisher" where
  "add_endpoint name ep p = p\<lparr>pb_endpoints := AList.update (name ep) ep (pb_endpoints p)\<rparr>"

definition has_endpoint :: "string \<Rightarrow> 'ep publisher \<Rightarrow> bool" where
  "has_endpoint eid p \<longleftrightarrow> map_of (pb_endpoints p) eid \<noteq> None"

text \<open>\<^verbatim>\<open>record_emitted\<close> is given the stream id of the event, read as a C string.\<close>

definition emitted_one :: "event \<Rightarrow> 'ep publisher \<Rightarrow> telemetry \<Rightarrow> telemetry option" where
  "emitted_one ev p tel =
     (if pb_telemetry p then map_option (\<lambda>sid. record_emitted sid tel) (stream_of ev) else Some tel)"

definition publish_to ::
  "(event \<Rightarrow> 'ep \<Rightarrow> 'ep option) \<Rightarrow> event \<Rightarrow> string \<Rightarrow> 'ep publisher \<Rightarrow> telemetry \<Rightarrow> ('ep publisher \<times> telemetry) option" where
  "publish_to pub ev eid p tel =
     (case map_of (pb_endpoints p) eid of
        None \<Rightarrow> Some (p, tel)
      | Some ep \<Rightarrow>
          (case pub ev ep of
             None \<Rightarrow> None
           | Some ep' \<Rightarrow>
               (case emitted_one ev p tel of
                  None \<Rightarrow> None
                | Some tel' \<Rightarrow> Some (p\<lparr>pb_endpoints := AList.update eid ep' (pb_endpoints p)\<rparr>, tel'))))"

fun publish_each :: "(event \<Rightarrow> 'ep \<Rightarrow> 'ep option) \<Rightarrow> event \<Rightarrow> 'ep umap \<Rightarrow> 'ep umap option" where
  "publish_each pub ev [] = Some []"
| "publish_each pub ev ((k, ep) # eps) =
     (case pub ev ep of
        None \<Rightarrow> None
      | Some ep' \<Rightarrow> map_option (Cons (k, ep')) (publish_each pub ev eps))"

definition broadcast ::
  "(event \<Rightarrow> 'ep \<Rightarrow> 'ep option) \<Rightarrow> event \<Rightarrow> 'ep publisher \<Rightarrow> telemetry \<Rightarrow> ('ep publisher \<times> telemetry) option" where
  "broadcast pub ev p tel =
     (case publish_each pub ev (pb_endpoints p) of
        None \<Rightarrow> None
      | Some eps \<Rightarrow> map_option (\<lambda>tel'. (p\<lparr>pb_endpoints := eps\<rparr>, tel')) (emitted_one ev p tel))"

section \<open>The contract of the endpoints\<close>

text \<open>A publish that returns keeps the name of the endpoint.\<close>

locale endpoints =
  fixes name :: "'ep \<Rightarrow> string" and pub :: "event \<Rightarrow> 'ep \<Rightarrow> 'ep option"
  assumes name_pub: "pub ev ep = Some ep' \<Longrightarrow> name ep' = name ep"
begin

text \<open>The table maps every endpoint's own name to it.\<close>

definition table_ok :: "'ep publisher \<Rightarrow> bool" where
  "table_ok p \<longleftrightarrow> um_ok (pb_endpoints p) \<and> (\<forall>k ep. (k, ep) \<in> set (pb_endpoints p) \<longrightarrow> name ep = k)"

lemma table_ok_lookup: "table_ok p \<Longrightarrow> map_of (pb_endpoints p) eid = Some ep \<Longrightarrow> name ep = eid"
  by (auto simp: table_ok_def dest: map_of_SomeD)

lemma table_ok_new: "table_ok publisher_new"
  by (simp add: table_ok_def publisher_new_def)

lemma set_update: "(k, ep) \<in> set (AList.update k' ep' eps) \<Longrightarrow> (k, ep) = (k', ep') \<or> (k, ep) \<in> set eps"
  by (induction eps) (auto split: if_splits)

lemma table_ok_update: "table_ok p \<Longrightarrow> name ep = eid \<Longrightarrow>
    table_ok (p\<lparr>pb_endpoints := AList.update eid ep (pb_endpoints p)\<rparr>)"
  by (auto simp: table_ok_def dest!: set_update)

lemma table_ok_add: "table_ok p \<Longrightarrow> table_ok (add_endpoint name ep p)"
  by (simp add: add_endpoint_def table_ok_update)

lemma table_ok_publish_to:
  assumes "table_ok p" "publish_to pub ev eid p tel = Some (p', tel')"
  shows "table_ok p'"
proof (cases "map_of (pb_endpoints p) eid")
  case None
  with assms show ?thesis by (simp add: publish_to_def)
next
  case (Some ep)
  with assms obtain ep' where ep': "pub ev ep = Some ep'"
    and p': "p' = p\<lparr>pb_endpoints := AList.update eid ep' (pb_endpoints p)\<rparr>"
    by (auto simp: publish_to_def split: option.splits)
  have "name ep' = eid" using name_pub [OF ep'] table_ok_lookup [OF assms(1) Some] by simp
  then show ?thesis using assms(1) by (simp add: p' table_ok_update)
qed

lemma publish_each_keys: "publish_each pub ev eps = Some eps' \<Longrightarrow> map fst eps' = map fst eps"
  by (induction eps arbitrary: eps') (auto split: option.splits)

lemma publish_each_names:
  assumes "publish_each pub ev eps = Some eps'" "\<And>k ep. (k, ep) \<in> set eps \<Longrightarrow> name ep = k" "(k, ep) \<in> set eps'"
  shows "name ep = k"
  using assms
proof (induction eps arbitrary: eps')
  case (Cons e eps)
  then show ?case by (cases e) (auto split: option.splits simp: name_pub)
qed simp

lemma table_ok_broadcast:
  assumes "table_ok p" "broadcast pub ev p tel = Some (p', tel')"
  shows "table_ok p'"
proof -
  from assms(2) obtain eps where eps: "publish_each pub ev (pb_endpoints p) = Some eps"
    and p': "p' = p\<lparr>pb_endpoints := eps\<rparr>" by (auto simp: broadcast_def split: option.splits)
  have "um_ok eps" using assms(1) by (simp add: table_ok_def um_ok_def publish_each_keys [OF eps])
  moreover have "name ep = k" if "(k, ep) \<in> set eps" for k ep
    by (rule publish_each_names [OF eps _ that]) (use assms(1) in \<open>simp add: table_ok_def\<close>)
  ultimately show ?thesis by (simp add: table_ok_def p')
qed

end

section \<open>What a publish changes\<close>

lemma publish_to_other:
  "publish_to pub ev eid p tel = Some (p', tel') \<Longrightarrow> x \<noteq> eid \<Longrightarrow>
     map_of (pb_endpoints p') x = map_of (pb_endpoints p) x"
  by (auto simp: publish_to_def umap_simps split: option.splits)

lemma has_endpoint_publish_to [simp]:
  "publish_to pub ev eid p tel = Some (p', tel') \<Longrightarrow> has_endpoint x p' = has_endpoint x p"
  by (auto simp: publish_to_def has_endpoint_def umap_simps split: option.splits if_splits)

lemma has_endpoint_add: "has_endpoint x (add_endpoint name ep p) \<longleftrightarrow> x = name ep \<or> has_endpoint x p"
  by (simp add: has_endpoint_def add_endpoint_def umap_simps)

end
