(* ===== verification/Ring_Buffer.thy ===== *)
theory Ring_Buffer
  imports Prelude
begin

text \<open>
  \<^verbatim>\<open>core/ring_buffer.hpp\<close>: the power-of-two ring and the window descriptor over it,
  as one thread after the other sees them (the interleaving of a writer's atomic steps with
  other threads is in \<open>Ring_Interleaving\<close>). Sequence numbers and capacities are 64-bit
  words, as in the code. The abstraction of a ring is the list of everything written so far,
  its history; \<open>ring_log\<close> says which part of the history the slots still hold. The
  locale \<open>seq_log\<close> is the contract the window registry and the script queues rely on.
\<close>

section \<open>The ring\<close>

record 'a ring =
  rb_capacity :: u64
  rb_mask :: u64
  rb_slots :: "'a list"
  rb_write_seq :: u64

text \<open>The constructor: \<open>None\<close> is the failed assertion; \<open>dflt\<close> is the value-initialised
  element of \<^verbatim>\<open>slots_(capacity)\<close>.\<close>

definition ring_new :: "'a \<Rightarrow> u64 \<Rightarrow> 'a ring option" where
  "ring_new dflt capacity =
     (let m = capacity - 1 in
      if capacity AND m = 0
      then Some \<lparr>rb_capacity = capacity, rb_mask = m,
                 rb_slots = replicate (unat capacity) dflt, rb_write_seq = 0\<rparr>
      else None)"

definition ring_write :: "'a ring \<Rightarrow> 'a \<Rightarrow> u64 \<times> 'a ring" where
  "ring_write r item =
     (let seq = rb_write_seq r in
      (seq, r\<lparr>rb_slots := (rb_slots r)[unat (seq AND rb_mask r) := item],
              rb_write_seq := seq + 1\<rparr>))"

definition ring_read :: "'a ring \<Rightarrow> u64 \<Rightarrow> 'a option" where
  "ring_read r seq =
     (let head = rb_write_seq r in
      if seq \<ge> head then None else Some (rb_slots r ! unat (seq AND rb_mask r)))"

definition ring_head :: "'a ring \<Rightarrow> u64" where
  "ring_head r = rb_write_seq r"

definition reader_lag :: "'a ring \<Rightarrow> u64 \<Rightarrow> u64" where
  "reader_lag r reader_seq =
     (let h = ring_head r in if h > reader_seq then h - reader_seq else 0)"

definition ring_capacity :: "'a ring \<Rightarrow> u64" where
  "ring_capacity r = rb_capacity r"

section \<open>The window descriptor\<close>

text \<open>The pointer \<^verbatim>\<open>ring\<close> names the stream whose ring it points to; the ring
  itself is looked up when the view is read, because it may have moved on since.\<close>

record ring_view =
  rv_ring :: "string option"
  rv_begin_seq :: u64
  rv_end_seq :: u64

definition ring_view_default :: ring_view where
  "ring_view_default = \<lparr>rv_ring = None, rv_begin_seq = 0, rv_end_seq = 0\<rparr>"

definition view_size :: "ring_view \<Rightarrow> u64" where
  "view_size v = (if rv_end_seq v > rv_begin_seq v then rv_end_seq v - rv_begin_seq v else 0)"

definition view_empty :: "ring_view \<Rightarrow> bool" where
  "view_empty v \<longleftrightarrow> view_size v = 0"

definition view_at :: "'a ring \<Rightarrow> ring_view \<Rightarrow> u64 \<Rightarrow> 'a option" where
  "view_at r v i =
     (let seq = rv_end_seq v - 1 - i in
      if seq < rv_begin_seq v then None else ring_read r seq)"

section \<open>The loop that copies a window\<close>

text \<open>\<^verbatim>\<open>for (seq = begin; seq < end; ++seq) if (auto e = read(seq)) out.push_back(*e);\<close>
  the registry's snapshot and the WASM marshaller both run it.\<close>

function collect :: "(u64 \<Rightarrow> 'a option) \<Rightarrow> u64 \<Rightarrow> u64 \<Rightarrow> 'a list" where
  "collect rd seq e =
     (if seq < e
      then (case rd seq of None \<Rightarrow> collect rd (seq + 1) e | Some x \<Rightarrow> x # collect rd (seq + 1) e)
      else [])"
  by pat_completeness auto
termination
  by (relation "measure (\<lambda>(rd, seq, e). unat e - unat seq)")
    (auto simp: unat_Suc_less word_less_nat_alt)

declare collect.simps [simp del]

lemma collect_reads:
  assumes "\<And>i. unat b \<le> i \<Longrightarrow> i < unat e \<Longrightarrow> rd (of_nat i) = Some (f i)"
  shows "collect rd b e = map f [unat b..<unat e]"
  using assms
proof (induction rd b e rule: collect.induct)
  case (1 rd b e)
  show ?case
  proof (cases "b < e")
    case True
    then have s: "unat (b + 1) = Suc (unat b)" and lt: "unat b < unat e"
      by (simp_all add: unat_Suc_less word_less_nat_alt)
    have "rd b = Some (f (unat b))" using "1.prems" [of "unat b"] lt by simp
    moreover from this have "collect rd (b + 1) e = map f [unat (b + 1)..<unat e]"
      using "1.IH" (2) [OF True] "1.prems" s by simp
    ultimately show ?thesis using True lt s
      by (simp add: collect.simps [of rd b e] upt_conv_Cons)
  next
    case False
    then show ?thesis by (simp add: collect.simps [of rd b e] word_less_nat_alt)
  qed
qed

section \<open>Well-formed rings and their history\<close>

definition ring_cap :: "'a ring \<Rightarrow> nat" where
  "ring_cap r = unat (rb_capacity r)"

definition ring_ok :: "'a ring \<Rightarrow> bool" where
  "ring_ok r \<longleftrightarrow> (\<exists>k < 64. rb_capacity r = 2 ^ k \<and> rb_mask r = 2 ^ k - 1 \<and>
     length (rb_slots r) = 2 ^ k)"

definition ring_log :: "'a ring \<Rightarrow> 'a list \<Rightarrow> bool" where
  "ring_log r h \<longleftrightarrow> ring_ok r \<and> length h < 2 ^ 64 \<and> unat (rb_write_seq r) = length h \<and>
     (\<forall>i < length h. length h \<le> i + ring_cap r \<longrightarrow> rb_slots r ! (i mod ring_cap r) = h ! i)"

text \<open>The newest position of the history that shares the slot of position \<open>i\<close>.\<close>

definition newest_at :: "nat \<Rightarrow> nat \<Rightarrow> nat \<Rightarrow> nat" where
  "newest_at n cap i = n - 1 - (n - 1 - i) mod cap"

lemma ring_ok_facts:
  assumes "ring_ok r"
  shows "0 < ring_cap r" "length (rb_slots r) = ring_cap r"
    "unat (s AND rb_mask r) = unat s mod ring_cap r" "ring_cap r < 2 ^ 64"
proof -
  from assms obtain k where k: "k < 64" "rb_capacity r = 2 ^ k" "rb_mask r = 2 ^ k - 1"
    "length (rb_slots r) = 2 ^ k" by (auto simp: ring_ok_def)
  then have c: "ring_cap r = 2 ^ k" by (simp add: ring_cap_def unat_pow2)
  have m: "rb_mask r = mask k" using k(3) by (simp add: mask_eq_exp_minus_1)
  show "0 < ring_cap r" "length (rb_slots r) = ring_cap r" using c k by simp_all
  show "unat (s AND rb_mask r) = unat s mod ring_cap r" unfolding m c by (rule unat_and_mask)
  show "ring_cap r < 2 ^ 64" using unsigned_less [of "rb_capacity r"] by (simp add: ring_cap_def)
qed

lemma newest_at_le: "i < n \<Longrightarrow> newest_at n cap i < n"
  by (simp add: newest_at_def)

lemma newest_at_slot: "newest_at n cap i mod cap = i mod cap" if "i < n"
proof -
  obtain q d where q: "(n - 1 - i) div cap = q" and d: "(n - 1 - i) mod cap = d" by blast
  have "n - 1 - i = cap * q + d" unfolding q [symmetric] d [symmetric] by simp
  moreover have "newest_at n cap i = n - 1 - d" by (simp only: newest_at_def d)
  ultimately have "newest_at n cap i = i + cap * q" using that by linarith
  then show ?thesis by simp
qed

lemma newest_at_live: "0 < cap \<Longrightarrow> i < n \<Longrightarrow> n \<le> newest_at n cap i + cap"
  unfolding newest_at_def using mod_less_divisor [of cap "n - 1 - i"] by linarith

lemma newest_at_id: "newest_at n cap i = i" if "i < n" "n \<le> i + cap"
  using that by (simp add: newest_at_def)

text \<open>The constructor's assertion accepts exactly the powers of two and zero.\<close>

lemma ring_new_iff: "(\<exists>r. ring_new d c = Some r) \<longleftrightarrow> c = 0 \<or> (\<exists>k < 64. c = 2 ^ k)"
proof
  assume "\<exists>r. ring_new d c = Some r"
  then have "c AND (c - 1) = 0" by (auto simp: ring_new_def Let_def split: if_splits)
  then show "c = 0 \<or> (\<exists>k < 64. c = 2 ^ k)" using and_pred_eq_0_word [of c] by auto
next
  assume "c = 0 \<or> (\<exists>k < 64. c = 2 ^ k)"
  then have "c AND (c - 1) = 0" by (auto simp: pow2_and_pred)
  then show "\<exists>r. ring_new d c = Some r" by (simp add: ring_new_def)
qed

lemma ring_new_log:
  assumes "ring_new d c = Some r" "c \<noteq> 0"
  shows "ring_log r []" "ring_cap r = unat c"
proof -
  from assms(1) have e: "c AND (c - 1) = 0" and r: "r = \<lparr>rb_capacity = c, rb_mask = c - 1,
      rb_slots = replicate (unat c) d, rb_write_seq = 0\<rparr>"
    by (auto simp: ring_new_def Let_def split: if_splits)
  from and_pred_eq_0_word [OF e assms(2)] obtain k where "k < 64" "c = 2 ^ k" by auto
  then show "ring_log r []" by (auto simp: ring_log_def ring_ok_def r unat_pow2)
  show "ring_cap r = unat c" by (simp add: r ring_cap_def)
qed

lemma ring_write_ok: "ring_ok r \<Longrightarrow> ring_ok (snd (ring_write r x))"
  by (auto simp: ring_ok_def ring_write_def Let_def)

lemma ring_write_cap [simp]: "ring_cap (snd (ring_write r x)) = ring_cap r"
  by (simp add: ring_cap_def ring_write_def Let_def)

lemma ring_write_log:
  assumes log: "ring_log r h" and room: "Suc (length h) < 2 ^ 64"
  shows "ring_log (snd (ring_write r x)) (h @ [x])" "unat (fst (ring_write r x)) = length h"
proof -
  let ?r = "snd (ring_write r x)" and ?c = "ring_cap r"
  have ok: "ring_ok r" and w: "unat (rb_write_seq r) = length h" and
    live: "\<And>i. i < length h \<Longrightarrow> length h \<le> i + ?c \<Longrightarrow> rb_slots r ! (i mod ?c) = h ! i"
    using log by (auto simp: ring_log_def)
  note f = ring_ok_facts [OF ok]
  have slots: "rb_slots ?r = (rb_slots r)[length h mod ?c := x]"
    by (simp add: ring_write_def Let_def f(3) w)
  have seq: "unat (rb_write_seq ?r) = Suc (length h)"
    using room by (simp add: ring_write_def Let_def unat_Suc_bound w)
  have "rb_slots ?r ! (i mod ?c) = (h @ [x]) ! i"
    if i: "i < Suc (length h)" "Suc (length h) \<le> i + ?c" for i
  proof (cases "i = length h")
    case True
    then show ?thesis by (simp add: slots f)
  next
    case False
    with i have "i < length h" "length h \<le> i + ?c" "length h - i < ?c" "0 < length h - i" by auto
    moreover from this have "i mod ?c \<noteq> length h mod ?c"
      by (metis mod_eq_dvd_iff_nat nat_dvd_not_less nat_less_le)
    ultimately show ?thesis using live [of i] by (simp add: slots nth_append)
  qed
  then show "ring_log ?r (h @ [x])"
    using ok room seq by (simp add: ring_log_def ring_write_ok)
  show "unat (fst (ring_write r x)) = length h"
    by (simp add: ring_write_def Let_def w)
qed

lemma ring_head_log: "ring_log r h \<Longrightarrow> unat (ring_head r) = length h"
  by (simp add: ring_log_def ring_head_def)

text \<open>A read never fails below the head, and returns the newest event written to the slot.\<close>

lemma ring_read_log:
  assumes "ring_log r h"
  shows "ring_read r s =
    (if unat s < length h then Some (h ! newest_at (length h) (ring_cap r) (unat s)) else None)"
proof -
  have ok: "ring_ok r" and w: "unat (rb_write_seq r) = length h" and
    live: "\<And>i. i < length h \<Longrightarrow> length h \<le> i + ring_cap r \<Longrightarrow> rb_slots r ! (i mod ring_cap r) = h ! i"
    using assms by (auto simp: ring_log_def)
  note f = ring_ok_facts [OF ok]
  show ?thesis
  proof (cases "unat s < length h")
    case True
    let ?j = "newest_at (length h) (ring_cap r) (unat s)"
    have "rb_slots r ! (?j mod ring_cap r) = h ! ?j"
      using True f(1) by (intro live newest_at_le newest_at_live)
    with True show ?thesis
      by (simp add: ring_read_def Let_def word_le_nat_alt w f(3) newest_at_slot)
  next
    case False
    then show ?thesis by (simp add: ring_read_def Let_def word_le_nat_alt w)
  qed
qed

section \<open>The contract of a sequence log\<close>

text \<open>
  What the clients of a ring rely on: the log grows by one at each write, the position of a
  write is the length of the log before it, and a position that fewer than \<open>cap\<close> writes
  have followed reads back what was written there.
\<close>

locale seq_log =
  fixes log :: "'r \<Rightarrow> 'a list \<Rightarrow> bool" and cap :: "'r \<Rightarrow> nat"
    and put :: "'r \<Rightarrow> 'a \<Rightarrow> u64 \<times> 'r" and get :: "'r \<Rightarrow> u64 \<Rightarrow> 'a option" and top :: "'r \<Rightarrow> u64"
  assumes log_short: "log r h \<Longrightarrow> length h < 2 ^ 64"
    and cap_pos: "log r h \<Longrightarrow> 0 < cap r"
    and head_log: "log r h \<Longrightarrow> unat (top r) = length h"
    and write_log: "log r h \<Longrightarrow> Suc (length h) < 2 ^ 64 \<Longrightarrow> log (snd (put r x)) (h @ [x])"
    and write_seq: "log r h \<Longrightarrow> Suc (length h) < 2 ^ 64 \<Longrightarrow> unat (fst (put r x)) = length h"
    and write_cap: "cap (snd (put r x)) = cap r"
    and read_log: "log r h \<Longrightarrow> get r s =
      (if unat s < length h then Some (h ! newest_at (length h) (cap r) (unat s)) else None)"
begin

lemma read_live:
  "log r h \<Longrightarrow> unat s < length h \<Longrightarrow> length h \<le> unat s + cap r \<Longrightarrow> get r s = Some (h ! unat s)"
  by (simp add: read_log newest_at_id)

lemma read_unwritten: "log r h \<Longrightarrow> length h \<le> unat s \<Longrightarrow> get r s = None"
  by (simp add: read_log)

lemma read_iff: "log r h \<Longrightarrow> (\<exists>x. get r s = Some x) \<longleftrightarrow> s < top r"
  by (simp add: read_log head_log word_less_nat_alt)

lemma unat_position: "log r h \<Longrightarrow> i < length h \<Longrightarrow> unat (of_nat i :: u64) = i"
  using log_short [of r h] by (simp add: unat_of_nat)

text \<open>Any window can be copied, also one the writer has lapped: every position yields the
  newest event of its slot.\<close>

lemma collect_log:
  assumes "log r h" "unat e \<le> length h"
  shows "collect (get r) b e = map (\<lambda>i. h ! newest_at (length h) (cap r) i) [unat b..<unat e]"
proof (rule collect_reads)
  fix i
  assume "unat b \<le> i" "i < unat e"
  with assms(2) have "i < length h" by simp
  then show "get r (of_nat i) = Some (h ! newest_at (length h) (cap r) i)"
    using assms(1) by (simp add: read_log unat_position)
qed

lemma collect_live:
  assumes "log r h" "unat e \<le> length h" "length h \<le> unat b + cap r"
  shows "collect (get r) b e = map (\<lambda>i. h ! i) [unat b..<unat e]"
  unfolding collect_log [OF assms(1,2)]
  using assms(2,3) by (auto simp: newest_at_id)

lemma length_collect: "log r h \<Longrightarrow> unat e \<le> length h \<Longrightarrow> length (collect (get r) b e) = unat e - unat b"
  by (simp add: collect_log)

end

interpretation ring: seq_log ring_log ring_cap ring_write ring_read ring_head
proof (unfold_locales, goal_cases)
  case 1 then show ?case by (simp add: ring_log_def)
next
  case 2 then show ?case by (auto simp: ring_log_def dest: ring_ok_facts(1))
next
  case 3 then show ?case by (rule ring_head_log)
next
  case 4 then show ?case by (rule ring_write_log(1))
next
  case 5 then show ?case by (rule ring_write_log(2))
next
  case 6 show ?case by (rule ring_write_cap)
next
  case 7 then show ?case by (rule ring_read_log)
qed

section \<open>Runs of writes\<close>

definition ring_writes :: "'a ring \<Rightarrow> 'a list \<Rightarrow> 'a ring" where
  "ring_writes r xs = foldl (\<lambda>r x. snd (ring_write r x)) r xs"

lemma ring_writes_log:
  "ring_log r h \<Longrightarrow> length h + length xs < 2 ^ 64 \<Longrightarrow> ring_log (ring_writes r xs) (h @ xs)"
proof (induction xs arbitrary: r h)
  case Nil
  then show ?case by (simp add: ring_writes_def)
next
  case (Cons x xs)
  from Cons.prems have "ring_log (snd (ring_write r x)) (h @ [x])"
    by (intro ring.write_log) simp_all
  from Cons.IH [OF this] Cons.prems(2) show ?case by (simp add: ring_writes_def)
qed

lemma ring_writes_cap [simp]: "ring_cap (ring_writes r xs) = ring_cap r"
  by (induction xs arbitrary: r) (simp_all add: ring_writes_def)

section \<open>Properties\<close>

text \<open>C4. The ring refines the log of everything written to it. After any sequence of
  writes to a ring the constructor accepted, the head is the number of writes; a position not
  written yet reads as \<^verbatim>\<open>nullptr\<close>; a position that at most \<open>capacity - 1\<close> later
  writes follow reads back what was written there; and a position the writer has lapped
  silently reads a newer event of the same slot.\<close>

theorem ring_refines_log:
  assumes new: "ring_new d c = Some r" and c: "c \<noteq> 0" and len: "length xs < 2 ^ 64"
  shows "unat (ring_head (ring_writes r xs)) = length xs \<and>
    (length xs \<le> unat s \<longrightarrow> ring_read (ring_writes r xs) s = None) \<and>
    (unat s < length xs \<and> length xs \<le> unat s + unat c \<longrightarrow>
       ring_read (ring_writes r xs) s = Some (xs ! unat s)) \<and>
    (unat s + unat c < length xs \<longrightarrow>
       (\<exists>j. unat s < j \<and> j < length xs \<and> j mod unat c = unat s mod unat c \<and>
            ring_read (ring_writes r xs) s = Some (xs ! j)))"
proof -
  have log: "ring_log (ring_writes r xs) xs" and cap: "ring_cap r = unat c"
    using ring_new_log [OF new c] ring_writes_log [of r "[]" xs] len by simp_all
  have pos: "0 < unat c" using c by (simp add: unat_gt_0)
  have "\<exists>j. unat s < j \<and> j < length xs \<and> j mod unat c = unat s mod unat c \<and>
      ring_read (ring_writes r xs) s = Some (xs ! j)" if lapped: "unat s + unat c < length xs"
  proof -
    let ?j = "newest_at (length xs) (unat c) (unat s)"
    from lapped have s: "unat s < length xs" by simp
    have "unat s < ?j" using newest_at_live [OF pos s] lapped by simp
    then show ?thesis
      using ring.read_log [OF log, of s] s by (auto simp: cap newest_at_le newest_at_slot)
  qed
  then show ?thesis
    using ring.head_log [OF log] ring.read_unwritten [OF log, of s] ring.read_live [OF log, of s]
    by (auto simp: cap)
qed

theorem ring_refines_log_witness:
  "\<exists>r. ring_new (0 :: nat) 4 = Some r \<and>
     ring_read (ring_writes r [10, 11, 12, 13, 14, 15]) 3 = Some 13 \<and>
     ring_read (ring_writes r [10, 11, 12, 13, 14, 15]) 7 = None"
proof -
  obtain r where r: "ring_new (0 :: nat) 4 = Some r" by (simp add: ring_new_def)
  show ?thesis
    using r ring_refines_log [OF r, of "[10, 11, 12, 13, 14, 15]" 3]
      ring_refines_log [OF r, of "[10, 11, 12, 13, 14, 15]" 7]
    by auto
qed

text \<open>A window descriptor taken from a ring indexes its events newest first: as long as
  the writer has not lapped the window's oldest event, index \<open>i\<close> is the event \<open>i\<close>
  places before the newest, and an index past the size is \<^verbatim>\<open>nullptr\<close>. The bound on
  the index excludes only the few huge ones for which the unsigned subtraction wraps around to
  an event written after the snapshot.\<close>

theorem view_newest_first:
  assumes log: "ring_log r h" and e: "unat (rv_end_seq v) \<le> length h"
    and live: "length h \<le> unat (rv_begin_seq v) + ring_cap r"
    and i: "unat i + (length h - unat (rv_end_seq v)) < 2 ^ 64"
  shows "view_at r v i =
    (if i < view_size v then Some (h ! (unat (rv_end_seq v) - 1 - unat i)) else None)"
proof -
  let ?b = "rv_begin_seq v" and ?e = "rv_end_seq v"
  have size: "unat (view_size v) = unat ?e - unat ?b"
    by (auto simp: view_size_def word_less_nat_alt word_le_nat_alt unat_minus_le not_less)
  show ?thesis
  proof (cases "unat i < unat ?e")
    case True
    then have lt: "i < ?e" by (simp add: word_less_nat_alt)
    have "unat (?e - (i + 1)) = unat ?e - Suc (unat i)"
      using True by (subst unat_minus_le) (simp_all add: word_le_nat_alt unat_Suc_less [OF lt])
    then have s: "unat (?e - 1 - i) = unat ?e - 1 - unat i" by (simp add: algebra_simps)
    show ?thesis
    proof (cases "i < view_size v")
      case True
      with size have "unat ?b \<le> unat (?e - 1 - i)" by (simp add: s word_less_nat_alt)
      moreover from this have "ring_read r (?e - 1 - i) = Some (h ! unat (?e - 1 - i))"
        using live e \<open>unat i < unat ?e\<close> by (intro ring.read_live [OF log]) (simp_all add: s)
      ultimately show ?thesis using True by (simp add: view_at_def word_less_nat_alt s)
    next
      case False
      with size \<open>unat i < unat ?e\<close> have "?e - 1 - i < ?b"
        by (simp add: word_less_nat_alt s)
      with False show ?thesis by (simp add: view_at_def Let_def)
    qed
  next
    case False
    let ?D = "?e - 1 - i"
    have "unat ?e = unat (?D + (1 + i))" by simp
    also have "\<dots> = (unat ?D + (1 + unat i)) mod 2 ^ 64"
      by (simp only: unat_word_ariths mod_add_right_eq) simp
    finally have "unat ?e = (unat ?D + (1 + unat i)) mod 2 ^ 64" .
    then have "unat ?D + (1 + unat i) = 2 ^ 64 + unat ?e"
    proof (rule wrapped_sum)
      show "unat ?D < 2 ^ 64" by simp
      show "1 + unat i \<le> 2 ^ 64" using unat_u64_less [of i] by (simp del: unat_u64_less)
      show "unat ?e < 1 + unat i" using False by simp
    qed
    then have "length h \<le> unat (?e - 1 - i)" using i e by simp
    from ring.read_unwritten [OF log this] have "view_at r v i = None"
      by (simp add: view_at_def Let_def)
    moreover have "\<not> i < view_size v" using False size by (simp add: word_less_nat_alt)
    ultimately show ?thesis by simp
  qed
qed

theorem view_newest_first_witness:
  "\<exists>r. ring_new (0 :: nat) 4 = Some r \<and>
     view_at (ring_writes r [10, 11, 12]) \<lparr>rv_ring = None, rv_begin_seq = 1, rv_end_seq = 3\<rparr> 0 = Some 12 \<and>
     view_at (ring_writes r [10, 11, 12]) \<lparr>rv_ring = None, rv_begin_seq = 1, rv_end_seq = 3\<rparr> 2 = None"
proof -
  obtain r where r: "ring_new (0 :: nat) 4 = Some r" by (simp add: ring_new_def)
  have log: "ring_log (ring_writes r [10, 11, 12]) [10, 11, 12]" and cap: "ring_cap r = 4"
    using ring_new_log [OF r] ring_writes_log [of r "[]" "[10, 11, 12]"] by simp_all
  let ?v = "\<lparr>rv_ring = None, rv_begin_seq = 1, rv_end_seq = 3\<rparr>"
  show ?thesis
    using r view_newest_first [OF log, of ?v 0] view_newest_first [OF log, of ?v 2]
    by (auto simp: cap view_size_def)
qed

end
