(* ===== verification/Window_Registry.thy ===== *)
theory Window_Registry
  imports Ring_Buffer Telemetry
begin

text \<open>
  \<^verbatim>\<open>core/window_registry.hpp\<close>: one ring per stream, the bounds of the windows scripts
  subscribe to, the two forms of script input, and the reader positions behind the drop
  counter. Each method holds the lock while it uses the map, so it is a function on the
  registry; the copy of a snapshot runs outside the lock and is a function of the registry at
  the time of the copy. The telemetry object is shared and passed along.
\<close>

section \<open>Data\<close>

datatype script_mode = ZeroCopy | Snapshot

datatype window_type = TimeBased | CountBased

record window_spec =
  ws_type :: window_type
  ws_duration_ns :: u64
  ws_count :: u64

definition window_spec_default :: window_spec where
  "window_spec_default = \<lparr>ws_type = CountBased, ws_duration_ns = 0, ws_count = 256\<rparr>"

record zero_copy_input =
  zi_trigger_event :: event
  zi_windows :: "ring_view umap"

record snapshot_input =
  si_trigger_event :: event
  si_windows :: "event list umap"

record script_output =
  so_emitted :: "event list"

record stream_ring =
  st_stream_id :: string
  st_ring :: "event ring"

record registry =
  wr_rings :: "stream_ring umap"
  wr_script_positions :: "u64 list"
  wr_telemetry :: bool

text \<open>The pointer to the telemetry is null or not; the object itself is a separate argument.\<close>

definition registry_new :: registry where
  "registry_new = \<lparr>wr_rings = [], wr_script_positions = [], wr_telemetry = False\<rparr>"

definition registry_set_telemetry :: "bool \<Rightarrow> registry \<Rightarrow> registry" where
  "registry_set_telemetry present reg = reg\<lparr>wr_telemetry := present\<rparr>"

section \<open>Rings\<close>

text \<open>\<open>None\<close> is the failed assertion on the capacity.\<close>

definition ensure_stream :: "string \<Rightarrow> u64 \<Rightarrow> registry \<Rightarrow> registry option" where
  "ensure_stream sid capacity reg =
     (case map_of (wr_rings reg) sid of
        Some _ \<Rightarrow> Some reg
      | None \<Rightarrow> (case ring_new event_default capacity of
          None \<Rightarrow> None
        | Some r \<Rightarrow> Some (reg\<lparr>wr_rings := AList.update sid \<lparr>st_stream_id = sid, st_ring = r\<rparr> (wr_rings reg)\<rparr>)))"

definition get_ring :: "string \<Rightarrow> registry \<Rightarrow> stream_ring option" where
  "get_ring sid reg = map_of (wr_rings reg) sid"

definition get_global_min_reader :: "registry \<Rightarrow> u64" where
  "get_global_min_reader reg =
     (let min_seq = foldl (\<lambda>m val. if val < m then val else m) UINT64_MAX (wr_script_positions reg)
      in if min_seq = UINT64_MAX then 0 else min_seq)"

definition can_write :: "event ring \<Rightarrow> registry \<Rightarrow> bool" where
  "can_write r reg =
     (let global_min = get_global_min_reader reg; head = ring_head r
      in head - global_min < ring_capacity r)"

text \<open>The result is the sequence number and the new states; \<open>None\<close> if the stream id of the
  event is not terminated.\<close>

definition push :: "event \<Rightarrow> registry \<Rightarrow> telemetry \<Rightarrow> (u64 \<times> registry \<times> telemetry) option" where
  "push ev reg tel =
     (case stream_of ev of
        None \<Rightarrow> None
      | Some sid \<Rightarrow>
          (case map_of (wr_rings reg) sid of
             None \<Rightarrow> Some (0, reg, tel)
           | Some sr \<Rightarrow>
               (let tel' = (if wr_telemetry reg \<and> \<not> can_write (st_ring sr) reg then record_drop tel else tel);
                    (seq, r') = ring_write (st_ring sr) ev
                in Some (seq, reg\<lparr>wr_rings := AList.update sid (sr\<lparr>st_ring := r'\<rparr>) (wr_rings reg)\<rparr>, tel'))))"

section \<open>Windows\<close>

text \<open>The loop of \<^verbatim>\<open>compute_begin\<close> for a time window.\<close>

function time_begin :: "event ring \<Rightarrow> u64 \<Rightarrow> u64 \<Rightarrow> u64" where
  "time_begin r cutoff b =
     (if b > 0
      then case ring_read r (b - 1) of
             None \<Rightarrow> b
           | Some e \<Rightarrow> if ev_timestamp_ns e < cutoff then b else time_begin r cutoff (b - 1)
      else b)"
  by pat_completeness auto
termination
  by (relation "measure (\<lambda>(r, c, b). unat b)") (auto simp: unat_minus_one unat_gt_0 word_neq_0_conv)

declare time_begin.simps [simp del]

definition compute_begin :: "event ring \<Rightarrow> u64 \<Rightarrow> window_spec \<Rightarrow> u64 \<Rightarrow> u64" where
  "compute_begin r head spec trigger_ts_ns =
     (if head = 0 then 0
      else if ws_type spec = CountBased
      then (if head \<ge> ws_count spec then head - ws_count spec else 0)
      else let cutoff = (if trigger_ts_ns > ws_duration_ns spec
                         then trigger_ts_ns - ws_duration_ns spec else 0)
           in time_begin r cutoff head)"

text \<open>The bounds of every subscribed window whose stream has a ring; both inputs start with
  this loop.\<close>

definition window_views :: "event \<Rightarrow> window_spec umap \<Rightarrow> registry \<Rightarrow> ring_view umap" where
  "window_views trigger subs reg =
     foldl (\<lambda>ws (sid, spec).
       case map_of (wr_rings reg) sid of
         None \<Rightarrow> ws
       | Some sr \<Rightarrow>
           (let head = ring_head (st_ring sr);
                b = compute_begin (st_ring sr) head spec (ev_timestamp_ns trigger)
            in AList.update sid \<lparr>rv_ring = Some sid, rv_begin_seq = b, rv_end_seq = head\<rparr> ws)) [] subs"

definition make_zero_copy_input :: "event \<Rightarrow> window_spec umap \<Rightarrow> registry \<Rightarrow> zero_copy_input" where
  "make_zero_copy_input trigger subs reg =
     \<lparr>zi_trigger_event = trigger, zi_windows = window_views trigger subs reg\<rparr>"

text \<open>Reading through the pointer of a descriptor: the ring of the stream as it is now.\<close>

definition view_read :: "registry \<Rightarrow> ring_view \<Rightarrow> u64 \<Rightarrow> event option" where
  "view_read reg v seq =
     (case rv_ring v of
        None \<Rightarrow> None
      | Some sid \<Rightarrow> (case map_of (wr_rings reg) sid of None \<Rightarrow> None | Some sr \<Rightarrow> ring_read (st_ring sr) seq))"

text \<open>The second half of \<^verbatim>\<open>make_snapshot_input\<close>, outside the lock: the registry is
  the one at the time of the copy.\<close>

definition copy_window :: "registry \<Rightarrow> ring_view \<Rightarrow> event list" where
  "copy_window reg v = collect (view_read reg v) (rv_begin_seq v) (rv_end_seq v)"

definition copy_windows :: "ring_view umap \<Rightarrow> registry \<Rightarrow> event list umap" where
  "copy_windows infos reg =
     foldl (\<lambda>ws (sid, info). AList.update sid (copy_window reg info) ws) [] infos"

text \<open>\<open>reg\<close> is the registry under the lock, \<open>reg'\<close> the one the copy runs against;
  \<^verbatim>\<open>script_idx\<close> is not used by the code.\<close>

definition make_snapshot_input ::
  "event \<Rightarrow> window_spec umap \<Rightarrow> nat \<Rightarrow> registry \<Rightarrow> registry \<Rightarrow> snapshot_input" where
  "make_snapshot_input trigger subs script_idx reg reg' =
     \<lparr>si_trigger_event = trigger, si_windows = copy_windows (window_views trigger subs reg) reg'\<rparr>"

section \<open>Reader positions\<close>

definition register_script :: "registry \<Rightarrow> nat \<times> registry" where
  "register_script reg = (length (wr_script_positions reg),
     reg\<lparr>wr_script_positions := wr_script_positions reg @ [0]\<rparr>)"

text \<open>\<open>None\<close>: the index is out of bounds.\<close>

definition script_begin_read :: "nat \<Rightarrow> u64 \<Rightarrow> registry \<Rightarrow> registry option" where
  "script_begin_read idx min_seq reg =
     (if idx < length (wr_script_positions reg)
      then Some (reg\<lparr>wr_script_positions := (wr_script_positions reg)[idx := min_seq]\<rparr>) else None)"

definition script_end_read :: "nat \<Rightarrow> registry \<Rightarrow> registry" where
  "script_end_read idx reg = reg"

definition clear_cursors :: "registry \<Rightarrow> registry" where
  "clear_cursors reg = reg\<lparr>wr_script_positions := []\<rparr>"

end
