(* ===== verification/Window_Laws.thy ===== *)
theory Window_Laws
  imports Window_Registry
begin

text \<open>
  What the window registry guarantees. Its abstraction is the history of each stream, the list
  of all events pushed to it; the locale \<open>stream_store\<close> is the contract the router relies
  on, and the registry is its instance. The lemmas give the content of count and time windows
  in terms of the history, for snapshots and for views that are read later.
\<close>

section \<open>Building a map in a loop\<close>

lemma map_of_build:
  assumes "um_ok xs"
  shows "map_of (foldl (\<lambda>ws (k, v). case f k v of None \<Rightarrow> ws | Some w \<Rightarrow> AList.update k w ws) acc xs) x =
    (case map_of xs x of None \<Rightarrow> map_of acc x
     | Some v \<Rightarrow> (case f x v of None \<Rightarrow> map_of acc x | Some w \<Rightarrow> Some w))"
  using assms
proof (induction xs arbitrary: acc x)
  case Nil
  then show ?case by simp
next
  case (Cons e xs)
  obtain k v where e: "e = (k, v)" by fastforce
  from Cons.prems have ok: "um_ok xs" and k: "map_of xs k = None"
    by (simp_all add: um_ok_def e map_of_eq_None_iff)
  show ?case
  proof (cases "x = k")
    case True
    then show ?thesis using k by (simp add: Cons.IH [OF ok] e umap_simps split: option.split)
  next
    case False
    then show ?thesis by (simp add: Cons.IH [OF ok] e umap_simps split: option.split)
  qed
qed

lemma um_ok_build:
  "um_ok acc \<Longrightarrow> um_ok (foldl (\<lambda>ws (k, v). case f k v of None \<Rightarrow> ws | Some w \<Rightarrow> AList.update k w ws) acc xs)"
  by (induction xs arbitrary: acc) (auto split: option.split)

definition stream_view :: "event \<Rightarrow> string \<Rightarrow> window_spec \<Rightarrow> event ring \<Rightarrow> ring_view" where
  "stream_view trigger sid spec r = \<lparr>rv_ring = Some sid,
     rv_begin_seq = compute_begin r (ring_head r) spec (ev_timestamp_ns trigger), rv_end_seq = ring_head r\<rparr>"

lemma window_views_build:
  "window_views trigger subs reg = foldl (\<lambda>ws (k, v).
     case map_option (\<lambda>sr. stream_view trigger k v (st_ring sr)) (map_of (wr_rings reg) k) of
       None \<Rightarrow> ws | Some w \<Rightarrow> AList.update k w ws) [] subs"
proof -
  have "(\<lambda>ws (sid, spec). case map_of (wr_rings reg) sid of None \<Rightarrow> ws
       | Some sr \<Rightarrow> (let head = ring_head (st_ring sr);
                b = compute_begin (st_ring sr) head spec (ev_timestamp_ns trigger)
            in AList.update sid \<lparr>rv_ring = Some sid, rv_begin_seq = b, rv_end_seq = head\<rparr> ws)) =
     (\<lambda>ws (k, v). case map_option (\<lambda>sr. stream_view trigger k v (st_ring sr)) (map_of (wr_rings reg) k) of
       None \<Rightarrow> ws | Some w \<Rightarrow> AList.update k w ws)"
    by (intro ext) (auto simp: stream_view_def Let_def split: option.split prod.split)
  then show ?thesis by (simp only: window_views_def)
qed

lemma map_of_window_views:
  assumes "um_ok subs"
  shows "map_of (window_views trigger subs reg) sid =
    (case (map_of subs sid, map_of (wr_rings reg) sid) of
       (Some spec, Some sr) \<Rightarrow> Some (stream_view trigger sid spec (st_ring sr)) | _ \<Rightarrow> None)"
  unfolding window_views_build by (subst map_of_build [OF assms]) (auto split: option.split)

lemma um_ok_window_views [simp]: "um_ok (window_views trigger subs reg)"
  unfolding window_views_build by (rule um_ok_build) simp

lemma map_of_copy_windows:
  assumes "um_ok infos"
  shows "map_of (copy_windows infos reg) sid = map_option (copy_window reg) (map_of infos sid)"
  using map_of_build [OF assms, of "\<lambda>k v. Some (copy_window reg v)" "[]" sid]
  by (simp add: copy_windows_def split: option.splits)

section \<open>The bounds of a window\<close>

lemma compute_begin_count:
  assumes "ring_log r h" "ws_type spec = CountBased"
  shows "unat (compute_begin r (ring_head r) spec ts) = length h - unat (ws_count spec)"
  using ring.head_log [OF assms(1)] assms(2)
  by (auto simp: compute_begin_def word_le_nat_alt unat_sub unat_eq_0 [symmetric])

text \<open>The event a read at position \<open>i\<close> yields.\<close>

abbreviation seen :: "event ring \<Rightarrow> event list \<Rightarrow> nat \<Rightarrow> event" where
  "seen r h i \<equiv> h ! newest_at (length h) (ring_cap r) i"

lemma time_begin_log:
  assumes "ring_log r h" "unat b \<le> length h"
  shows "unat (time_begin r c b) \<le> unat b \<and>
    (\<forall>i. unat (time_begin r c b) \<le> i \<longrightarrow> i < unat b \<longrightarrow> c \<le> ev_timestamp_ns (seen r h i)) \<and>
    (unat (time_begin r c b) = 0 \<or> ev_timestamp_ns (seen r h (unat (time_begin r c b) - 1)) < c)"
  using assms
proof (induction r c b rule: time_begin.induct)
  case (1 r c b)
  show ?case
  proof (cases "b > 0")
    case False
    then have "b = 0" by (simp add: word_neq_0_conv [symmetric])
    then show ?thesis by (simp add: time_begin.simps [of r c 0])
  next
    case True
    then have u: "unat (b - 1) = unat b - 1" "0 < unat b"
      by (simp_all add: unat_minus_one word_neq_0_conv unat_gt_0)
    with "1.prems" have rd: "ring_read r (b - 1) = Some (seen r h (unat b - 1))"
      by (simp add: ring.read_log)
    show ?thesis
    proof (cases "ev_timestamp_ns (seen r h (unat b - 1)) < c")
      case True
      then have "time_begin r c b = b" using rd by (simp add: time_begin.simps [of r c b])
      with True show ?thesis by simp
    next
      case False
      then have e: "time_begin r c b = time_begin r c (b - 1)"
        using rd \<open>b > 0\<close> by (simp add: time_begin.simps [of r c b])
      have IH: "unat (time_begin r c (b - 1)) \<le> unat (b - 1) \<and>
        (\<forall>i. unat (time_begin r c (b - 1)) \<le> i \<longrightarrow> i < unat (b - 1) \<longrightarrow> c \<le> ev_timestamp_ns (seen r h i)) \<and>
        (unat (time_begin r c (b - 1)) = 0 \<or>
           ev_timestamp_ns (seen r h (unat (time_begin r c (b - 1)) - 1)) < c)"
        using "1.IH" [OF True rd False] "1.prems" u by simp
      have "c \<le> ev_timestamp_ns (seen r h i)"
        if "unat (time_begin r c (b - 1)) \<le> i" "i < unat b" for i
        using IH that False u by (cases "i = unat b - 1") (auto simp: not_less)
      with IH u show ?thesis unfolding e by auto
    qed
  qed
qed

lemma time_begin_unique:
  assumes "ring_log r h" "k \<le> length h"
    and "\<And>i. k \<le> i \<Longrightarrow> i < length h \<Longrightarrow> c \<le> ev_timestamp_ns (seen r h i)"
    and "k = 0 \<or> ev_timestamp_ns (seen r h (k - 1)) < c"
  shows "unat (time_begin r c (ring_head r)) = k"
proof -
  have hd: "unat (ring_head r) = length h" by (rule ring.head_log) (rule assms(1))
  let ?t = "unat (time_begin r c (ring_head r))"
  note tb = time_begin_log [OF assms(1), of "ring_head r" c, unfolded hd, OF order_refl]
  show ?thesis
  proof (rule linorder_cases [of ?t k])
    assume "?t < k"
    then have "c \<le> ev_timestamp_ns (seen r h (k - 1))" "k \<noteq> 0" using tb assms(2) by auto
    with assms(4) show ?thesis by simp
  next
    assume "k < ?t"
    then have "c \<le> ev_timestamp_ns (seen r h (?t - 1))" using tb by (intro assms(3)) linarith+
    moreover have "ev_timestamp_ns (seen r h (?t - 1)) < c" using tb \<open>k < ?t\<close> by auto
    ultimately show ?thesis using leD by blast
  qed
qed

definition cutoff_of :: "u64 \<Rightarrow> window_spec \<Rightarrow> u64" where
  "cutoff_of ts spec = (if ts > ws_duration_ns spec then ts - ws_duration_ns spec else 0)"

lemma compute_begin_time:
  "ws_type spec = TimeBased \<Longrightarrow> compute_begin r head spec ts = time_begin r (cutoff_of ts spec) head"
  by (auto simp: compute_begin_def cutoff_of_def time_begin.simps [of r _ 0])

lemma unat_cutoff: "unat (cutoff_of ts spec) = unat ts - unat (ws_duration_ns spec)"
  by (auto simp: cutoff_of_def word_less_nat_alt unat_sub word_le_nat_alt)

section \<open>The history of every stream\<close>

type_synonym history = "string \<Rightarrow> event list option"

definition reg_repr :: "registry \<Rightarrow> history \<Rightarrow> bool" where
  "reg_repr reg m \<longleftrightarrow> um_ok (wr_rings reg) \<and>
     (\<forall>sid. rel_option (\<lambda>sr h. ring_log (st_ring sr) h) (map_of (wr_rings reg) sid) (m sid))"

definition reg_cap :: "registry \<Rightarrow> string \<Rightarrow> nat" where
  "reg_cap reg sid = (case map_of (wr_rings reg) sid of None \<Rightarrow> 0 | Some sr \<Rightarrow> ring_cap (st_ring sr))"

lemma reg_repr_ring:
  assumes "reg_repr reg m" "m sid = Some h"
  obtains sr where "map_of (wr_rings reg) sid = Some sr" "ring_log (st_ring sr) h" "reg_cap reg sid = ring_cap (st_ring sr)"
proof -
  have "rel_option (\<lambda>sr h. ring_log (st_ring sr) h) (map_of (wr_rings reg) sid) (m sid)"
    using assms(1) by (simp add: reg_repr_def)
  with assms(2) show ?thesis by (auto simp: reg_cap_def option_rel_Some2 intro: that)
qed

lemma reg_repr_none:
  assumes "reg_repr reg m"
  shows "m sid = None \<longleftrightarrow> map_of (wr_rings reg) sid = None"
proof -
  have "rel_option (\<lambda>sr h. ring_log (st_ring sr) h) (map_of (wr_rings reg) sid) (m sid)"
    using assms by (simp add: reg_repr_def)
  then show ?thesis by (auto elim: option.rel_cases)
qed

lemma reg_repr_new: "reg_repr registry_new Map.empty"
  by (simp add: reg_repr_def registry_new_def)

lemma reg_repr_ensure:
  assumes "reg_repr reg m" "ensure_stream sid c reg = Some reg'" "c \<noteq> 0"
  shows "reg_repr reg' (m(sid \<mapsto> (case m sid of None \<Rightarrow> [] | Some h \<Rightarrow> h)))"
    and "reg_cap reg' sid = (case m sid of None \<Rightarrow> unat c | Some h \<Rightarrow> reg_cap reg sid)"
proof -
  have "reg_repr reg' (m(sid \<mapsto> (case m sid of None \<Rightarrow> [] | Some h \<Rightarrow> h))) \<and>
      reg_cap reg' sid = (case m sid of None \<Rightarrow> unat c | Some h \<Rightarrow> reg_cap reg sid)"
  proof (cases "map_of (wr_rings reg) sid")
    case None
    with assms(2) obtain r where r: "ring_new event_default c = Some r"
      and reg': "reg' = reg\<lparr>wr_rings := AList.update sid \<lparr>st_stream_id = sid, st_ring = r\<rparr> (wr_rings reg)\<rparr>"
      by (auto simp: ensure_stream_def split: option.splits)
    from None reg_repr_none [OF assms(1)] have "m sid = None" by simp
    then show ?thesis using assms(1) ring_new_log [OF r assms(3)]
      by (auto simp: reg_repr_def reg' umap_simps reg_cap_def)
  next
    case (Some sr)
    with assms(2) have "reg' = reg" by (simp add: ensure_stream_def)
    moreover obtain h where "m sid = Some h"
      using Some reg_repr_none [OF assms(1), of sid] by auto
    ultimately show ?thesis using assms(1) by (simp add: fun_upd_idem)
  qed
  then show "reg_repr reg' (m(sid \<mapsto> (case m sid of None \<Rightarrow> [] | Some h \<Rightarrow> h)))"
    "reg_cap reg' sid = (case m sid of None \<Rightarrow> unat c | Some h \<Rightarrow> reg_cap reg sid)" by blast+
qed

lemma push_known:
  assumes "reg_repr reg m" "stream_of ev = Some sid" "m sid = Some h" "Suc (length h) < 2 ^ 64"
  obtains seq reg' where "push ev reg tel = Some (seq, reg',
      if wr_telemetry reg \<and> reg_cap reg sid \<le> unat (of_nat (length h) - get_global_min_reader reg)
      then record_drop tel else tel)"
    "unat seq = length h" "reg_repr reg' (m(sid \<mapsto> h @ [ev]))" "reg_cap reg' = reg_cap reg"
    "wr_script_positions reg' = wr_script_positions reg" "wr_telemetry reg' = wr_telemetry reg"
proof -
  from reg_repr_ring [OF assms(1,3)] obtain sr where
    sr: "map_of (wr_rings reg) sid = Some sr" "ring_log (st_ring sr) h" "reg_cap reg sid = ring_cap (st_ring sr)" .
  let ?w = "ring_write (st_ring sr) ev"
  let ?reg = "reg\<lparr>wr_rings := AList.update sid (sr\<lparr>st_ring := snd ?w\<rparr>) (wr_rings reg)\<rparr>"
  have "ring_head (st_ring sr) = of_nat (length h)"
    using arg_cong [OF ring.head_log [OF sr(2)], of "of_nat :: nat \<Rightarrow> u64"] by simp
  then have "can_write (st_ring sr) reg \<longleftrightarrow>
      unat (of_nat (length h) - get_global_min_reader reg) < reg_cap reg sid"
    by (simp add: can_write_def Let_def sr(3) ring_cap_def ring_capacity_def word_less_nat_alt)
  then have p: "push ev reg tel = Some (fst ?w, ?reg,
      if wr_telemetry reg \<and> reg_cap reg sid \<le> unat (of_nat (length h) - get_global_min_reader reg)
      then record_drop tel else tel)"
    by (auto simp: push_def assms(2) sr(1) Let_def split: prod.split)
  have "reg_repr ?reg (m(sid \<mapsto> h @ [ev]))"
    using assms(1) ring.write_log [OF sr(2) assms(4)] by (auto simp: reg_repr_def umap_simps)
  moreover have "reg_cap ?reg = reg_cap reg"
    by (rule ext) (simp add: reg_cap_def umap_simps sr(1))
  ultimately show thesis
    using that [OF p ring.write_seq [OF sr(2) assms(4)]] by simp
qed

lemma push_unknown:
  "reg_repr reg m \<Longrightarrow> stream_of ev = Some sid \<Longrightarrow> m sid = None \<Longrightarrow> push ev reg tel = Some (0, reg, tel)"
  by (simp add: push_def reg_repr_none)

section \<open>The contract of a store of streams\<close>

text \<open>
  A store of named streams: putting an event of a known stream appends it to the history of
  that stream and of no other, an event of an unknown stream changes nothing.
\<close>

locale stream_store =
  fixes repr :: "'s \<Rightarrow> (string \<Rightarrow> 'e list option) \<Rightarrow> bool" and stream :: "'e \<Rightarrow> string option"
    and put :: "'e \<Rightarrow> 's \<Rightarrow> 's option"
  assumes put_known: "repr s m \<Longrightarrow> stream e = Some sid \<Longrightarrow> m sid = Some h \<Longrightarrow> Suc (length h) < 2 ^ 64 \<Longrightarrow>
      \<exists>s'. put e s = Some s' \<and> repr s' (m(sid \<mapsto> h @ [e]))"
    and put_unknown: "repr s m \<Longrightarrow> stream e = Some sid \<Longrightarrow> m sid = None \<Longrightarrow> put e s = Some s"
begin

fun puts :: "'e list \<Rightarrow> 's \<Rightarrow> 's option" where
  "puts [] s = Some s"
| "puts (e # es) s = (case put e s of None \<Rightarrow> None | Some s' \<Rightarrow> puts es s')"

definition extended :: "(string \<Rightarrow> 'e list option) \<Rightarrow> 'e list \<Rightarrow> string \<Rightarrow> 'e list option" where
  "extended m es = (\<lambda>sid. map_option (\<lambda>h. h @ filter (\<lambda>e. stream e = Some sid) es) (m sid))"

lemma puts_history:
  assumes "repr s m" "\<forall>e \<in> set es. stream e \<noteq> None"
    and "\<And>sid h. m sid = Some h \<Longrightarrow> length h + length es < 2 ^ 64"
  shows "\<exists>s'. puts es s = Some s' \<and> repr s' (extended m es)"
  using assms
proof (induction es arbitrary: s m)
  case Nil
  have "extended m [] = m" by (rule ext) (simp add: extended_def option.map_ident)
  with Nil show ?case by simp
next
  case (Cons e es)
  from Cons.prems(2) obtain sid where sid: "stream e = Some sid" by auto
  show ?case
  proof (cases "m sid")
    case None
    have "extended m (e # es) = extended m es"
      by (rule ext) (use None sid in \<open>auto simp: extended_def\<close>)
    moreover have "\<exists>s'. puts es s = Some s' \<and> repr s' (extended m es)"
      by (rule Cons.IH [OF Cons.prems(1)]) (use Cons.prems(2) in \<open>auto dest: Cons.prems(3)\<close>)
    ultimately show ?thesis using put_unknown [OF Cons.prems(1) sid None] by simp
  next
    case (Some h)
    with Cons.prems(3) [OF Some] obtain s' where
      s': "put e s = Some s'" "repr s' (m(sid \<mapsto> h @ [e]))"
      using put_known [OF Cons.prems(1) sid Some] by auto
    have "extended m (e # es) = extended (m(sid \<mapsto> h @ [e])) es"
      by (rule ext) (use Some sid in \<open>auto simp: extended_def option.map_comp comp_def\<close>)
    moreover have "\<exists>s''. puts es s' = Some s'' \<and> repr s'' (extended (m(sid \<mapsto> h @ [e])) es)"
    proof (rule Cons.IH [OF s'(2)])
      show "\<forall>e\<in>set es. stream e \<noteq> None" using Cons.prems(2) by simp
      show "length h' + length es < 2 ^ 64" if "(m(sid \<mapsto> h @ [e])) x = Some h'" for x h'
        using that Cons.prems(3) [OF Some] Cons.prems(3) [of x h'] by (auto split: if_splits)
    qed
    ultimately show ?thesis using s'(1) by simp
  qed
qed

end

definition store_repr :: "registry \<times> telemetry \<Rightarrow> history \<Rightarrow> bool" where
  "store_repr s m \<longleftrightarrow> reg_repr (fst s) m"

definition store_put :: "event \<Rightarrow> registry \<times> telemetry \<Rightarrow> (registry \<times> telemetry) option" where
  "store_put ev = (\<lambda>(reg, tel). map_option snd (push ev reg tel))"

interpretation store: stream_store store_repr stream_of store_put
proof (unfold_locales, goal_cases)
  case (1 s m e sid h)
  obtain reg tel where s: "s = (reg, tel)" by fastforce
  from 1 have m: "reg_repr reg m" by (simp add: s store_repr_def)
  show ?case
    by (rule push_known [OF m 1(2-4), of tel]) (simp add: s store_put_def store_repr_def)
next
  case (2 s m e sid)
  then show ?case by (cases s) (simp add: store_put_def store_repr_def push_unknown)
qed

section \<open>What a script is given\<close>

fun push_all :: "event list \<Rightarrow> registry \<Rightarrow> telemetry \<Rightarrow> (registry \<times> telemetry) option" where
  "push_all [] reg tel = Some (reg, tel)"
| "push_all (ev # evs) reg tel =
     (case push ev reg tel of None \<Rightarrow> None | Some (seq, reg', tel') \<Rightarrow> push_all evs reg' tel')"

lemma push_all_puts: "push_all evs reg tel = store.puts evs (reg, tel)"
  by (induction evs arbitrary: reg tel) (auto simp: store_put_def split: option.split)

text \<open>The copy of a view of stream \<open>sid\<close>, taken now or later.\<close>

lemma copy_window_log:
  assumes "reg_repr reg m" "m sid = Some h" "rv_ring v = Some sid" "unat (rv_end_seq v) \<le> length h"
  shows "copy_window reg v =
    map (\<lambda>i. h ! newest_at (length h) (reg_cap reg sid) i) [unat (rv_begin_seq v)..<unat (rv_end_seq v)]"
proof -
  from reg_repr_ring [OF assms(1,2)] obtain sr where
    sr: "map_of (wr_rings reg) sid = Some sr" "ring_log (st_ring sr) h" "reg_cap reg sid = ring_cap (st_ring sr)" .
  have "view_read reg v = ring_read (st_ring sr)"
    by (rule ext) (simp add: view_read_def assms(3) sr(1))
  then show ?thesis using ring.collect_log [OF sr(2) assms(4)] by (simp add: copy_window_def sr(3))
qed

lemma copy_window_live:
  assumes "reg_repr reg m" "m sid = Some h" "rv_ring v = Some sid" "unat (rv_end_seq v) \<le> length h"
    and "length h \<le> unat (rv_begin_seq v) + reg_cap reg sid"
  shows "copy_window reg v = take (unat (rv_end_seq v) - unat (rv_begin_seq v)) (drop (unat (rv_begin_seq v)) h)"
proof -
  have "copy_window reg v = map (\<lambda>i. h ! i) [unat (rv_begin_seq v)..<unat (rv_end_seq v)]"
    unfolding copy_window_log [OF assms(1-4)] using assms(4,5) by (auto simp: newest_at_id)
  also have "\<dots> = take (unat (rv_end_seq v) - unat (rv_begin_seq v)) (drop (unat (rv_begin_seq v)) h)"
    using assms(4) by (intro nth_equalityI) auto
  finally show ?thesis .
qed

lemma snapshot_window:
  assumes "reg_repr reg m" "m sid = Some h" "um_ok subs" "map_of subs sid = Some spec"
  obtains v sr where "map_of (wr_rings reg) sid = Some sr" "ring_log (st_ring sr) h"
    "reg_cap reg sid = ring_cap (st_ring sr)" "v = stream_view trigger sid spec (st_ring sr)"
    "map_of (window_views trigger subs reg) sid = Some v" "rv_ring v = Some sid"
    "unat (rv_end_seq v) = length h"
    "\<And>reg'. map_of (si_windows (make_snapshot_input trigger subs idx reg reg')) sid = Some (copy_window reg' v)"
proof -
  from reg_repr_ring [OF assms(1,2)] obtain sr where
    sr: "map_of (wr_rings reg) sid = Some sr" "ring_log (st_ring sr) h" "reg_cap reg sid = ring_cap (st_ring sr)" .
  let ?v = "stream_view trigger sid spec (st_ring sr)"
  have v: "map_of (window_views trigger subs reg) sid = Some ?v"
    by (simp add: map_of_window_views [OF assms(3)] assms(4) sr(1))
  have "map_of (si_windows (make_snapshot_input trigger subs idx reg reg')) sid = Some (copy_window reg' ?v)" for reg'
    by (simp add: make_snapshot_input_def map_of_copy_windows v)
  moreover have "rv_ring ?v = Some sid" "unat (rv_end_seq ?v) = length h"
    by (simp_all add: stream_view_def ring.head_log [OF sr(2)])
  ultimately show thesis using that [OF sr refl v] by blast
qed

text \<open>A registry with one stream, for the examples.\<close>

definition example_event :: "u64 \<Rightarrow> event" where
  "example_event t = set_stream ''s'' (event_default\<lparr>ev_timestamp_ns := t\<rparr>)"

lemma example_event [simp]: "stream_of (example_event t) = Some ''s''" "ev_timestamp_ns (example_event t) = t"
  by (simp_all add: example_event_def stream_of_set_stream c_str_id)

lemma example_event_inject [simp]: "example_event a = example_event b \<longleftrightarrow> a = b"
  by (metis example_event(2))

lemma push_single:
  assumes "reg_repr reg [sid \<mapsto> h]" "stream_of ev = Some sid" "Suc (length h) < 2 ^ 64"
  shows "\<exists>reg'. reg_repr reg' [sid \<mapsto> h @ [ev]] \<and> reg_cap reg' = reg_cap reg"
proof -
  obtain seq :: u64 and reg' where "reg_repr reg' ([sid \<mapsto> h](sid \<mapsto> h @ [ev]))" "reg_cap reg' = reg_cap reg"
    by (rule push_known [OF assms(1,2) fun_upd_same assms(3), where tel = undefined]) blast
  then show ?thesis unfolding fun_upd_upd by blast
qed

lemma example_registry:
  assumes "length ts < 2 ^ 64"
  obtains reg where "reg_repr reg [''s'' \<mapsto> map example_event ts]" "reg_cap reg ''s'' = 4"
proof -
  obtain r where "ring_new event_default 4 = Some r" by (simp add: ring_new_def)
  then obtain reg where reg: "ensure_stream ''s'' 4 registry_new = Some reg"
    by (simp add: ensure_stream_def registry_new_def)
  have e: "reg_repr reg [''s'' \<mapsto> []]" "reg_cap reg ''s'' = 4"
    using reg_repr_ensure [OF reg_repr_new reg] by simp_all
  have "\<exists>reg'. reg_repr reg' [''s'' \<mapsto> map example_event ts] \<and> reg_cap reg' ''s'' = 4" using assms
  proof (induction ts rule: rev_induct)
    case Nil
    show ?case unfolding list.map by (intro exI conjI) (rule e)+
  next
    case (snoc t ts)
    have "length ts < 2 ^ 64" using snoc.prems by simp
    from snoc.IH [OF this] obtain reg' where
      r: "reg_repr reg' [''s'' \<mapsto> map example_event ts]" "reg_cap reg' ''s'' = 4" by blast
    have "Suc (length (map example_event ts)) < 2 ^ 64" using snoc.prems by simp
    from push_single [OF r(1) example_event(1) this] obtain reg'' where
      "reg_repr reg'' [''s'' \<mapsto> map example_event ts @ [example_event t]]" "reg_cap reg'' = reg_cap reg'" by blast
    with r(2) show ?case by (metis list.simps(8,9) map_append)
  qed
  then show thesis using that by blast
qed

section \<open>Properties\<close>

text \<open>C12. The registry keeps the history of every stream. Pushing any sequence of events with
  terminated stream ids to a registry never fails, and appends to the history of each stream
  that has a ring exactly the events of that stream, in order; events of streams without a
  ring leave no trace.\<close>

theorem registry_keeps_history:
  assumes "reg_repr reg m" "\<forall>ev \<in> set evs. stream_of ev \<noteq> None"
    and "\<forall>sid h. m sid = Some h \<longrightarrow> length h + length evs < 2 ^ 64"
  shows "\<exists>reg' tel'. push_all evs reg tel = Some (reg', tel') \<and>
    reg_repr reg' (\<lambda>sid. map_option (\<lambda>h. h @ filter (\<lambda>ev. stream_of ev = Some sid) evs) (m sid))"
proof -
  have "\<exists>s'. store.puts evs (reg, tel) = Some s' \<and> store_repr s' (store.extended m evs)"
    by (rule store.puts_history) (use assms in \<open>auto simp: store_repr_def\<close>)
  then show ?thesis by (auto simp: push_all_puts store_repr_def store.extended_def)
qed

theorem registry_keeps_history_witness:
  "\<exists>reg reg' tel'. ensure_stream ''s'' 4 registry_new = Some reg \<and>
     push_all [example_event 1, set_stream ''t'' event_default, example_event 2] reg telemetry_new = Some (reg', tel') \<and>
     (\<exists>m. reg_repr reg' m \<and> m ''s'' = Some [example_event 1, example_event 2] \<and> m ''t'' = None)"
proof -
  obtain r where "ring_new event_default 4 = Some r" by (simp add: ring_new_def)
  then obtain reg where reg: "ensure_stream ''s'' 4 registry_new = Some reg"
    by (simp add: ensure_stream_def registry_new_def)
  have m: "reg_repr reg [''s'' \<mapsto> []]" using reg_repr_ensure [OF reg_repr_new reg] by simp
  have t: "stream_of (set_stream ''t'' event_default) = Some ''t''"
    by (simp add: stream_of_set_stream c_str_id)
  have len: "\<forall>ev \<in> set [example_event 1, set_stream ''t'' event_default, example_event 2]. stream_of ev \<noteq> None"
    "\<forall>sid h. [''s'' \<mapsto> []] sid = Some h \<longrightarrow> length h +
       length [example_event 1, set_stream ''t'' event_default, example_event 2] < 2 ^ 64"
    by (simp_all add: t)
  obtain reg' tel' where p: "push_all [example_event 1, set_stream ''t'' event_default, example_event 2] reg telemetry_new
      = Some (reg', tel')" and r: "reg_repr reg' (\<lambda>sid. map_option (\<lambda>h. h @ filter (\<lambda>ev. stream_of ev = Some sid)
        [example_event 1, set_stream ''t'' event_default, example_event 2]) ([''s'' \<mapsto> []] sid))"
    using registry_keeps_history [OF m, of "[example_event 1, set_stream ''t'' event_default, example_event 2]"
        telemetry_new, OF len(1,2)] by blast
  show ?thesis by (intro exI conjI, rule reg, rule p, rule r) (simp_all add: t)
qed

text \<open>C8. The content of a count window. The snapshot of a window of \<open>n\<close> events on a stream
  whose history is \<open>h\<close> is the last \<open>n\<close> events of \<open>h\<close> (all of them if there are
  fewer), as long as these are not more than the ring holds; a window larger than the ring
  still has its full length, but shows only events that are among the last
  \<open>capacity\<close> ones, so it repeats some.\<close>

theorem snapshot_count_window:
  assumes "reg_repr reg m" "m sid = Some h" "um_ok subs" "map_of subs sid = Some spec"
    and "ws_type spec = CountBased"
  shows "\<exists>w. map_of (si_windows (make_snapshot_input trigger subs idx reg reg)) sid = Some w \<and>
    length w = min (length h) (unat (ws_count spec)) \<and>
    set w \<subseteq> set (drop (length h - reg_cap reg sid) h) \<and>
    (min (length h) (unat (ws_count spec)) \<le> reg_cap reg sid \<longrightarrow>
       w = drop (length h - unat (ws_count spec)) h)"
proof -
  obtain v and sr :: stream_ring where v: "v = stream_view trigger sid spec (st_ring sr)" "ring_log (st_ring sr) h"
    "rv_ring v = Some sid" "unat (rv_end_seq v) = length h"
    and cap: "reg_cap reg sid = ring_cap (st_ring sr)"
    and w: "map_of (si_windows (make_snapshot_input trigger subs idx reg reg)) sid = Some (copy_window reg v)"
    by (rule snapshot_window [OF assms(1-4)]) blast
  have b: "unat (rv_begin_seq v) = length h - unat (ws_count spec)"
    using compute_begin_count [OF v(2) assms(5)] by (simp add: v(1) stream_view_def)
  have e: "unat (rv_end_seq v) \<le> length h" by (simp add: v(4))
  note log = copy_window_log [OF assms(1,2) v(3) e]
  have "set (copy_window reg v) \<subseteq> set (drop (length h - reg_cap reg sid) h)"
  proof
    fix x assume "x \<in> set (copy_window reg v)"
    then obtain i where i: "i < length h" "x = h ! newest_at (length h) (reg_cap reg sid) i"
      by (auto simp: log v(4))
    let ?j = "newest_at (length h) (reg_cap reg sid) i"
    have "?j < length h" "length h \<le> ?j + reg_cap reg sid"
      using i newest_at_live [of "reg_cap reg sid"] ring.cap_pos [OF v(2)] by (simp_all add: cap newest_at_le)
    then have "x = drop (length h - reg_cap reg sid) h ! (?j - (length h - reg_cap reg sid))"
      "?j - (length h - reg_cap reg sid) < length (drop (length h - reg_cap reg sid) h)"
      using i by simp_all
    then show "x \<in> set (drop (length h - reg_cap reg sid) h)" by (metis nth_mem)
  qed
  moreover have "copy_window reg v = drop (length h - unat (ws_count spec)) h"
    if "min (length h) (unat (ws_count spec)) \<le> reg_cap reg sid"
    using copy_window_live [OF assms(1,2) v(3) e] that by (simp add: b v(4) min_def split: if_splits)
  moreover have "length (copy_window reg v) = min (length h) (unat (ws_count spec))"
    by (simp add: log v(4) b)
  ultimately show ?thesis using w by blast
qed

theorem snapshot_count_window_witness:
  "\<exists>reg w. map_of (si_windows (make_snapshot_input (example_event 9)
      [(''s'', \<lparr>ws_type = CountBased, ws_duration_ns = 0, ws_count = 2\<rparr>)] 0 reg reg)) ''s'' = Some w \<and>
     w = [example_event 5, example_event 6]"
proof -
  obtain reg where reg: "reg_repr reg [''s'' \<mapsto> map example_event [1, 2, 3, 4, 5, 6]]" "reg_cap reg ''s'' = 4"
    by (rule example_registry [of "[1, 2, 3, 4, 5, 6]"]) simp_all
  show ?thesis
    using snapshot_count_window [OF reg(1) fun_upd_same, of
        "[(''s'', \<lparr>ws_type = CountBased, ws_duration_ns = 0, ws_count = 2\<rparr>)]"
        "\<lparr>ws_type = CountBased, ws_duration_ns = 0, ws_count = 2\<rparr>" "example_event 9" 0] reg(2)
    by (auto simp: um_ok_def)
qed



text \<open>A time window longer than the ring. When the stream has been written past the ring's
  capacity and all events still in the ring are inside the window, the scan does not stop at
  the oldest of them but runs down to sequence number zero: the snapshot has one entry for
  every event ever written to the stream, all of them copies of the last
  \<open>capacity\<close> events.\<close>

theorem snapshot_time_window_lapped:
  assumes "reg_repr reg m" "m sid = Some h" "um_ok subs" "map_of subs sid = Some spec"
    and "ws_type spec = TimeBased" "reg_cap reg sid < length h"
    and "\<forall>ev \<in> set (drop (length h - reg_cap reg sid) h).
      unat (ev_timestamp_ns trigger) - unat (ws_duration_ns spec) \<le> unat (ev_timestamp_ns ev)"
  shows "\<exists>w. map_of (si_windows (make_snapshot_input trigger subs idx reg reg)) sid = Some w \<and>
    length w = length h \<and> set w \<subseteq> set (drop (length h - reg_cap reg sid) h)"
proof -
  obtain v and sr :: stream_ring where v: "v = stream_view trigger sid spec (st_ring sr)" "ring_log (st_ring sr) h"
    "rv_ring v = Some sid" "unat (rv_end_seq v) = length h"
    and cap: "reg_cap reg sid = ring_cap (st_ring sr)"
    and w: "map_of (si_windows (make_snapshot_input trigger subs idx reg reg)) sid = Some (copy_window reg v)"
    by (rule snapshot_window [OF assms(1-4)]) blast
  let ?c = "cutoff_of (ev_timestamp_ns trigger) spec" and ?l = "drop (length h - reg_cap reg sid) h"
  have last: "seen (st_ring sr) h i \<in> set ?l" if "i < length h" for i
  proof -
    let ?j = "newest_at (length h) (ring_cap (st_ring sr)) i"
    have "?j < length h" "length h \<le> ?j + ring_cap (st_ring sr)"
      using that newest_at_live ring.cap_pos [OF v(2)] by (simp_all add: newest_at_le)
    then have "h ! ?j = ?l ! (?j - (length h - reg_cap reg sid))" "?j - (length h - reg_cap reg sid) < length ?l"
      by (simp_all add: cap)
    then show ?thesis by (metis nth_mem)
  qed
  have b: "unat (rv_begin_seq v) = 0"
    unfolding v(1) stream_view_def ring_view.simps compute_begin_time [OF assms(5)]
    using assms(7) last by (intro time_begin_unique [OF v(2)]) (auto simp: word_le_nat_alt unat_cutoff)
  have "copy_window reg v = map (seen (st_ring sr) h) [0..<length h]"
    using copy_window_log [OF assms(1,2) v(3)] by (simp add: b v(4) cap)
  with w last show ?thesis by auto
qed

theorem snapshot_time_window_lapped_witness:
  "\<exists>reg w. map_of (si_windows (make_snapshot_input (example_event 9)
      [(''s'', \<lparr>ws_type = TimeBased, ws_duration_ns = 6, ws_count = 256\<rparr>)] 0 reg reg)) ''s'' = Some w \<and>
     length w = 6 \<and> set w \<subseteq> {example_event 3, example_event 4, example_event 5, example_event 6}"
proof -
  obtain reg where reg: "reg_repr reg [''s'' \<mapsto> map example_event [1, 2, 3, 4, 5, 6]]" "reg_cap reg ''s'' = 4"
    by (rule example_registry [of "[1, 2, 3, 4, 5, 6]"]) simp_all
  have "\<exists>w. map_of (si_windows (make_snapshot_input (example_event 9)
      [(''s'', \<lparr>ws_type = TimeBased, ws_duration_ns = 6, ws_count = 256\<rparr>)] 0 reg reg)) ''s'' = Some w \<and>
     length w = length (map example_event [1, 2, 3, 4, 5, 6]) \<and>
     set w \<subseteq> set (drop (length (map example_event [1, 2, 3, 4, 5, 6]) - reg_cap reg ''s'')
       (map example_event [1, 2, 3, 4, 5, 6]))"
    by (rule snapshot_time_window_lapped [OF reg(1) fun_upd_same,
        where spec = "\<lparr>ws_type = TimeBased, ws_duration_ns = 6, ws_count = 256\<rparr>"]) (simp_all add: um_ok_def reg(2))
  then show ?thesis by (intro exI [of _ reg]) (simp add: reg(2) numeral_eq_Suc)
qed

text \<open>C11. How long a window stays valid. A view bound when the history of its stream was
  \<open>h\<close>, read when it has grown to \<open>h @ later\<close> (the zero-copy path, and the snapshot
  copied outside the lock), still yields the events it was bound to as long as the writer has
  not lapped its oldest position; once it has, the first event read is one that was written at
  least a whole ring later.\<close>

theorem window_stays_valid:
  assumes "reg_repr reg m" "m sid = Some h" "um_ok subs" "map_of subs sid = Some spec"
    and "map_of (window_views trigger subs reg) sid = Some v"
    and "reg_repr reg' m'" "m' sid = Some (h @ later)" "reg_cap reg' sid = reg_cap reg sid"
  shows "(length (h @ later) \<le> unat (rv_begin_seq v) + reg_cap reg sid \<longrightarrow>
      copy_window reg' v = drop (unat (rv_begin_seq v)) h) \<and>
    (unat (rv_begin_seq v) < length h \<and> unat (rv_begin_seq v) + reg_cap reg sid < length (h @ later) \<longrightarrow>
      (\<exists>j. unat (rv_begin_seq v) + reg_cap reg sid \<le> j \<and> j < length (h @ later) \<and>
         hd (copy_window reg' v) = (h @ later) ! j))"
proof -
  obtain w and sr :: stream_ring where w: "map_of (window_views trigger subs reg) sid = Some w"
    "rv_ring w = Some sid" "unat (rv_end_seq w) = length h" and "ring_log (st_ring sr) h"
    "reg_cap reg sid = ring_cap (st_ring sr)"
    by (rule snapshot_window [OF assms(1-4)]) blast
  then have v: "rv_ring v = Some sid" "unat (rv_end_seq v) = length h" and cap: "0 < reg_cap reg sid"
    using assms(5) ring.cap_pos by simp_all
  let ?b = "unat (rv_begin_seq v)" and ?h = "h @ later"
  have e: "unat (rv_end_seq v) \<le> length ?h" by (simp add: v(2))
  have "copy_window reg' v = drop ?b h" if "length ?h \<le> ?b + reg_cap reg sid"
    using copy_window_live [OF assms(6,7) v(1) e] that by (simp add: v(2) assms(8))
  moreover have "\<exists>j. ?b + reg_cap reg sid \<le> j \<and> j < length ?h \<and> hd (copy_window reg' v) = ?h ! j"
    if "?b < length h" "?b + reg_cap reg sid < length ?h"
  proof -
    let ?j = "newest_at (length ?h) (reg_cap reg sid) ?b"
    have j: "?j < length ?h" "length ?h \<le> ?j + reg_cap reg sid" "?j mod reg_cap reg sid = ?b mod reg_cap reg sid"
      using that cap by (simp_all add: newest_at_le newest_at_live newest_at_slot)
    have "?b < ?j" using j(2) that(2) by linarith
    then have "reg_cap reg sid \<le> ?j - ?b"
      using j(3) by (intro dvd_imp_le) (simp_all add: mod_eq_dvd_iff_nat)
    moreover have "hd (copy_window reg' v) = ?h ! ?j"
      using that(1) by (simp add: copy_window_log [OF assms(6,7) v(1) e] v(2) assms(8) upt_conv_Cons)
    ultimately show ?thesis using j(1) \<open>?b < ?j\<close> by (intro exI [of _ ?j]) simp
  qed
  ultimately show ?thesis by blast
qed

theorem window_stays_valid_witness:
  "\<exists>reg reg' v. map_of (window_views (example_event 9) [(''s'', window_spec_default\<lparr>ws_count := 2\<rparr>)] reg) ''s'' = Some v \<and>
     reg_repr reg' [''s'' \<mapsto> map example_event [1, 2, 3, 4, 5]] \<and> unat (rv_begin_seq v) = 1 \<and>
     copy_window reg' v = map example_event [2, 3]"
proof -
  obtain reg where reg: "reg_repr reg [''s'' \<mapsto> map example_event [1, 2, 3]]" "reg_cap reg ''s'' = 4"
    by (rule example_registry [of "[1, 2, 3]"]) simp_all
  obtain reg' where reg': "reg_repr reg' [''s'' \<mapsto> map example_event [1, 2, 3] @ map example_event [4, 5]]"
    "reg_cap reg' ''s'' = 4"
    by (rule example_registry [of "[1, 2, 3] @ [4, 5]"]) (simp_all only: map_append, simp_all)
  let ?spec = "window_spec_default\<lparr>ws_count := 2\<rparr>" and ?subs = "[(''s'', window_spec_default\<lparr>ws_count := 2\<rparr>)]"
  have s: "um_ok ?subs" "map_of ?subs ''s'' = Some ?spec" by (simp_all add: um_ok_def)
  obtain sr where sr: "map_of (wr_rings reg) ''s'' = Some sr" "ring_log (st_ring sr) (map example_event [1, 2, 3])"
    by (rule reg_repr_ring [OF reg(1) fun_upd_same])
  let ?v = "stream_view (example_event 9) ''s'' ?spec (st_ring sr)"
  have v: "map_of (window_views (example_event 9) ?subs reg) ''s'' = Some ?v"
    by (simp only: map_of_window_views [OF s(1)] s(2) sr(1) option.case prod.case)
  have b: "unat (rv_begin_seq ?v) = 1"
    using compute_begin_count [OF sr(2), of ?spec] by (simp add: stream_view_def window_spec_default_def)
  have "copy_window reg' ?v = drop 1 (map example_event [1, 2, 3])"
    using window_stays_valid [OF reg(1) fun_upd_same s v reg'(1) fun_upd_same] reg(2) reg'(2) b by simp
  with reg' v b show ?thesis by (intro exI conjI) (assumption | simp)+
qed



end
