(* ===== verification/Stream_Router.thy ===== *)
theory Stream_Router
  imports Publisher Window_Laws
begin

text \<open>
  \<^verbatim>\<open>core/stream_router.hpp\<close>: the routing table, the script queues and the two
  operations of the hot path, \<^verbatim>\<open>route\<close> (called by ingestors, scripts and the
  telemetry) and \<^verbatim>\<open>wait_for_trigger\<close> (called by one script thread per queue). The
  router shares the registry, the publisher and the telemetry with the rest of the pipeline;
  \<open>core\<close> bundles them. Each operation is atomic here; what two threads routing to one
  queue can do to each other is in \<open>Ring_Interleaving\<close>.
\<close>

section \<open>Data\<close>

record subscription =
  su_trigger_stream :: string
  su_windows :: "window_spec umap"

record 'd handler_entry =
  he_sub :: subscription
  he_dispatch :: 'd
  he_queue_index :: nat

record script_queue =
  sq_ring :: "event ring"
  sq_stopped :: bool

text \<open>\<open>rt_unknown\<close> lists the messages about unknown targets: the target and the stream.\<close>

record 'd router =
  rt_telemetry :: bool
  rt_publisher :: bool
  rt_handlers :: "'d handler_entry umap"
  rt_route_table :: "string list umap"
  rt_queues :: "script_queue list"
  rt_read_positions :: "u64 list"
  rt_unknown :: "(string \<times> string) list"

record ('ep, 'd) core =
  co_router :: "'d router"
  co_registry :: registry
  co_publisher :: "'ep publisher"
  co_telemetry :: telemetry

definition router_new :: "'d router" where
  "router_new = \<lparr>rt_telemetry = False, rt_publisher = False, rt_handlers = [], rt_route_table = [],
     rt_queues = [], rt_read_positions = [], rt_unknown = []\<rparr>"

definition router_set_telemetry :: "bool \<Rightarrow> 'd router \<Rightarrow> 'd router" where
  "router_set_telemetry present r = r\<lparr>rt_telemetry := present\<rparr>"

definition set_routes :: "string list umap \<Rightarrow> 'd router \<Rightarrow> 'd router" where
  "set_routes routes r = r\<lparr>rt_route_table := routes\<rparr>"

definition set_publisher :: "bool \<Rightarrow> 'd router \<Rightarrow> 'd router" where
  "set_publisher present r = r\<lparr>rt_publisher := present\<rparr>"

section \<open>Queues\<close>

text \<open>\<open>None\<close> is the failed assertion of the ring's constructor; the pipeline uses the default
  capacity.\<close>

definition QUEUE_CAPACITY :: u64 where
  "QUEUE_CAPACITY = 1024"

definition register_script_queue :: "u64 \<Rightarrow> 'd router \<Rightarrow> (nat \<times> 'd router) option" where
  "register_script_queue capacity r =
     (case ring_new event_default capacity of
        None \<Rightarrow> None
      | Some q \<Rightarrow> Some (length (rt_queues r),
          r\<lparr>rt_queues := rt_queues r @ [\<lparr>sq_ring = q, sq_stopped = False\<rparr>],
            rt_read_positions := rt_read_positions r @ [0]\<rparr>))"

definition register_handler :: "string \<Rightarrow> subscription \<Rightarrow> 'd \<Rightarrow> nat \<Rightarrow> 'd router \<Rightarrow> 'd router" where
  "register_handler script_id sub dispatch queue_index r =
     r\<lparr>rt_handlers := AList.update script_id
        \<lparr>he_sub = sub, he_dispatch = dispatch, he_queue_index = queue_index\<rparr> (rt_handlers r)\<rparr>"

definition queue_put :: "event \<Rightarrow> script_queue \<Rightarrow> script_queue" where
  "queue_put ev q = q\<lparr>sq_ring := snd (ring_write (sq_ring q) ev)\<rparr>"

text \<open>
  One look of a script thread at its queue and read position: it blocks while there is
  nothing to read and the queue is not stopped, or it returns, possibly nothing.
\<close>

datatype wait_result = Blocked | Returned "event option"

definition queue_take :: "script_queue \<Rightarrow> u64 \<Rightarrow> wait_result \<times> u64" where
  "queue_take q read_pos =
     (let head = ring_head (sq_ring q)
      in if \<not> (sq_stopped q \<or> head > read_pos) then (Blocked, read_pos)
         else if sq_stopped q then (Returned None, read_pos)
         else if head \<le> read_pos then (Returned None, read_pos)
         else case ring_read (sq_ring q) read_pos of
                None \<Rightarrow> (Returned None, read_pos)
              | Some ev \<Rightarrow> (Returned (Some ev), read_pos + 1))"

definition wait_for_trigger :: "nat \<Rightarrow> 'd router \<Rightarrow> wait_result \<times> 'd router" where
  "wait_for_trigger queue_idx r =
     (if queue_idx \<ge> length (rt_queues r) then (Returned None, r)
      else let (res, pos) = queue_take (rt_queues r ! queue_idx) (rt_read_positions r ! queue_idx)
           in (res, r\<lparr>rt_read_positions := (rt_read_positions r)[queue_idx := pos]\<rparr>))"

definition stop_all_queues :: "'d router \<Rightarrow> 'd router" where
  "stop_all_queues r = r\<lparr>rt_queues := map (\<lambda>q. q\<lparr>sq_stopped := True\<rparr>) (rt_queues r)\<rparr>"

section \<open>Routing\<close>

text \<open>The body of the loop over the targets: \<open>sid\<close> is the stream of the event.\<close>

definition deliver ::
  "(event \<Rightarrow> 'ep \<Rightarrow> 'ep option) \<Rightarrow> event \<Rightarrow> string \<Rightarrow> string \<Rightarrow> ('ep, 'd) core \<Rightarrow> ('ep, 'd) core option" where
  "deliver pub ev sid target_id c =
     (let r = co_router c in
      case map_of (rt_handlers r) target_id of
        Some he \<Rightarrow>
          (let qidx = he_queue_index he in
           if qidx < length (rt_queues r)
           then Some (c\<lparr>co_router := r\<lparr>rt_queues := (rt_queues r)[qidx := queue_put ev (rt_queues r ! qidx)]\<rparr>\<rparr>)
           else Some c)
      | None \<Rightarrow>
          if rt_publisher r \<and> has_endpoint target_id (co_publisher c)
          then (case publish_to pub ev target_id (co_publisher c) (co_telemetry c) of
                  None \<Rightarrow> None
                | Some (p, tel) \<Rightarrow> Some (c\<lparr>co_publisher := p, co_telemetry := tel\<rparr>))
          else Some (c\<lparr>co_router := r\<lparr>rt_unknown := rt_unknown r @ [(target_id, sid)]\<rparr>\<rparr>))"

fun deliver_all ::
  "(event \<Rightarrow> 'ep \<Rightarrow> 'ep option) \<Rightarrow> event \<Rightarrow> string \<Rightarrow> string list \<Rightarrow> ('ep, 'd) core \<Rightarrow> ('ep, 'd) core option" where
  "deliver_all pub ev sid [] c = Some c"
| "deliver_all pub ev sid (t # ts) c =
     (case deliver pub ev sid t c of None \<Rightarrow> None | Some c' \<Rightarrow> deliver_all pub ev sid ts c')"

definition route :: "(event \<Rightarrow> 'ep \<Rightarrow> 'ep option) \<Rightarrow> event \<Rightarrow> ('ep, 'd) core \<Rightarrow> ('ep, 'd) core option" where
  "route pub ev c =
     (case stream_of ev of
        None \<Rightarrow> None
      | Some sid \<Rightarrow>
          (let tel = (if rt_telemetry (co_router c) then record_event sid (co_telemetry c) else co_telemetry c)
           in case push ev (co_registry c) tel of
                None \<Rightarrow> None
              | Some (seq, reg, tel') \<Rightarrow>
                  (let c' = c\<lparr>co_registry := reg, co_telemetry := tel'\<rparr>
                   in case map_of (rt_route_table (co_router c)) sid of
                        None \<Rightarrow> Some c'
                      | Some targets \<Rightarrow> deliver_all pub ev sid targets c')))"

fun route_all :: "(event \<Rightarrow> 'ep \<Rightarrow> 'ep option) \<Rightarrow> event list \<Rightarrow> ('ep, 'd) core \<Rightarrow> ('ep, 'd) core option" where
  "route_all pub [] c = Some c"
| "route_all pub (ev # evs) c =
     (case route pub ev c of None \<Rightarrow> None | Some c' \<Rightarrow> route_all pub evs c')"

section \<open>The telemetry's tick\<close>

text \<open>One round of \<^verbatim>\<open>emit_metrics\<close> after its sleep; \<open>now\<close> is the time it works
  with (not zero, because a zero clock is read again).\<close>

definition emit_tick :: "(event \<Rightarrow> 'ep \<Rightarrow> 'ep option) \<Rightarrow> u64 \<Rightarrow> ('ep, 'd) core \<Rightarrow> ('ep, 'd) core option" where
  "emit_tick pub now c =
     (if \<not> tm_enabled (co_telemetry c) then Some c
      else let (ok, chunks, tel) = pack_stream_metrics now (co_telemetry c);
               c1 = c\<lparr>co_telemetry := tel\<rparr>
           in case (if ok then route_all pub (List.map_filter (metric_event ''streams_v1'' now) chunks) c1
                    else Some c1) of
                None \<Rightarrow> None
              | Some c2 \<Rightarrow>
                  (let (ok', chunks', tel') = pack_script_metrics now now (co_telemetry c2);
                       c3 = c2\<lparr>co_telemetry := tel'\<rparr>
                   in if ok' then route_all pub (List.map_filter (metric_event ''scripts_v1'' now) chunks') c3
                      else Some c3))"

end
