(* ===== verification/Router_Laws.thy ===== *)
theory Router_Laws
  imports Stream_Router
begin

text \<open>
  What the router guarantees. A script queue is a bounded first-in first-out queue (the locale
  \<open>fifo_queue\<close>, interpreted with the queue of the code: a ring and a read position); and
  \<^verbatim>\<open>route\<close> gives each queue and each endpoint exactly the copies the routing table
  asks for.
\<close>

section \<open>First in, first out\<close>

text \<open>The elements a run puts, and whether the backlog, \<open>n\<close> at the start, stays within
  \<open>limit\<close>: \<open>Some e\<close> puts an element, \<open>None\<close> takes one.\<close>

fun puts_of :: "'e option list \<Rightarrow> 'e list" where
  "puts_of [] = []"
| "puts_of (Some e # ops) = e # puts_of ops"
| "puts_of (None # ops) = puts_of ops"

fun backlog_ok :: "nat \<Rightarrow> nat \<Rightarrow> 'e option list \<Rightarrow> bool" where
  "backlog_ok limit n [] = True"
| "backlog_ok limit n (Some e # ops) = (n < limit \<and> backlog_ok limit (Suc n) ops)"
| "backlog_ok limit n (None # ops) = backlog_ok limit (n - 1) ops"

text \<open>
  A bounded queue with one consumer: \<open>content\<close> relates a queue to the elements waiting in
  it; while fewer than \<open>limit\<close> wait, an element can be put at the end, and taking returns
  the first one or reports that there is none. \<open>used\<close> counts the elements ever put.
\<close>

locale fifo_queue =
  fixes content :: "'q \<Rightarrow> 'e list \<Rightarrow> bool" and limit :: "'q \<Rightarrow> nat" and used :: "'q \<Rightarrow> nat"
    and enq :: "'e \<Rightarrow> 'q \<Rightarrow> 'q" and deq :: "'q \<Rightarrow> 'e option \<times> 'q"
  assumes enq_content: "content q xs \<Longrightarrow> length xs < limit q \<Longrightarrow> Suc (used q) < 2 ^ 64 \<Longrightarrow>
      content (enq e q) (xs @ [e])"
    and enq_used: "Suc (used q) < 2 ^ 64 \<Longrightarrow> used (enq e q) = Suc (used q)"
    and enq_limit: "limit (enq e q) = limit q"
    and deq_empty: "content q [] \<Longrightarrow> deq q = (None, q)"
    and deq_content: "content q (x # xs) \<Longrightarrow> \<exists>q'. deq q = (Some x, q') \<and> content q' xs"
    and deq_frame: "used (snd (deq q)) = used q" "limit (snd (deq q)) = limit q"
begin

fun run :: "'e option list \<Rightarrow> 'q \<Rightarrow> 'e list \<times> 'q" where
  "run [] q = ([], q)"
| "run (Some e # ops) q = run ops (enq e q)"
| "run (None # ops) q =
     (case deq q of (r, q') \<Rightarrow> case run ops q' of (xs, q'') \<Rightarrow> (case r of None \<Rightarrow> xs | Some x \<Rightarrow> x # xs, q''))"

lemma run_fifo:
  assumes "content q xs" "backlog_ok (limit q) (length xs) ops" "used q + length ops < 2 ^ 64"
  shows "\<exists>rest. content (snd (run ops q)) rest \<and> fst (run ops q) @ rest = xs @ puts_of ops"
  using assms
proof (induction ops arbitrary: q xs)
  case Nil
  then show ?case by simp
next
  case (Cons op ops)
  show ?case
  proof (cases op)
    case (Some e)
    with Cons.prems have len: "Suc (used q) < 2 ^ 64" and n: "length xs < limit q"
      and b: "backlog_ok (limit q) (Suc (length xs)) ops" by simp_all
    have "\<exists>rest. content (snd (run ops (enq e q))) rest \<and>
        fst (run ops (enq e q)) @ rest = (xs @ [e]) @ puts_of ops"
      by (rule Cons.IH [OF enq_content [OF Cons.prems(1) n len]])
        (use Cons.prems(3) b in \<open>simp_all add: enq_limit enq_used [OF len]\<close>)
    then show ?thesis by (simp add: Some)
  next
    case None
    show ?thesis
    proof (cases xs)
      case Nil
      from Cons.prems(1) have d: "deq q = (None, q)" unfolding Nil by (rule deq_empty)
      have "\<exists>rest. content (snd (run ops q)) rest \<and> fst (run ops q) @ rest = xs @ puts_of ops"
        by (rule Cons.IH [OF Cons.prems(1)]) (use Cons.prems(2,3) in \<open>simp_all add: None Nil\<close>)
      then show ?thesis by (cases "run ops q") (simp add: None d)
    next
      case (Cons x ys)
      from deq_content [OF Cons.prems(1) [unfolded Cons]] obtain q1 where
        d: "deq q = (Some x, q1)" "content q1 ys" by blast
      have "used q1 = used q" "limit q1 = limit q" using deq_frame [of q] by (simp_all add: d)
      then have "\<exists>rest. content (snd (run ops q1)) rest \<and> fst (run ops q1) @ rest = ys @ puts_of ops"
        using Cons.prems(2,3) by (intro Cons.IH [OF d(2)]) (simp_all add: None Cons)
      then show ?thesis by (cases "run ops q1") (simp add: None Cons d(1))
    qed
  qed
qed

end

text \<open>The queue of one script: the ring and the read position.\<close>

definition q_content :: "script_queue \<times> u64 \<Rightarrow> event list \<Rightarrow> bool" where
  "q_content = (\<lambda>(q, pos) xs. \<exists>h. ring_log (sq_ring q) h \<and> unat pos \<le> length h \<and>
     length h \<le> unat pos + ring_cap (sq_ring q) \<and> xs = drop (unat pos) h \<and> \<not> sq_stopped q)"

definition q_limit :: "script_queue \<times> u64 \<Rightarrow> nat" where
  "q_limit = (\<lambda>(q, pos). ring_cap (sq_ring q))"

definition q_used :: "script_queue \<times> u64 \<Rightarrow> nat" where
  "q_used = (\<lambda>(q, pos). unat (ring_head (sq_ring q)))"

definition q_enq :: "event \<Rightarrow> script_queue \<times> u64 \<Rightarrow> script_queue \<times> u64" where
  "q_enq ev = (\<lambda>(q, pos). (queue_put ev q, pos))"

definition q_deq :: "script_queue \<times> u64 \<Rightarrow> event option \<times> (script_queue \<times> u64)" where
  "q_deq = (\<lambda>(q, pos). case queue_take q pos of
     (Returned (Some ev), pos') \<Rightarrow> (Some ev, (q, pos')) | (_, pos') \<Rightarrow> (None, (q, pos')))"

lemma queue_take_next:
  assumes "ring_log (sq_ring q) h" "unat pos < length h" "length h \<le> unat pos + ring_cap (sq_ring q)"
    "\<not> sq_stopped q"
  shows "queue_take q pos = (Returned (Some (h ! unat pos)), pos + 1)"
proof -
  have "pos < ring_head (sq_ring q)" using assms(2) by (simp add: word_less_nat_alt ring.head_log [OF assms(1)])
  then show ?thesis using ring.read_live [OF assms(1-3)] assms(4) by (auto simp: queue_take_def Let_def not_le)
qed

lemma queue_take_blocked:
  assumes "ring_log (sq_ring q) h" "length h \<le> unat pos" "\<not> sq_stopped q"
  shows "queue_take q pos = (Blocked, pos)"
proof -
  have "\<not> pos < ring_head (sq_ring q)" using assms(2) by (simp add: word_less_nat_alt ring.head_log [OF assms(1)])
  then show ?thesis using assms(3) by (simp add: queue_take_def Let_def)
qed

lemma q_deq_queue: "\<exists>pos'. snd (q_deq (q, pos)) = (q, pos')"
  by (auto simp: q_deq_def split: prod.split wait_result.split option.split)

interpretation script_fifo: fifo_queue q_content q_limit q_used q_enq q_deq
proof (unfold_locales, goal_cases)
  case (1 s xs e)
  obtain q pos where s: "s = (q, pos)" by fastforce
  from 1(1) obtain h where h: "ring_log (sq_ring q) h" "unat pos \<le> length h"
    "length h \<le> unat pos + ring_cap (sq_ring q)" "xs = drop (unat pos) h" "\<not> sq_stopped q"
    by (auto simp: s q_content_def)
  from 1(3) have len: "Suc (length h) < 2 ^ 64" by (simp add: s q_used_def ring.head_log [OF h(1)])
  show ?case unfolding s q_enq_def q_content_def prod.case queue_put_def
    by (rule exI [of _ "h @ [e]"])
      (use h 1(2) ring.write_log [OF h(1) len] in \<open>auto simp: s q_limit_def\<close>)
next
  case (2 s e)
  then show ?case
    by (cases s) (simp add: q_used_def q_enq_def queue_put_def ring_write_def ring_head_def Let_def unat_Suc_bound)
next
  case (3 e s)
  show ?case by (cases s) (simp add: q_limit_def q_enq_def queue_put_def)
next
  case (4 s)
  then show ?case by (cases s) (auto simp: q_content_def q_deq_def queue_take_blocked)
next
  case (5 s x xs)
  obtain q pos where s: "s = (q, pos)" by fastforce
  from 5 obtain h where h: "ring_log (sq_ring q) h" "unat pos \<le> length h"
    "length h \<le> unat pos + ring_cap (sq_ring q)" "x # xs = drop (unat pos) h" "\<not> sq_stopped q"
    by (auto simp: s q_content_def)
  from h(4) have lt: "unat pos < length h" by (metis drop_all list.distinct(1) not_le)
  then have "x = h ! unat pos" "xs = drop (Suc (unat pos)) h"
    using h(4) by (simp_all add: Cons_nth_drop_Suc [symmetric])
  moreover have "unat (pos + 1) = Suc (unat pos)"
    using lt ring.log_short [OF h(1)] by (intro unat_Suc_bound) simp
  ultimately show ?case using lt h
    by (auto simp: s q_deq_def q_content_def queue_take_next)
next
  case (6 s)
  show ?case using q_deq_queue by (cases s) (metis (mono_tags, lifting) prod.case q_used_def)
next
  case (7 s)
  show ?case using q_deq_queue by (cases s) (metis (mono_tags, lifting) prod.case q_limit_def)
qed

section \<open>What a target receives\<close>

definition queues_repr :: "'d router \<Rightarrow> event list list \<Rightarrow> bool" where
  "queues_repr r hs \<longleftrightarrow> length hs = length (rt_queues r) \<and> length (rt_read_positions r) = length (rt_queues r) \<and>
     (\<forall>i < length hs. ring_log (sq_ring (rt_queues r ! i)) (hs ! i))"

text \<open>How often a list of targets names queue \<open>i\<close>, endpoint \<open>e\<close>, or nothing.\<close>

definition to_queue :: "'d router \<Rightarrow> nat \<Rightarrow> string \<Rightarrow> bool" where
  "to_queue r i t \<longleftrightarrow> (\<exists>he. map_of (rt_handlers r) t = Some he \<and> he_queue_index he = i)"

definition to_endpoint :: "('ep, 'd) core \<Rightarrow> string \<Rightarrow> bool" where
  "to_endpoint c t \<longleftrightarrow> map_of (rt_handlers (co_router c)) t = None \<and> rt_publisher (co_router c) \<and>
     has_endpoint t (co_publisher c)"

definition to_nothing :: "('ep, 'd) core \<Rightarrow> string \<Rightarrow> bool" where
  "to_nothing c t \<longleftrightarrow> map_of (rt_handlers (co_router c)) t = None \<and> \<not> to_endpoint c t"

definition published :: "(event \<Rightarrow> 'ep \<Rightarrow> 'ep option) \<Rightarrow> event \<Rightarrow> nat \<Rightarrow> 'ep \<Rightarrow> 'ep" where
  "published pub ev n ep = ((\<lambda>ep. the (pub ev ep)) ^^ n) ep"

lemma published_simps [simp]: "published pub ev 0 = (\<lambda>ep. ep)"
  "published pub ev (Suc n) = (\<lambda>ep. published pub ev n (the (pub ev ep)))"
  by (rule ext, simp add: published_def funpow_Suc_right del: funpow.simps)+

definition queues_after :: "'d router \<Rightarrow> event \<Rightarrow> string list \<Rightarrow> event list list \<Rightarrow> event list list" where
  "queues_after r ev ts hs = map (\<lambda>i. hs ! i @ replicate (length (filter (to_queue r i) ts)) ev) [0..<length hs]"

lemma queues_after_simps [simp]: "length (queues_after r ev ts hs) = length hs"
  "i < length hs \<Longrightarrow> queues_after r ev ts hs ! i = hs ! i @ replicate (length (filter (to_queue r i) ts)) ev"
  by (simp_all add: queues_after_def)

text \<open>The effect of delivering to a list of targets.\<close>

definition delivers ::
  "(event \<Rightarrow> 'ep \<Rightarrow> 'ep option) \<Rightarrow> event \<Rightarrow> string \<Rightarrow> string list \<Rightarrow> ('ep, 'd) core \<Rightarrow> ('ep, 'd) core \<Rightarrow> event list list \<Rightarrow> bool" where
  "delivers pub ev sid ts c c' hs \<longleftrightarrow>
     queues_repr (co_router c') (queues_after (co_router c) ev ts hs) \<and>
     (\<forall>e. map_of (pb_endpoints (co_publisher c')) e =
        map_option (published pub ev (length (filter (\<lambda>t. t = e \<and> to_endpoint c t) ts)))
          (map_of (pb_endpoints (co_publisher c)) e)) \<and>
     rt_unknown (co_router c') = rt_unknown (co_router c) @ map (\<lambda>t. (t, sid)) (filter (to_nothing c) ts) \<and>
     rt_handlers (co_router c') = rt_handlers (co_router c) \<and>
     rt_publisher (co_router c') = rt_publisher (co_router c) \<and>
     rt_read_positions (co_router c') = rt_read_positions (co_router c) \<and>
     rt_route_table (co_router c') = rt_route_table (co_router c) \<and>
     rt_telemetry (co_router c') = rt_telemetry (co_router c) \<and>
     map sq_stopped (rt_queues (co_router c')) = map sq_stopped (rt_queues (co_router c)) \<and>
     co_registry c' = co_registry c"

lemma queues_after_none: "(\<And>i. i < length hs \<Longrightarrow> \<not> (\<exists>t \<in> set ts. to_queue r i t)) \<Longrightarrow> queues_after r ev ts hs = hs"
  by (rule nth_equalityI) (auto simp: filter_empty_conv)

lemma queues_after_one:
  assumes "\<And>i. to_queue r i t \<longleftrightarrow> i = q" "q < length hs"
  shows "queues_after r ev [t] hs = hs[q := hs ! q @ [ev]]"
  using assms by (intro nth_equalityI) (auto simp: nth_list_update)

lemma delivers_Nil: "queues_repr (co_router c) hs \<Longrightarrow> delivers pub ev sid [] c c hs"
  by (simp add: delivers_def queues_after_none option.map_ident)

lemma queue_put_repr:
  assumes "queues_repr r hs" "q < length hs" "Suc (length (hs ! q)) < 2 ^ 64"
  shows "queues_repr (r\<lparr>rt_queues := (rt_queues r)[q := queue_put ev (rt_queues r ! q)]\<rparr>)
    (hs[q := hs ! q @ [ev]])"
proof -
  have "ring_log (sq_ring (queue_put ev (rt_queues r ! q))) (hs ! q @ [ev])"
    using assms by (simp add: queue_put_def queues_repr_def ring.write_log)
  with assms(1,2) show ?thesis by (auto simp: queues_repr_def nth_list_update)
qed

lemma stopped_put: "map sq_stopped (qs[q := queue_put ev (qs ! q)]) = map sq_stopped qs"
  by (cases "q < length qs") (simp_all add: map_update queue_put_def list_update_beyond, metis list_update_id nth_map)

lemma emitted_one_terminated: "stream_of ev = Some sid \<Longrightarrow> \<exists>tel'. emitted_one ev p tel = Some tel'"
  by (simp add: emitted_one_def)

lemma deliver_one:
  assumes "queues_repr (co_router c) hs" "\<forall>h \<in> set hs. Suc (length h) < 2 ^ 64"
    and "stream_of ev = Some sid" "\<forall>ep. pub ev ep \<noteq> None"
  shows "\<exists>c'. deliver pub ev sid t c = Some c' \<and> delivers pub ev sid [t] c c' hs \<and>
    (\<forall>x. has_endpoint x (co_publisher c') = has_endpoint x (co_publisher c))"
proof (cases "map_of (rt_handlers (co_router c)) t")
  case (Some he)
  let ?q = "he_queue_index he" and ?r = "co_router c"
  have f: "to_queue ?r i t \<longleftrightarrow> i = ?q" for i
    by (auto simp: to_queue_def Some)
  have e: "\<not> to_endpoint c t" "\<not> to_nothing c t" by (simp_all add: to_endpoint_def to_nothing_def Some)
  have len: "length hs = length (rt_queues ?r)" using assms(1) by (simp add: queues_repr_def)
  show ?thesis
  proof (cases "?q < length (rt_queues ?r)")
    case True
    let ?c = "c\<lparr>co_router := ?r\<lparr>rt_queues := (rt_queues ?r)[?q := queue_put ev (rt_queues ?r ! ?q)]\<rparr>\<rparr>"
    have "queues_after ?r ev [t] hs = hs[?q := hs ! ?q @ [ev]]"
      using True len by (intro queues_after_one f) simp
    moreover have "queues_repr (co_router ?c) (hs[?q := hs ! ?q @ [ev]])"
      using queue_put_repr [OF assms(1), of ?q ev] True len assms(2) by simp
    ultimately have "delivers pub ev sid [t] c ?c hs"
      by (simp add: delivers_def e stopped_put option.map_ident)
    then show ?thesis by (simp add: deliver_def Some True Let_def)
  next
    case False
    then have "queues_after ?r ev [t] hs = hs" using len by (intro queues_after_none) (simp add: f)
    then have "delivers pub ev sid [t] c c hs"
      using assms(1) by (simp add: delivers_def e option.map_ident)
    then show ?thesis by (simp add: deliver_def Some False)
  qed
next
  case None
  then have same: "queues_after (co_router c) ev [t] hs = hs"
    by (intro queues_after_none) (simp add: to_queue_def)
  show ?thesis
  proof (cases "to_endpoint c t")
    case True
    then obtain ep where ep: "map_of (pb_endpoints (co_publisher c)) t = Some ep"
      by (auto simp: to_endpoint_def has_endpoint_def)
    obtain ep' where ep': "pub ev ep = Some ep'" using assms(4) by blast
    obtain tel where tel: "emitted_one ev (co_publisher c) (co_telemetry c) = Some tel"
      using emitted_one_terminated [OF assms(3)] by blast
    let ?p = "(co_publisher c)\<lparr>pb_endpoints := AList.update t ep' (pb_endpoints (co_publisher c))\<rparr>"
    let ?c = "c\<lparr>co_publisher := ?p, co_telemetry := tel\<rparr>"
    have p: "publish_to pub ev t (co_publisher c) (co_telemetry c) = Some (?p, tel)"
      by (simp add: publish_to_def ep ep' tel)
    have "map_of (pb_endpoints ?p) e = map_option (published pub ev (length (filter (\<lambda>t. t = e \<and> to_endpoint c t) [t])))
        (map_of (pb_endpoints (co_publisher c)) e)" for e
      using True by (auto simp: umap_simps ep ep' option.map_ident)
    moreover have "\<not> to_nothing c t" using True by (simp add: to_nothing_def)
    ultimately have "delivers pub ev sid [t] c ?c hs"
      using assms(1) same by (simp add: delivers_def)
    moreover have "deliver pub ev sid t c = Some ?c" using True None by (simp add: deliver_def to_endpoint_def p)
    ultimately show ?thesis using has_endpoint_publish_to [OF p] by auto
  next
    case False
    let ?c = "c\<lparr>co_router := (co_router c)\<lparr>rt_unknown := rt_unknown (co_router c) @ [(t, sid)]\<rparr>\<rparr>"
    have "to_nothing c t" using False None by (simp add: to_nothing_def)
    then have "delivers pub ev sid [t] c ?c hs"
      using assms(1) same False
      by (simp add: delivers_def queues_repr_def option.map_ident)
    moreover have "deliver pub ev sid t c = Some ?c" using False None by (auto simp: deliver_def to_endpoint_def Let_def)
    ultimately show ?thesis by simp
  qed
qed

lemma queues_after_Cons:
  assumes "rt_handlers r' = rt_handlers r"
  shows "queues_after r' ev ts (queues_after r ev [t] hs) = queues_after r ev (t # ts) hs"
proof (rule nth_equalityI)
  fix i assume "i < length (queues_after r' ev ts (queues_after r ev [t] hs))"
  moreover have "to_queue r' i = to_queue r i" by (rule ext) (simp add: to_queue_def assms)
  ultimately show "queues_after r' ev ts (queues_after r ev [t] hs) ! i = queues_after r ev (t # ts) hs ! i"
    by simp
qed simp

lemma delivers_Cons:
  assumes "delivers pub ev sid [t] c c1 hs" "delivers pub ev sid ts c1 c2 (queues_after (co_router c) ev [t] hs)"
    and "\<forall>x. has_endpoint x (co_publisher c1) = has_endpoint x (co_publisher c)"
  shows "delivers pub ev sid (t # ts) c c2 hs"
proof -
  have h: "rt_handlers (co_router c1) = rt_handlers (co_router c)" "rt_publisher (co_router c1) = rt_publisher (co_router c)"
    using assms(1) by (simp_all add: delivers_def)
  then have te: "to_endpoint c1 = to_endpoint c" using assms(3) by (intro ext) (simp add: to_endpoint_def)
  then have tn: "to_nothing c1 = to_nothing c" using h by (intro ext) (simp add: to_nothing_def)
  have "map_of (pb_endpoints (co_publisher c2)) e =
      map_option (published pub ev (length (filter (\<lambda>t. t = e \<and> to_endpoint c t) (t # ts))))
        (map_of (pb_endpoints (co_publisher c)) e)" for e
  proof -
    have "map_of (pb_endpoints (co_publisher c1)) e =
        map_option (published pub ev (length (filter (\<lambda>t. t = e \<and> to_endpoint c t) [t])))
          (map_of (pb_endpoints (co_publisher c)) e)"
      using assms(1) unfolding delivers_def by blast
    moreover have "map_of (pb_endpoints (co_publisher c2)) e =
        map_option (published pub ev (length (filter (\<lambda>t. t = e \<and> to_endpoint c t) ts)))
          (map_of (pb_endpoints (co_publisher c1)) e)"
      using assms(2) unfolding delivers_def te by blast
    ultimately show ?thesis
      by (cases "t = e \<and> to_endpoint c t") (auto simp: option.map_comp comp_def option.map_ident)
  qed
  then show ?thesis
    using assms(1,2) queues_after_Cons [OF h(1), of ev ts t hs]
    by (auto simp: delivers_def te tn)
qed

lemma deliver_all_delivers:
  assumes "queues_repr (co_router c) hs" "\<forall>h \<in> set hs. length h + length ts < 2 ^ 64"
    and "stream_of ev = Some sid" "\<forall>ep. pub ev ep \<noteq> None"
  shows "\<exists>c'. deliver_all pub ev sid ts c = Some c' \<and> delivers pub ev sid ts c c' hs"
  using assms(1,2)
proof (induction ts arbitrary: c hs)
  case Nil
  then show ?case by (auto simp: delivers_Nil)
next
  case (Cons t ts)
  let ?hs = "queues_after (co_router c) ev [t] hs"
  have "\<forall>h \<in> set hs. Suc (length h) < 2 ^ 64" using Cons.prems(2) by auto
  with deliver_one [of c hs ev sid pub t] Cons.prems(1) assms(3,4) obtain c1 where
    c1: "deliver pub ev sid t c = Some c1" "delivers pub ev sid [t] c c1 hs"
    "\<forall>x. has_endpoint x (co_publisher c1) = has_endpoint x (co_publisher c)" by blast
  have "queues_repr (co_router c1) ?hs" using c1(2) by (simp add: delivers_def)
  moreover have "\<forall>h \<in> set ?hs. length h + length ts < 2 ^ 64"
    using Cons.prems(2) by (force simp: queues_after_def)
  ultimately obtain c2 where
    c2: "deliver_all pub ev sid ts c1 = Some c2" "delivers pub ev sid ts c1 c2 ?hs"
    using Cons.IH by blast
  from delivers_Cons [OF c1(2) c2(2) c1(3)] c1(1) c2(1) show ?case by simp
qed

section \<open>Properties\<close>

definition targets_of :: "'d router \<Rightarrow> string \<Rightarrow> string list" where
  "targets_of r sid = (case map_of (rt_route_table r) sid of None \<Rightarrow> [] | Some ts \<Rightarrow> ts)"

lemma push_terminated: "stream_of ev = Some sid \<Longrightarrow> \<exists>r. push ev reg tel = Some r"
  by (auto simp: push_def Let_def split: option.split prod.split)

text \<open>C2. \<^verbatim>\<open>route\<close> delivers to exactly the targets of the event's stream. With
  endpoints that return and an event whose stream id is terminated, the call returns; every
  script queue has received one copy of the event for each target that names a handler of
  that queue, every endpoint has been published to once for each target that names it and no
  handler, each other target is reported as unknown, and no read position moves. An event of
  a stream without a route reaches nobody.\<close>

theorem route_delivers:
  assumes "stream_of ev = Some sid" "queues_repr (co_router c) hs" "\<forall>ep. pub ev ep \<noteq> None"
    and "\<forall>h \<in> set hs. length h + length (targets_of (co_router c) sid) < 2 ^ 64"
  shows "\<exists>c'. route pub ev c = Some c' \<and>
    queues_repr (co_router c') (map (\<lambda>i. hs ! i @ replicate
      (length (filter (to_queue (co_router c) i) (targets_of (co_router c) sid))) ev) [0..<length hs]) \<and>
    (\<forall>e. map_of (pb_endpoints (co_publisher c')) e =
       map_option ((\<lambda>ep. the (pub ev ep)) ^^
           length (filter (\<lambda>t. t = e \<and> to_endpoint c t) (targets_of (co_router c) sid)))
         (map_of (pb_endpoints (co_publisher c)) e)) \<and>
    rt_unknown (co_router c') = rt_unknown (co_router c) @
      map (\<lambda>t. (t, sid)) (filter (to_nothing c) (targets_of (co_router c) sid)) \<and>
    rt_read_positions (co_router c') = rt_read_positions (co_router c)"
proof -
  let ?ts = "targets_of (co_router c) sid"
  obtain seq reg tel where p: "push ev (co_registry c)
      (if rt_telemetry (co_router c) then record_event sid (co_telemetry c) else co_telemetry c) = Some (seq, reg, tel)"
    using push_terminated [OF assms(1)] by (metis prod_cases3)
  let ?c = "c\<lparr>co_registry := reg, co_telemetry := tel\<rparr>"
  have "queues_repr (co_router ?c) hs" using assms(2) by simp
  from deliver_all_delivers [OF this assms(4,1)] assms(3) obtain c' where
    c': "deliver_all pub ev sid ?ts ?c = Some c'" "delivers pub ev sid ?ts ?c c' hs" by blast
  have "route pub ev c = Some c'"
    using p c'(1) by (simp add: route_def assms(1) Let_def targets_of_def split: option.splits)
  moreover have "to_endpoint ?c = to_endpoint c" "to_nothing ?c = to_nothing c"
    by (rule ext, simp add: to_endpoint_def to_nothing_def)+
  moreover have "published pub ev n = (\<lambda>ep. the (pub ev ep)) ^^ n" for n
    by (rule ext) (simp add: published_def)
  ultimately show ?thesis using c'(2) by (simp add: delivers_def queues_after_def)
qed

text \<open>A small pipeline: script \<open>''f''\<close> and endpoint \<open>''out''\<close> are targets of
  stream \<open>''s''\<close>; the endpoint collects what it is given.\<close>

definition example_core :: "script_queue \<Rightarrow> (event list, unit) core" where
  "example_core q = \<lparr>co_router = \<lparr>rt_telemetry = True, rt_publisher = True,
       rt_handlers = [(''f'', \<lparr>he_sub = \<lparr>su_trigger_stream = ''s'', su_windows = []\<rparr>, he_dispatch = (), he_queue_index = 0\<rparr>)],
       rt_route_table = [(''s'', [''f'', ''out'', ''gone''])], rt_queues = [q], rt_read_positions = [0], rt_unknown = []\<rparr>,
     co_registry = registry_new,
     co_publisher = \<lparr>pb_endpoints = [(''out'', [])], pb_telemetry = True\<rparr>,
     co_telemetry = set_enabled True telemetry_new\<rparr>"

lemma example_queue:
  obtains q :: script_queue where "ring_log (sq_ring q) []" "ring_cap (sq_ring q) = 4" "\<not> sq_stopped q"
proof -
  obtain r where r: "ring_new event_default 4 = Some r" by (simp add: ring_new_def)
  show thesis
    by (rule that [of "\<lparr>sq_ring = r, sq_stopped = False\<rparr>"]) (use ring_new_log [OF r] in simp_all)
qed

theorem route_delivers_witness:
  "\<exists>q c'. route (\<lambda>ev got. Some (got @ [ev])) (example_event 5) (example_core q) = Some c' \<and>
     queues_repr (co_router c') [[example_event 5]] \<and>
     map_of (pb_endpoints (co_publisher c')) ''out'' = Some [example_event 5] \<and>
     rt_unknown (co_router c') = [(''gone'', ''s'')]"
proof -
  obtain q :: script_queue where q: "ring_log (sq_ring q) []" "ring_cap (sq_ring q) = 4" "\<not> sq_stopped q"
    by (rule example_queue)
  let ?c = "example_core q"
  have r: "queues_repr (co_router ?c) [[]]" using q by (simp add: queues_repr_def example_core_def)
  have t: "targets_of (co_router ?c) ''s'' = [''f'', ''out'', ''gone'']" by (simp add: targets_of_def example_core_def)
  have d: "to_queue (co_router ?c) 0 = (\<lambda>t. t = ''f'')" "to_endpoint ?c = (\<lambda>t. t = ''out'')"
    "to_nothing ?c = (\<lambda>t. t \<noteq> ''f'' \<and> t \<noteq> ''out'')"
    by (rule ext, simp add: to_queue_def to_endpoint_def to_nothing_def example_core_def has_endpoint_def)+
  let ?pub = "\<lambda>ev got. Some (got @ [ev])" and ?ev = "example_event 5"
  have "\<forall>ep. ?pub ?ev ep \<noteq> None" "\<forall>h \<in> set [[]]. length h + length (targets_of (co_router ?c) ''s'') < 2 ^ 64"
    by (simp_all add: t)
  note delivered = route_delivers [where ev = ?ev and pub = ?pub, OF example_event(1) r this]
  obtain c' where
    c': "route ?pub ?ev ?c = Some c'" "queues_repr (co_router c') (map (\<lambda>i. [[]] ! i @ replicate
      (length (filter (to_queue (co_router ?c) i) (targets_of (co_router ?c) ''s''))) ?ev) [0..<length ([[]] :: event list list)])"
    and e: "map_of (pb_endpoints (co_publisher c')) ''out'' = map_option ((\<lambda>ep. the (?pub ?ev ep)) ^^
      length (filter (\<lambda>t. t = ''out'' \<and> to_endpoint ?c t) (targets_of (co_router ?c) ''s'')))
         (map_of (pb_endpoints (co_publisher ?c)) ''out'')"
    and u: "rt_unknown (co_router c') = rt_unknown (co_router ?c) @
      map (\<lambda>t. (t, ''s'')) (filter (to_nothing ?c) (targets_of (co_router ?c) ''s''))" using delivered by blast
  have "queues_repr (co_router c') [[?ev]]" using c'(2) by (simp add: t d)
  moreover have "map_of (pb_endpoints (co_publisher c')) ''out'' = Some [?ev]"
    using e by (simp add: t d) (simp add: example_core_def)
  moreover have "rt_unknown (co_router c') = [(''gone'', ''s'')]"
    using u by (simp add: t d) (simp add: example_core_def)
  ultimately show ?thesis using c'(1) by blast
qed

text \<open>A run on queue \<open>i\<close>: \<open>Some ev\<close> is a delivery, \<open>None\<close> a look by the
  script thread. The events the thread got and the final router.\<close>

fun queue_run :: "nat \<Rightarrow> event option list \<Rightarrow> 'd router \<Rightarrow> event list \<times> 'd router" where
  "queue_run i [] r = ([], r)"
| "queue_run i (Some ev # ops) r =
     queue_run i ops (r\<lparr>rt_queues := (rt_queues r)[i := queue_put ev (rt_queues r ! i)]\<rparr>)"
| "queue_run i (None # ops) r =
     (case wait_for_trigger i r of (res, r') \<Rightarrow> case queue_run i ops r' of (xs, r'') \<Rightarrow>
        (case res of Returned (Some ev) \<Rightarrow> ev # xs | _ \<Rightarrow> xs, r''))"

abbreviation queue_at :: "nat \<Rightarrow> 'd router \<Rightarrow> script_queue \<times> u64" where
  "queue_at i r \<equiv> (rt_queues r ! i, rt_read_positions r ! i)"

lemma queue_run_fifo:
  assumes "i < length (rt_queues r)" "i < length (rt_read_positions r)"
  shows "fst (queue_run i ops r) = fst (script_fifo.run ops (queue_at i r)) \<and>
    queue_at i (snd (queue_run i ops r)) = snd (script_fifo.run ops (queue_at i r))"
  using assms
proof (induction i ops r rule: queue_run.induct)
  case (1 i r)
  then show ?case by simp
next
  case (2 i ev ops r)
  have e: "q_enq ev (queue_at i r) = (queue_put ev (rt_queues r ! i), rt_read_positions r ! i)"
    by (simp add: q_enq_def)
  show ?case using 2 by (simp add: e)
next
  case (3 i ops r)
  obtain res pos where t: "queue_take (rt_queues r ! i) (rt_read_positions r ! i) = (res, pos)" by fastforce
  let ?r = "r\<lparr>rt_read_positions := (rt_read_positions r)[i := pos]\<rparr>"
  have w: "wait_for_trigger i r = (res, ?r)" using "3.prems" by (simp add: wait_for_trigger_def t)
  have d: "q_deq (queue_at i r) = (case res of Returned (Some ev) \<Rightarrow> Some ev | _ \<Rightarrow> None, queue_at i ?r)"
    using "3.prems" by (auto simp: q_deq_def t split: wait_result.split option.split)
  obtain xs r' where q: "queue_run i ops ?r = (xs, r')" by fastforce
  have "fst (queue_run i ops ?r) = fst (script_fifo.run ops (queue_at i ?r)) \<and>
    queue_at i (snd (queue_run i ops ?r)) = snd (script_fifo.run ops (queue_at i ?r))"
    using "3.IH" [OF w [symmetric]] "3.prems" by simp
  then have "script_fifo.run ops (queue_at i ?r) = (xs, queue_at i r')" by (simp add: q prod_eq_iff)
  then show ?case by (simp add: w d q split: wait_result.split option.split)
qed

text \<open>C5. A script queue is first in, first out. For a freshly registered queue and any run of
  deliveries and looks (\<^verbatim>\<open>wait_for_trigger\<close>) by its one script thread in which the
  backlog never exceeds the capacity, the events the thread got, in order, are the first of
  the events that were delivered, and the rest are still in the queue: nothing is lost,
  repeated or reordered.\<close>

theorem script_queue_fifo:
  assumes "register_script_queue capacity r = Some (i, r')" "capacity \<noteq> 0"
    and "length (rt_read_positions r) = length (rt_queues r)"
    and "backlog_ok (unat capacity) 0 ops" "length ops < 2 ^ 64"
  shows "\<exists>rest. fst (queue_run i ops r') @ rest = puts_of ops \<and>
    q_content (queue_at i (snd (queue_run i ops r'))) rest"
proof -
  from assms(1) obtain g where g: "ring_new event_default capacity = Some g" and i: "i = length (rt_queues r)"
    and r': "r' = r\<lparr>rt_queues := rt_queues r @ [\<lparr>sq_ring = g, sq_stopped = False\<rparr>],
      rt_read_positions := rt_read_positions r @ [0]\<rparr>"
    by (auto simp: register_script_queue_def split: option.splits)
  let ?s = "(\<lparr>sq_ring = g, sq_stopped = False\<rparr>, 0 :: u64)"
  note new = ring_new_log [OF g assms(2)]
  have s: "queue_at i r' = ?s" using assms(3) i by (simp add: r' nth_append)
  have len: "i < length (rt_queues r')" "i < length (rt_read_positions r')" using assms(3) i by (simp_all add: r')
  have "q_content ?s []" using new by (auto simp: q_content_def)
  moreover have "q_limit ?s = unat capacity" "q_used ?s = 0"
    using new ring.head_log [OF new(1)] by (simp_all add: q_limit_def q_used_def)
  ultimately have "\<exists>rest. q_content (snd (script_fifo.run ops ?s)) rest \<and>
      fst (script_fifo.run ops ?s) @ rest = [] @ puts_of ops"
    using assms(4,5) by (intro script_fifo.run_fifo) simp_all
  then show ?thesis using queue_run_fifo [OF len, of ops] unfolding s by auto
qed

theorem script_queue_fifo_witness:
  "\<exists>i r'. register_script_queue 4 (router_new :: unit router) = Some (i, r') \<and>
     (\<exists>rest. fst (queue_run i [Some (example_event 1), None, Some (example_event 2)] r') @ rest =
        [example_event 1, example_event 2])"
proof -
  obtain g where "ring_new event_default 4 = Some g" by (simp add: ring_new_def)
  then obtain i r' where r: "register_script_queue 4 (router_new :: unit router) = Some (i, r')"
    by (simp add: register_script_queue_def)
  have "\<exists>rest. fst (queue_run i [Some (example_event 1), None, Some (example_event 2)] r') @ rest =
        puts_of [Some (example_event 1), None, Some (example_event 2)] \<and>
      q_content (queue_at i (snd (queue_run i [Some (example_event 1), None, Some (example_event 2)] r'))) rest"
    by (rule script_queue_fifo [OF r]) (simp_all add: router_new_def)
  with r show ?thesis by (metis puts_of.simps)
qed

text \<open>C16. A script that falls behind by more than its queue's capacity. Its next look still
  returns an event and moves one position on, but the event is one that was delivered at
  least a whole ring after the one at its position, which is lost.\<close>

theorem script_queue_overrun:
  assumes "queues_repr r hs" "i < length hs" "\<not> sq_stopped (rt_queues r ! i)"
    and "unat (rt_read_positions r ! i) + ring_cap (sq_ring (rt_queues r ! i)) < length (hs ! i)"
  shows "\<exists>j. unat (rt_read_positions r ! i) + ring_cap (sq_ring (rt_queues r ! i)) \<le> j \<and> j < length (hs ! i) \<and>
    wait_for_trigger i r = (Returned (Some (hs ! i ! j)),
      r\<lparr>rt_read_positions := (rt_read_positions r)[i := rt_read_positions r ! i + 1]\<rparr>)"
proof -
  let ?q = "rt_queues r ! i" and ?pos = "rt_read_positions r ! i"
  let ?h = "hs ! i" and ?c = "ring_cap (sq_ring (rt_queues r ! i))"
  have log: "ring_log (sq_ring ?q) ?h" using assms(1,2) by (simp add: queues_repr_def)
  let ?j = "newest_at (length ?h) ?c (unat ?pos)"
  have lt: "unat ?pos < length ?h" and pos: "0 < ?c" using assms(4) ring.cap_pos [OF log] by simp_all
  then have j: "?j < length ?h" "length ?h \<le> ?j + ?c" "?j mod ?c = unat ?pos mod ?c"
    by (simp_all add: newest_at_le newest_at_live newest_at_slot)
  have "unat ?pos < ?j" using j(2) assms(4) by linarith
  then have "?c \<le> ?j - unat ?pos"
    using j(3) by (intro dvd_imp_le) (simp_all add: mod_eq_dvd_iff_nat)
  moreover have "?pos < ring_head (sq_ring ?q)" using lt by (simp add: word_less_nat_alt ring.head_log [OF log])
  then have "queue_take ?q ?pos = (Returned (Some (?h ! ?j)), ?pos + 1)"
    using assms(3) lt by (auto simp: queue_take_def Let_def not_le ring.read_log [OF log])
  then have "wait_for_trigger i r = (Returned (Some (?h ! ?j)), r\<lparr>rt_read_positions := (rt_read_positions r)[i := ?pos + 1]\<rparr>)"
    using assms(1,2) by (simp add: wait_for_trigger_def queues_repr_def)
  ultimately show ?thesis using j(1) \<open>unat ?pos < ?j\<close> by (intro exI [of _ ?j]) simp
qed

theorem script_queue_overrun_witness:
  "\<exists>r j. wait_for_trigger 0 (r :: unit router) =
       (Returned (Some (map example_event [1, 2, 3, 4, 5, 6] ! j)), r\<lparr>rt_read_positions := [1]\<rparr>) \<and> 4 \<le> j \<and> j < 6"
proof -
  obtain q :: script_queue where q: "ring_log (sq_ring q) []" "ring_cap (sq_ring q) = 4" "\<not> sq_stopped q"
    by (rule example_queue)
  let ?h = "map example_event [1, 2, 3, 4, 5, 6]"
  let ?r = "(router_new :: unit router)\<lparr>rt_queues := [q\<lparr>sq_ring := ring_writes (sq_ring q) ?h\<rparr>], rt_read_positions := [0]\<rparr>"
  have "ring_log (ring_writes (sq_ring q) ?h) ([] @ ?h)" by (rule ring_writes_log [OF q(1)]) simp
  then have r: "queues_repr ?r [?h]" by (simp add: queues_repr_def)
  have "\<exists>j. unat (rt_read_positions ?r ! 0) + ring_cap (sq_ring (rt_queues ?r ! 0)) \<le> j \<and> j < length ([?h] ! 0) \<and>
    wait_for_trigger 0 ?r = (Returned (Some ([?h] ! 0 ! j)),
      ?r\<lparr>rt_read_positions := (rt_read_positions ?r)[0 := rt_read_positions ?r ! 0 + 1]\<rparr>)"
    by (rule script_queue_overrun [OF r]) (simp_all add: q)
  then obtain j where j: "4 \<le> j" "j < 6" "wait_for_trigger 0 ?r = (Returned (Some ([?h] ! 0 ! j)),
      ?r\<lparr>rt_read_positions := (rt_read_positions ?r)[0 := rt_read_positions ?r ! 0 + 1]\<rparr>)"
    by (auto simp: q)
  then show ?thesis by (intro exI [of _ ?r] exI [of _ j]) simp
qed

lemma wait_stopped: "wait_for_trigger i (stop_all_queues r) = (Returned None, stop_all_queues r)"
proof (cases "i < length (rt_queues r)")
  case True
  then have "queue_take (rt_queues (stop_all_queues r) ! i) p = (Returned None, p)" for p
    by (simp add: queue_take_def stop_all_queues_def Let_def)
  then show ?thesis using True by (simp add: wait_for_trigger_def)
qed (simp add: wait_for_trigger_def stop_all_queues_def)

text \<open>Shutdown wakes every script thread. After \<^verbatim>\<open>stop_all_queues\<close> no look at any
  queue blocks: each returns nothing, and nothing more is taken from the queues.\<close>

theorem stop_all_queues_wakes:
  "wait_for_trigger i (stop_all_queues r) = (Returned None, stop_all_queues r)"
  by (rule wait_stopped)

end
