(* ===== verification/Config.thy ===== *)
theory Config
  imports CText
begin

text \<open>
  \<^verbatim>\<open>config/config.hpp\<close>: the parser of the configuration file and the helpers that
  read routes, emits, renames and windows out of it. A file is the list of its characters,
  \<open>None\<close> when it cannot be opened; every exception is a value of \<open>config_error\<close>.
\<close>

section \<open>Sections\<close>

record config_section =
  sec_type :: string
  sec_kv :: "string umap"
  sec_multi :: "string list umap"

record config =
  cfg_sections :: "config_section list"

definition section_get :: "config_section \<Rightarrow> string \<Rightarrow> string \<Rightarrow> string" where
  "section_get sec key deflt = (case map_of (sec_kv sec) key of Some v \<Rightarrow> v | None \<Rightarrow> deflt)"

definition section_has :: "config_section \<Rightarrow> string \<Rightarrow> bool" where
  "section_has sec key \<longleftrightarrow> map_of (sec_kv sec) key \<noteq> None"

definition of_type :: "config \<Rightarrow> string \<Rightarrow> config_section list" where
  "of_type cfg ty = filter (\<lambda>s. sec_type s = ty) (cfg_sections cfg)"

section \<open>Text helpers\<close>

text \<open>The characters of \<^verbatim>\<open>" \t\r\n"\<close>.\<close>

definition is_blank :: "char \<Rightarrow> bool" where
  "is_blank c \<longleftrightarrow> c \<in> {CHR '' '', CHR 0x09, CHR 0x0D, CHR 0x0A}"

fun find_first :: "(char \<Rightarrow> bool) \<Rightarrow> string \<Rightarrow> nat option" where
  "find_first p [] = None"
| "find_first p (c # s) = (if p c then Some 0 else map_option Suc (find_first p s))"

fun find_last :: "(char \<Rightarrow> bool) \<Rightarrow> string \<Rightarrow> nat option" where
  "find_last p [] = None"
| "find_last p (c # s) =
     (case find_last p s of Some i \<Rightarrow> Some (Suc i) | None \<Rightarrow> if p c then Some 0 else None)"

definition substr :: "string \<Rightarrow> nat \<Rightarrow> nat \<Rightarrow> string" where
  "substr s pos n = take n (drop pos s)"

definition trim :: "string \<Rightarrow> string" where
  "trim s =
     (case find_first (\<lambda>c. \<not> is_blank c) s of
        None \<Rightarrow> []
      | Some a \<Rightarrow> (case find_last (\<lambda>c. \<not> is_blank c) s of
          None \<Rightarrow> []
        | Some b \<Rightarrow> substr s a (b - a + 1)))"

definition is_multi_key :: "string \<Rightarrow> bool" where
  "is_multi_key key \<longleftrightarrow> key = ''window'' \<or> key = ''endpoint'' \<or> key = ''emits''"

section \<open>The parser\<close>

datatype config_error =
    Cannot_open string
  | Before_section nat
  | Expected_pair nat string
  | Duplicate_key nat string

definition error_text :: "config_error \<Rightarrow> string" where
  "error_text e = (case e of
     Cannot_open path \<Rightarrow> ''Cannot open config: '' @ path
   | Before_section n \<Rightarrow> ''Config line '' @ show_nat n @ '': key=value before any section header''
   | Expected_pair n l \<Rightarrow> ''Config line '' @ show_nat n @ '': expected key = value, got: '' @ l
   | Duplicate_key n k \<Rightarrow> ''Config line '' @ show_nat n @ '': duplicate key '' @ [CHR 0x27] @ k @ [CHR 0x27])"

text \<open>\<^verbatim>\<open>current->multi[key].push_back(val)\<close> and
  \<^verbatim>\<open>current->kv[key] = val\<close>.\<close>

definition add_multi :: "string \<Rightarrow> string \<Rightarrow> config_section \<Rightarrow> config_section" where
  "add_multi key val sec = sec\<lparr>sec_multi := AList.update key
     ((case map_of (sec_multi sec) key of Some vs \<Rightarrow> vs | None \<Rightarrow> []) @ [val]) (sec_multi sec)\<rparr>"

definition set_kv :: "string \<Rightarrow> string \<Rightarrow> config_section \<Rightarrow> config_section" where
  "set_kv key val sec = sec\<lparr>sec_kv := AList.update key val (sec_kv sec)\<rparr>"

text \<open>
  The body of the loop. The sections read so far are kept newest first, so that
  \<^verbatim>\<open>current\<close>, which always points to the last one, is the head of the list (and
  null when the list is empty).
\<close>

definition parse_line :: "nat \<Rightarrow> string \<Rightarrow> config_section list \<Rightarrow> config_error + config_section list" where
  "parse_line lineno raw secs =
     (let line = trim raw in
      if line = [] \<or> hd line = CHR ''#'' \<or> hd line = CHR '';'' then Inr secs
      else if hd line = CHR ''['' \<and> last line = CHR '']''
      then Inr (\<lparr>sec_type = trim (substr line 1 (length line - 2)), sec_kv = [], sec_multi = []\<rparr> # secs)
      else case secs of
        [] \<Rightarrow> Inl (Before_section lineno)
      | current # older \<Rightarrow>
          (case find_first (\<lambda>c. c = CHR ''='') line of
             None \<Rightarrow> Inl (Expected_pair lineno line)
           | Some eq \<Rightarrow>
               (let key = trim (substr line 0 eq); val = trim (drop (eq + 1) line) in
                if is_multi_key key then Inr (add_multi key val current # older)
                else if section_has current key then Inl (Duplicate_key lineno key)
                else Inr (set_kv key val current # older))))"

fun parse_lines :: "nat \<Rightarrow> string list \<Rightarrow> config_section list \<Rightarrow> config_error + config_section list" where
  "parse_lines lineno [] secs = Inr secs"
| "parse_lines lineno (l # ls) secs =
     (case parse_line (Suc lineno) l secs of
        Inl e \<Rightarrow> Inl e
      | Inr secs' \<Rightarrow> parse_lines (Suc lineno) ls secs')"

definition parse :: "string \<Rightarrow> string option \<Rightarrow> config_error + config" where
  "parse path content =
     (case content of
        None \<Rightarrow> Inl (Cannot_open path)
      | Some text \<Rightarrow>
          (case parse_lines 0 (getline_split (CHR 0x0A) text) [] of
             Inl e \<Rightarrow> Inl e
           | Inr secs \<Rightarrow> Inr \<lparr>cfg_sections = rev secs\<rparr>))"

section \<open>Routes, emits and renames\<close>

definition split_comma :: "string \<Rightarrow> string list" where
  "split_comma s = filter (\<lambda>item. item \<noteq> []) (map trim (getline_split (CHR '','') s))"

definition add_route :: "string \<times> string \<Rightarrow> string list umap \<Rightarrow> string list umap" where
  "add_route = (\<lambda>(key, val) routes.
     let targets = split_comma val in
     if targets \<noteq> []
     then AList.update key ((case map_of routes key of Some ts \<Rightarrow> ts | None \<Rightarrow> []) @ targets) routes
     else routes)"

definition parse_routes :: "config \<Rightarrow> string list umap" where
  "parse_routes cfg = fold (\<lambda>sec routes. fold add_route (sec_kv sec) routes) (of_type cfg ''routes'') []"

definition get_script_emits :: "config_section \<Rightarrow> string list" where
  "get_script_emits sec =
     (if section_has sec ''emits'' then split_comma (section_get sec ''emits'' []) else []) @
     (case map_of (sec_multi sec) ''emits'' of
        Some vals \<Rightarrow> concat (map split_comma vals)
      | None \<Rightarrow> [])"

definition get_ingestor_as :: "config_section \<Rightarrow> string" where
  "get_ingestor_as sec = section_get sec ''as'' []"

section \<open>Numbers\<close>

text \<open>
  \<^verbatim>\<open>std::stoull\<close> and \<^verbatim>\<open>std::stoi\<close> in base ten: white space and a sign are
  skipped, the longest run of digits is read and what follows is ignored. No digit is
  \<^verbatim>\<open>invalid_argument\<close>, a number out of range \<^verbatim>\<open>out_of_range\<close>;
  \<^verbatim>\<open>stoull\<close> negates modulo \<open>2^64\<close>.
\<close>

datatype number_error = Invalid_argument | Out_of_range

definition is_space :: "char \<Rightarrow> bool" where
  "is_space c \<longleftrightarrow> c = CHR '' '' \<or> (9 \<le> (of_char c :: nat) \<and> (of_char c :: nat) \<le> 13)"

definition read_number :: "string \<Rightarrow> (bool \<times> nat) option" where
  "read_number s =
     (let t = dropWhile is_space s;
          neg = (t \<noteq> [] \<and> hd t = CHR ''-'');
          u = (if t \<noteq> [] \<and> (hd t = CHR ''-'' \<or> hd t = CHR ''+'') then tl t else t);
          ds = takeWhile is_digit u
      in if ds = [] then None else Some (neg, dec_val ds))"

definition stoull :: "string \<Rightarrow> number_error + u64" where
  "stoull s =
     (case read_number s of
        None \<Rightarrow> Inl Invalid_argument
      | Some (neg, n) \<Rightarrow>
          if n \<ge> 2 ^ 64 then Inl Out_of_range
          else Inr (if neg then - of_nat n else of_nat n))"

definition stoi :: "string \<Rightarrow> number_error + int" where
  "stoi s =
     (case read_number s of
        None \<Rightarrow> Inl Invalid_argument
      | Some (neg, n) \<Rightarrow>
          (let v = (if neg then - int n else int n) in
           if v < - (2 ^ 31) \<or> v \<ge> 2 ^ 31 then Inl Out_of_range else Inr v))"

section \<open>Windows\<close>

record parsed_window =
  pw_stream_id :: string
  pw_time_based :: bool
  pw_n :: u64

datatype window_error = Three_fields string | Bad_number number_error

text \<open>The loop over the characters: the parts so far and the token being read.\<close>

fun comma_parts :: "string \<Rightarrow> string \<Rightarrow> string list" where
  "comma_parts tok [] = [trim tok]"
| "comma_parts tok (c # s) =
     (if c = CHR '','' then trim tok # comma_parts [] s else comma_parts (tok @ [c]) s)"

definition parse_window :: "string \<Rightarrow> window_error + parsed_window" where
  "parse_window val =
     (let parts = comma_parts [] val in
      if length parts < 3 then Inl (Three_fields val)
      else case stoull (parts ! 2) of
        Inl e \<Rightarrow> Inl (Bad_number e)
      | Inr n \<Rightarrow> Inr \<lparr>pw_stream_id = parts ! 0, pw_time_based = (parts ! 1 = ''time''), pw_n = n\<rparr>)"

end
