(* ===== verification/Config_Laws.thy ===== *)
theory Config_Laws
  imports Config
begin

text \<open>
  What the configuration parser guarantees: \<^verbatim>\<open>trim\<close> strips exactly the blanks at both
  ends, a configuration written out in the documented form is read back unchanged, an error
  names the first line that does not parse, and the helpers read out of the sections what
  they should.
\<close>

section \<open>Trimming\<close>

definition clean :: "string \<Rightarrow> bool" where
  "clean t \<longleftrightarrow> t = [] \<or> \<not> is_blank (hd t) \<and> \<not> is_blank (last t)"

lemma find_first_None: "find_first p s = None \<longleftrightarrow> (\<forall>c \<in> set s. \<not> p c)"
  by (induction s) auto

lemma find_last_None: "find_last p s = None \<longleftrightarrow> (\<forall>c \<in> set s. \<not> p c)"
  by (induction s) (auto split: option.split)

lemma find_first_skip: "\<forall>c \<in> set pre. \<not> p c \<Longrightarrow> p x \<Longrightarrow> find_first p (pre @ x # s) = Some (length pre)"
  by (induction pre) auto

lemma find_last_skip: "p x \<Longrightarrow> \<forall>c \<in> set post. \<not> p c \<Longrightarrow> find_last p (s @ x # post) = Some (length s)"
  by (induction s) (auto simp: find_last_None split: option.split)

text \<open>The first and the last character that are kept.\<close>

lemma find_ends:
  assumes "\<forall>c \<in> set pre. \<not> p c" "\<forall>c \<in> set post. \<not> p c" "t \<noteq> []" "p (hd t)" "p (last t)"
  shows "find_first p (pre @ t @ post) = Some (length pre)"
    and "find_last p (pre @ t @ post) = Some (length pre + (length t - 1))"
proof -
  have "find_first p (pre @ hd t # (tl t @ post)) = Some (length pre)"
    using assms(1,4) by (rule find_first_skip)
  then show "find_first p (pre @ t @ post) = Some (length pre)"
    using assms(3) by (simp add: append_Cons [symmetric] del: append_Cons)
  have "find_last p ((pre @ butlast t) @ last t # post) = Some (length (pre @ butlast t))"
    using assms(5,2) by (rule find_last_skip)
  moreover have "(pre @ butlast t) @ last t # post = pre @ t @ post"
    using assms(3) by (metis append.assoc append_Cons append_Nil append_butlast_last_id)
  ultimately show "find_last p (pre @ t @ post) = Some (length pre + (length t - 1))"
    by (simp only: length_append length_butlast)
qed

lemma substr_middle: "t \<noteq> [] \<Longrightarrow>
    substr (pre @ t @ post) (length pre) (length pre + (length t - 1) - length pre + 1) = t"
  by (simp add: substr_def)

lemma trim_eq:
  assumes "\<forall>c \<in> set pre. is_blank c" "\<forall>c \<in> set post. is_blank c" "clean t"
  shows "trim (pre @ t @ post) = t"
proof (cases "t = []")
  case True
  then have "find_first (\<lambda>c. \<not> is_blank c) (pre @ t @ post) = None"
    using assms(1,2) by (auto simp: find_first_None)
  with True show ?thesis by (simp add: trim_def)
next
  case False
  with assms find_ends [of pre "\<lambda>c. \<not> is_blank c" post t] show ?thesis
    by (simp add: trim_def clean_def substr_def)
qed

lemma trim_clean: "clean t \<Longrightarrow> trim t = t"
  using trim_eq [of "[]" "[]" t] by simp

lemma trim_split: "\<exists>pre post. s = pre @ trim s @ post \<and> (\<forall>c \<in> set pre. is_blank c) \<and>
    (\<forall>c \<in> set post. is_blank c) \<and> clean (trim s)"
proof -
  let ?u = "dropWhile is_blank s"
  let ?t = "rev (dropWhile is_blank (rev ?u))"
  let ?pre = "takeWhile is_blank s" and ?post = "rev (takeWhile is_blank (rev ?u))"
  have u: "?u = ?t @ ?post" by (metis rev_append rev_rev_ident takeWhile_dropWhile_id)
  then have s: "s = ?pre @ ?t @ ?post" by (metis takeWhile_dropWhile_id)
  have blanks: "\<forall>c \<in> set ?pre. is_blank c" "\<forall>c \<in> set ?post. is_blank c" by (auto dest: set_takeWhileD)
  have "clean ?t"
  proof (cases "?t = []")
    case False
    then have "hd ?t = hd ?u" using u by (metis hd_append2)
    moreover have "?u \<noteq> []" by (metis False dropWhile.simps(1) rev.simps(1))
    then have "\<not> is_blank (hd ?u)" by (rule hd_dropWhile)
    moreover have "dropWhile is_blank (rev ?u) \<noteq> []" using False by simp
    then have "\<not> is_blank (hd (dropWhile is_blank (rev ?u)))" by (rule hd_dropWhile)
    ultimately show ?thesis by (simp add: clean_def last_rev)
  qed (simp add: clean_def)
  with trim_eq [OF blanks] s have "trim s = ?t" by metis
  with s blanks \<open>clean ?t\<close> show ?thesis by metis
qed

lemma clean_trim [simp]: "clean (trim s)"
  using trim_split [of s] by blast

lemma set_trim: "set (trim s) \<subseteq> set s"
  using trim_split [of s] by (metis Un_subset_iff set_append subset_refl)

section \<open>Well-formed configurations\<close>

abbreviation NL :: char where
  "NL \<equiv> CHR 0x0A"

definition value_ok :: "string \<Rightarrow> bool" where
  "value_ok v \<longleftrightarrow> clean v \<and> NL \<notin> set v"

text \<open>What the parser guarantees of every section it returns.\<close>

definition section_ok :: "config_section \<Rightarrow> bool" where
  "section_ok sec \<longleftrightarrow> value_ok (sec_type sec) \<and>
     um_ok (sec_kv sec) \<and> (\<forall>(k, v) \<in> set (sec_kv sec). \<not> is_multi_key k \<and> value_ok k \<and> CHR ''='' \<notin> set k \<and> value_ok v) \<and>
     um_ok (sec_multi sec) \<and> (\<forall>(k, vs) \<in> set (sec_multi sec). is_multi_key k \<and> vs \<noteq> [] \<and> (\<forall>v \<in> set vs. value_ok v))"

text \<open>A key that can be written at the start of a line.\<close>

definition key_ok :: "string \<Rightarrow> bool" where
  "key_ok k \<longleftrightarrow> k \<noteq> [] \<and> hd k \<notin> {CHR ''#'', CHR '';'', CHR ''['' } \<and> value_ok k \<and> CHR ''='' \<notin> set k"

lemma value_ok_trim: "NL \<notin> set s \<Longrightarrow> value_ok (trim s)"
  using set_trim [of s] by (auto simp: value_ok_def)

lemma set_update_pair: "(k, v) \<in> set (AList.update k' v' m) \<Longrightarrow> (k, v) = (k', v') \<or> (k, v) \<in> set m"
  by (induction m) (auto split: if_splits)

lemma section_ok_add_multi:
  assumes "section_ok sec" "is_multi_key k" "value_ok v"
  shows "section_ok (add_multi k v sec)"
proof -
  define old where "old = (case map_of (sec_multi sec) k of Some vs \<Rightarrow> vs | None \<Rightarrow> [])"
  have "\<forall>x \<in> set old. value_ok x"
  proof (cases "map_of (sec_multi sec) k")
    case (Some vs)
    then have "(k, vs) \<in> set (sec_multi sec)" by (rule map_of_SomeD)
    then have "case (k, vs) of (k, vs) \<Rightarrow> is_multi_key k \<and> vs \<noteq> [] \<and> (\<forall>v \<in> set vs. value_ok v)"
      using assms(1) unfolding section_ok_def by blast
    with Some show ?thesis by (simp add: old_def)
  qed (simp add: old_def)
  with assms show ?thesis
    by (auto simp: section_ok_def add_multi_def old_def [symmetric] dest!: set_update_pair)
qed

lemma section_ok_set_kv:
  "section_ok sec \<Longrightarrow> \<not> is_multi_key k \<Longrightarrow> value_ok k \<Longrightarrow> CHR ''='' \<notin> set k \<Longrightarrow> value_ok v \<Longrightarrow>
     section_ok (set_kv k v sec)"
  by (auto simp: section_ok_def set_kv_def dest!: set_update_pair)

lemma find_first_Some: "find_first p s = Some i \<Longrightarrow> i < length s \<and> p (s ! i) \<and> (\<forall>c \<in> set (take i s). \<not> p c)"
  by (induction s arbitrary: i) (auto split: if_splits)

lemma parse_line_ok:
  assumes "parse_line n raw secs = Inr secs'" "\<forall>sec \<in> set secs. section_ok sec" "NL \<notin> set raw"
  shows "\<forall>sec \<in> set secs'. section_ok sec"
proof -
  let ?l = "trim raw"
  have nl: "NL \<notin> set ?l" using set_trim [of raw] assms(3) by blast
  have sub: "NL \<notin> set (substr ?l a b)" "NL \<notin> set (drop a ?l)" for a b
    using nl by (auto simp: substr_def dest!: in_set_takeD in_set_dropD)
  consider "secs' = secs"
    | "secs' = \<lparr>sec_type = trim (substr ?l 1 (length ?l - 2)), sec_kv = [], sec_multi = []\<rparr> # secs"
    | cur older eq where "secs = cur # older" "find_first (\<lambda>c. c = CHR ''='') ?l = Some eq"
      "is_multi_key (trim (substr ?l 0 eq))"
      "secs' = add_multi (trim (substr ?l 0 eq)) (trim (drop (eq + 1) ?l)) cur # older"
    | cur older eq where "secs = cur # older" "find_first (\<lambda>c. c = CHR ''='') ?l = Some eq"
      "\<not> is_multi_key (trim (substr ?l 0 eq))"
      "secs' = set_kv (trim (substr ?l 0 eq)) (trim (drop (eq + 1) ?l)) cur # older"
    using assms(1) by (auto simp: parse_line_def Let_def split: if_splits list.splits option.splits)
  then show ?thesis
  proof cases
    case 1
    then show ?thesis using assms(2) by simp
  next
    case 2
    then show ?thesis using assms(2) sub by (simp add: section_ok_def value_ok_trim)
  next
    case 3
    then show ?thesis using assms(2) sub by (simp add: section_ok_add_multi value_ok_trim)
  next
    case (4 cur older eq)
    have "CHR ''='' \<notin> set (substr ?l 0 eq)" using find_first_Some [OF 4(2)] by (auto simp: substr_def)
    then have "CHR ''='' \<notin> set (trim (substr ?l 0 eq))" using set_trim by blast
    with 4 show ?thesis using assms(2) sub by (simp add: section_ok_set_kv value_ok_trim)
  qed
qed

lemma parse_lines_ok:
  "parse_lines n ls secs = Inr secs' \<Longrightarrow> \<forall>sec \<in> set secs. section_ok sec \<Longrightarrow> \<forall>l \<in> set ls. NL \<notin> set l \<Longrightarrow>
     \<forall>sec \<in> set secs'. section_ok sec"
proof (induction n ls secs rule: parse_lines.induct)
  case (1 n secs)
  then show ?case by simp
next
  case (2 n l ls secs)
  from "2.prems"(1) obtain s1 where s1: "parse_line (Suc n) l secs = Inr s1" "parse_lines (Suc n) ls s1 = Inr secs'"
    by (auto split: sum.splits)
  have "\<forall>sec \<in> set s1. section_ok sec" using parse_line_ok [OF s1(1) "2.prems"(2)] "2.prems"(3) by simp
  from "2.IH" [OF s1(1) s1(2) this] "2.prems"(3) show ?case by simp
qed

section \<open>Writing a configuration\<close>

definition pair_line :: "string \<Rightarrow> string \<Rightarrow> string" where
  "pair_line k v = k @ '' = '' @ v"

definition section_lines :: "config_section \<Rightarrow> string list" where
  "section_lines sec = (''['' @ sec_type sec @ '']'') # map (\<lambda>(k, v). pair_line k v) (sec_kv sec) @
     concat (map (\<lambda>(k, vs). map (pair_line k) vs) (sec_multi sec))"

definition render_config :: "config \<Rightarrow> string" where
  "render_config cfg = concat (map (\<lambda>l. l @ [NL]) (concat (map section_lines (cfg_sections cfg))))"

definition writable :: "config_section \<Rightarrow> bool" where
  "writable sec \<longleftrightarrow> section_ok sec \<and> (\<forall>(k, v) \<in> set (sec_kv sec). key_ok k)"

lemma getline_split_lines: "\<forall>l \<in> set ls. NL \<notin> set l \<Longrightarrow> getline_split NL (concat (map (\<lambda>l. l @ [NL]) ls)) = ls"
  using getline_split_append [of ls NL "[]"] by simp

lemma blank_simps [simp]: "is_blank CHR '' ''" "\<not> is_blank CHR ''=''" "\<not> is_blank CHR ''[''" "\<not> is_blank CHR '']''"
  by (simp_all add: is_blank_def)

lemma trim_pair_line:
  assumes "key_ok k" "value_ok v"
  shows "trim (pair_line k v) = k @ '' ='' @ (if v = [] then [] else CHR '' '' # v)"
proof -
  have k: "k \<noteq> []" "\<not> is_blank (hd k)" using assms(1) by (auto simp: key_ok_def value_ok_def clean_def)
  have "clean (k @ '' ='' @ (if v = [] then [] else CHR '' '' # v))"
    using k assms(2) by (auto simp: clean_def value_ok_def)
  from trim_eq [OF _ _ this, of "[]" "if v = [] then '' '' else []"] show ?thesis
    by (auto simp: pair_line_def)
qed

lemma is_multi_key_ok: "is_multi_key k \<Longrightarrow> key_ok k"
  by (auto simp: is_multi_key_def key_ok_def value_ok_def clean_def is_blank_def)

lemma parse_pair_line:
  assumes "key_ok k" "value_ok v"
  shows "parse_line n (pair_line k v) (cur # older) =
    (if is_multi_key k then Inr (add_multi k v cur # older)
     else if section_has cur k then Inl (Duplicate_key n k) else Inr (set_kv k v cur # older))"
proof -
  let ?l = "k @ '' ='' @ (if v = [] then [] else CHR '' '' # v)"
  have k: "k \<noteq> []" "hd k \<noteq> CHR ''#''" "hd k \<noteq> CHR '';''" "hd k \<noteq> CHR ''[''" "CHR ''='' \<notin> set k" "clean k"
    using assms(1) by (auto simp: key_ok_def value_ok_def)
  have "find_first (\<lambda>c. c = CHR ''='') ((k @ '' '') @ CHR ''='' # (if v = [] then [] else CHR '' '' # v)) =
      Some (length (k @ '' ''))" using k(5) by (intro find_first_skip) auto
  then have eq: "find_first (\<lambda>c. c = CHR ''='') ?l = Some (Suc (length k))" by simp
  have "trim (substr ?l 0 (Suc (length k))) = k"
    using trim_eq [of "[]" "'' ''" k] k(6) by (simp add: substr_def)
  moreover have "trim (drop (Suc (length k) + 1) ?l) = v"
    using trim_eq [of "'' ''" "[]" v] assms(2) trim_clean [of "[]"] by (auto simp: value_ok_def clean_def)
  ultimately show ?thesis using k eq
    by (simp add: parse_line_def trim_pair_line [OF assms] Let_def del: drop_append)
qed

lemma parse_header_line:
  assumes "value_ok t"
  shows "parse_line n (''['' @ t @ '']'') secs = Inr (\<lparr>sec_type = t, sec_kv = [], sec_multi = []\<rparr> # secs)"
proof -
  have "trim (''['' @ t @ '']'') = ''['' @ t @ '']''" by (rule trim_clean) (simp add: clean_def)
  moreover have "substr (''['' @ t @ '']'') 1 (length (''['' @ t @ '']'') - 2) = t" by (simp add: substr_def)
  ultimately show ?thesis using assms by (simp add: parse_line_def trim_clean value_ok_def)
qed

lemma parse_lines_append:
  "parse_lines n (ls @ ms) secs =
     (case parse_lines n ls secs of Inl e \<Rightarrow> Inl e | Inr secs' \<Rightarrow> parse_lines (n + length ls) ms secs')"
  by (induction n ls secs rule: parse_lines.induct) (auto split: sum.splits)

lemma update_new: "k \<notin> fst ` set m \<Longrightarrow> AList.update k v m = m @ [(k, v)]"
  by (induction m) auto

lemma update_last: "k \<notin> fst ` set m \<Longrightarrow> AList.update k v (m @ [(k, w)]) = m @ [(k, v)]"
  by (induction m) auto

lemma parse_kv_lines:
  assumes "\<forall>(k, v) \<in> set kvs. key_ok k \<and> \<not> is_multi_key k \<and> value_ok v" "distinct (map fst (sec_kv cur @ kvs))"
  shows "parse_lines n (map (\<lambda>(k, v). pair_line k v) kvs) (cur # older) =
    Inr (cur\<lparr>sec_kv := sec_kv cur @ kvs\<rparr> # older)"
  using assms
proof (induction kvs arbitrary: cur n)
  case Nil
  then show ?case by simp
next
  case (Cons e kvs)
  obtain k v where e: "e = (k, v)" by fastforce
  from Cons.prems have k: "key_ok k" "\<not> is_multi_key k" "value_ok v" "k \<notin> fst ` set (sec_kv cur)"
    by (auto simp: e)
  then have "map_of (sec_kv cur) k = None" by (simp add: map_of_eq_None_iff)
  then have "parse_line (Suc n) (pair_line k v) (cur # older) = Inr (cur\<lparr>sec_kv := sec_kv cur @ [(k, v)]\<rparr> # older)"
    using k by (simp add: parse_pair_line section_has_def set_kv_def update_new)
  with Cons.IH [where cur = "cur\<lparr>sec_kv := sec_kv cur @ [(k, v)]\<rparr>" and n = "Suc n"] Cons.prems show ?case
    by (simp add: e)
qed

lemma parse_multi_values:
  assumes "is_multi_key k" "\<forall>v \<in> set vs. value_ok v" "k \<notin> fst ` set ms"
  shows "parse_lines n (map (pair_line k) vs) (cur\<lparr>sec_multi := ms @ [(k, us)]\<rparr> # older) =
    Inr (cur\<lparr>sec_multi := ms @ [(k, us @ vs)]\<rparr> # older)"
  using assms(2)
proof (induction vs arbitrary: us n)
  case Nil
  then show ?case by simp
next
  case (Cons v vs)
  have "map_of ms k = None" using assms(3) by (simp add: map_of_eq_None_iff)
  then have "map_of (ms @ [(k, us)]) k = Some us" by (simp add: map_add_def)
  then have "parse_line (Suc n) (pair_line k v) (cur\<lparr>sec_multi := ms @ [(k, us)]\<rparr> # older) =
      Inr (cur\<lparr>sec_multi := ms @ [(k, us @ [v])]\<rparr> # older)"
    using Cons.prems assms(1,3)
    by (simp add: parse_pair_line is_multi_key_ok add_multi_def update_last)
  with Cons show ?case by simp
qed

lemma parse_multi_lines:
  assumes "\<forall>(k, vs) \<in> set mks. is_multi_key k \<and> vs \<noteq> [] \<and> (\<forall>v \<in> set vs. value_ok v)"
    and "distinct (map fst (sec_multi cur @ mks))"
  shows "parse_lines n (concat (map (\<lambda>(k, vs). map (pair_line k) vs) mks)) (cur # older) =
    Inr (cur\<lparr>sec_multi := sec_multi cur @ mks\<rparr> # older)"
  using assms
proof (induction mks arbitrary: cur n)
  case Nil
  then show ?case by simp
next
  case (Cons e mks)
  obtain k v vs where e: "e = (k, v # vs)" using Cons.prems(1) by (cases e; cases "snd e") auto
  from Cons.prems have k: "is_multi_key k" "\<forall>v \<in> set (v # vs). value_ok v" "k \<notin> fst ` set (sec_multi cur)"
    by (auto simp: e)
  then have "map_of (sec_multi cur) k = None" by (simp add: map_of_eq_None_iff)
  then have "parse_line (Suc n) (pair_line k v) (cur # older) =
      Inr (cur\<lparr>sec_multi := sec_multi cur @ [(k, [v])]\<rparr> # older)"
    using k by (simp add: parse_pair_line is_multi_key_ok add_multi_def update_new)
  moreover have "parse_lines (Suc n) (map (pair_line k) vs) (cur\<lparr>sec_multi := sec_multi cur @ [(k, [v])]\<rparr> # older) =
      Inr (cur\<lparr>sec_multi := sec_multi cur @ [(k, v # vs)]\<rparr> # older)"
    using parse_multi_values [where k = k and vs = vs and us = "[v]"] k by simp
  ultimately show ?case
    using Cons.IH [where cur = "cur\<lparr>sec_multi := sec_multi cur @ [(k, v # vs)]\<rparr>"] Cons.prems
    by (simp add: e parse_lines_append)
qed

lemma parse_section_lines:
  assumes "writable sec"
  shows "parse_lines n (section_lines sec) secs = Inr (sec # secs)"
proof -
  let ?s = "\<lparr>sec_type = sec_type sec, sec_kv = [], sec_multi = []\<rparr>"
  have ok: "section_ok sec" and kv: "\<forall>(k, v) \<in> set (sec_kv sec). key_ok k \<and> \<not> is_multi_key k \<and> value_ok v"
    using assms by (auto simp: writable_def section_ok_def)
  have "parse_lines (Suc n) (map (\<lambda>(k, v). pair_line k v) (sec_kv sec)) (?s # secs) =
      Inr (?s\<lparr>sec_kv := sec_kv sec\<rparr> # secs)"
    using parse_kv_lines [OF kv, of ?s] ok by (simp add: section_ok_def um_ok_def)
  moreover have "parse_lines m (concat (map (\<lambda>(k, vs). map (pair_line k) vs) (sec_multi sec)))
      (?s\<lparr>sec_kv := sec_kv sec\<rparr> # secs) = Inr (sec # secs)" for m
    using parse_multi_lines [of "sec_multi sec" "?s\<lparr>sec_kv := sec_kv sec\<rparr>"] ok
    by (simp add: section_ok_def um_ok_def)
  ultimately show ?thesis using ok parse_header_line [of "sec_type sec" "Suc n" secs]
    by (simp add: section_lines_def parse_lines_append section_ok_def)
qed

lemma parse_sections_lines:
  "\<forall>sec \<in> set secs. writable sec \<Longrightarrow>
     parse_lines n (concat (map section_lines secs)) acc = Inr (rev secs @ acc)"
  by (induction secs arbitrary: n acc) (simp_all add: parse_lines_append parse_section_lines)

lemma section_lines_NL: "writable sec \<Longrightarrow> l \<in> set (section_lines sec) \<Longrightarrow> NL \<notin> set l"
  by (fastforce simp: writable_def section_ok_def section_lines_def pair_line_def value_ok_def is_multi_key_def)

section \<open>Properties\<close>

text \<open>C10. A configuration written in the documented form, \<^verbatim>\<open>[type]\<close> headers followed
  by \<^verbatim>\<open>key = value\<close> lines, is parsed back to exactly the same sections, keys, values
  and repeated keys, in the same order.\<close>

theorem parse_render:
  assumes "\<forall>sec \<in> set (cfg_sections cfg). writable sec"
  shows "parse path (Some (render_config cfg)) = Inr cfg"
proof -
  have "getline_split NL (render_config cfg) = concat (map section_lines (cfg_sections cfg))"
    unfolding render_config_def by (rule getline_split_lines) (use assms section_lines_NL in auto)
  then show ?thesis using parse_sections_lines [OF assms, of 0 "[]"] by (simp add: parse_def)
qed

theorem parse_render_witness:
  "parse ''mawmaw.conf'' (Some (render_config \<lparr>cfg_sections =
      [\<lparr>sec_type = ''script'', sec_kv = [(''id'', ''vwap''), (''as'', [])],
        sec_multi = [(''window'', [''trades, count, 5'', ''quotes, time, 9''])]\<rparr>]\<rparr>)) =
     Inr \<lparr>cfg_sections = [\<lparr>sec_type = ''script'', sec_kv = [(''id'', ''vwap''), (''as'', [])],
        sec_multi = [(''window'', [''trades, count, 5'', ''quotes, time, 9''])]\<rparr>]\<rparr>"
  by (rule parse_render) (simp add: writable_def section_ok_def key_ok_def value_ok_def clean_def
      um_ok_def is_multi_key_def is_blank_def)

lemma parse_sections_ok:
  assumes "parse path content = Inr cfg"
  shows "\<forall>sec \<in> set (cfg_sections cfg). section_ok sec"
proof -
  from assms obtain body secs where t: "content = Some body"
    "parse_lines 0 (getline_split NL body) [] = Inr secs" "cfg = \<lparr>cfg_sections = rev secs\<rparr>"
    by (auto simp: parse_def split: option.splits sum.splits)
  have "\<forall>sec \<in> set secs. section_ok sec"
    by (rule parse_lines_ok [OF t(2)]) (auto dest: getline_split_no_delim)
  then show ?thesis by (simp add: t(3))
qed

text \<open>What every successful parse guarantees: in each section the keys are distinct, the
  repeatable keys (\<^verbatim>\<open>window\<close>, \<^verbatim>\<open>endpoint\<close>, \<^verbatim>\<open>emits\<close>) are kept apart from the
  others and have at least one value each, no key contains an equals sign, and every name and
  value is trimmed and on one line.\<close>

theorem parse_result_ok:
  assumes "parse path content = Inr cfg"
  shows "list_all section_ok (cfg_sections cfg)"
  using parse_sections_ok [OF assms] by (simp add: list_all_iff)

theorem parse_result_ok_witness:
  "\<exists>cfg. parse ''c'' (Some (''[routes]'' @ [NL] @ ''a=b'' @ [NL] @ ''emits = x'')) = Inr cfg \<and>
     list_all section_ok (cfg_sections cfg) \<and> cfg_sections cfg \<noteq> []"
proof -
  have g: "getline_split NL (''[routes]'' @ [NL] @ ''a=b'' @ [NL] @ ''emits = x'') = [''[routes]'', ''a=b'', ''emits = x'']"
    by (simp add: getline_split_item [of NL "''[routes]''", simplified] getline_split_item [of NL "''a=b''", simplified]
        getline_split_last)
  then obtain cfg where cfg: "parse ''c'' (Some (''[routes]'' @ [NL] @ ''a=b'' @ [NL] @ ''emits = x'')) = Inr cfg"
      "cfg_sections cfg \<noteq> []"
    by (simp add: parse_def parse_line_def trim_def is_blank_def substr_def is_multi_key_def section_has_def
        set_kv_def add_multi_def)
  with parse_result_ok [OF cfg(1)] show ?thesis by blast
qed

text \<open>C13. Errors. When a file that can be opened is refused, there is a first line that does
  not parse: all lines before it do, the error carries its one-based number, and it is of one
  of three kinds: a line before any section, a line of a section without an equals sign, or a
  second value for a key of the current section.\<close>

theorem parse_error_first_line:
  assumes "parse path (Some text) = Inl e"
  shows "\<exists>n secs l. n < length (getline_split NL text) \<and> l = getline_split NL text ! n \<and>
    parse_lines 0 (take n (getline_split NL text)) [] = Inr secs \<and>
    (secs = [] \<and> e = Before_section (Suc n) \<or>
     secs \<noteq> [] \<and> CHR ''='' \<notin> set (trim l) \<and> e = Expected_pair (Suc n) (trim l) \<or>
     (\<exists>k. secs \<noteq> [] \<and> section_has (hd secs) k \<and> \<not> is_multi_key k \<and> e = Duplicate_key (Suc n) k))"
proof -
  let ?ls = "getline_split NL text"
  have e: "parse_lines 0 ?ls [] = Inl e" using assms by (auto simp: parse_def split: sum.splits)
  have first: "\<exists>n < length ls. \<exists>secs. parse_lines m (take n ls) acc = Inr secs \<and>
      parse_line (m + Suc n) (ls ! n) secs = Inl e"
    if "parse_lines m ls acc = Inl e" for m ls acc
    using that
  proof (induction m ls acc rule: parse_lines.induct)
    case (1 m secs)
    then show ?case by simp
  next
    case (2 m l ls acc)
    show ?case
    proof (cases "parse_line (Suc m) l acc")
      case (Inl e')
      with 2(2) show ?thesis by (intro exI [of _ 0]) simp
    next
      case (Inr s)
      with 2(2) have "parse_lines (Suc m) ls s = Inl e" by simp
      from 2(1) [OF Inr this] obtain n secs where "n < length ls"
        "parse_lines (Suc m) (take n ls) s = Inr secs" "parse_line (Suc m + Suc n) (ls ! n) secs = Inl e" by blast
      then show ?thesis using Inr by (intro exI [of _ "Suc n"]) simp
    qed
  qed
  from first [OF e] obtain n secs where n: "n < length ?ls" "parse_lines 0 (take n ?ls) [] = Inr secs"
    "parse_line (Suc n) (?ls ! n) secs = Inl e" by auto
  have "secs = [] \<and> e = Before_section (Suc n) \<or>
     secs \<noteq> [] \<and> CHR ''='' \<notin> set (trim (?ls ! n)) \<and> e = Expected_pair (Suc n) (trim (?ls ! n)) \<or>
     (\<exists>k. secs \<noteq> [] \<and> section_has (hd secs) k \<and> \<not> is_multi_key k \<and> e = Duplicate_key (Suc n) k)"
    using n(3) by (auto simp: parse_line_def Let_def find_first_None split: if_splits list.splits option.splits)
  with n(1,2) show ?thesis by blast
qed

theorem parse_error_first_line_witness:
  "\<exists>n secs. parse ''c'' (Some (''[a]'' @ [NL] @ ''not a pair'')) = Inl (Expected_pair 2 ''not a pair'') \<and>
     parse_lines 0 (take n (getline_split NL (''[a]'' @ [NL] @ ''not a pair''))) [] = Inr secs \<and> Suc n = 2"
proof -
  have g: "getline_split NL (''[a]'' @ [NL] @ ''not a pair'') = [''[a]'', ''not a pair'']"
    by (simp add: getline_split_item [of NL "''[a]''", simplified] getline_split_last)
  have p: "parse ''c'' (Some (''[a]'' @ [NL] @ ''not a pair'')) = Inl (Expected_pair 2 ''not a pair'')"
    unfolding parse_def option.case g by (simp add: parse_line_def trim_def is_blank_def substr_def)
  from parse_error_first_line [OF p] p show ?thesis by fastforce
qed

section \<open>Routes and windows\<close>

lemma split_comma_items: "t \<in> set (split_comma s) \<Longrightarrow> t \<noteq> [] \<and> clean t \<and> CHR '','' \<notin> set t"
proof -
  assume "t \<in> set (split_comma s)"
  then obtain x where "x \<in> set (getline_split (CHR '','') s)" "t = trim x" "t \<noteq> []"
    by (auto simp: split_comma_def)
  then show ?thesis using set_trim [of x] getline_split_no_delim by auto
qed

definition route_targets :: "string umap \<Rightarrow> string \<Rightarrow> string list" where
  "route_targets kv k = (case map_of kv k of None \<Rightarrow> [] | Some v \<Rightarrow> split_comma v)"

definition listed :: "string list option \<Rightarrow> string list" where
  "listed r = (case r of None \<Rightarrow> [] | Some ts \<Rightarrow> ts)"

lemma add_route_listed:
  "listed (map_of (add_route (k, v) routes) x) = listed (map_of routes x) @ (if x = k then split_comma v else [])"
  by (auto simp: add_route_def listed_def Let_def umap_simps split: option.split)

definition filled :: "string list umap \<Rightarrow> bool" where
  "filled routes \<longleftrightarrow> (\<forall>x. map_of routes x \<noteq> Some [])"

lemma filled_add_route: "filled routes \<Longrightarrow> filled (add_route e routes)"
  by (cases e) (auto simp: filled_def add_route_def Let_def umap_simps)

lemma filled_fold: "filled routes \<Longrightarrow> filled (fold add_route kv routes)"
  by (induction kv arbitrary: routes) (simp_all add: filled_add_route)

lemma filled_parse_routes: "filled (parse_routes cfg)"
proof -
  have "filled routes \<Longrightarrow> filled (fold (\<lambda>sec routes. fold add_route (sec_kv sec) routes) secs routes)"
    for secs :: "config_section list" and routes
    by (induction secs arbitrary: routes) (simp_all add: filled_fold)
  moreover have "filled []" by (simp add: filled_def)
  ultimately show ?thesis by (simp add: parse_routes_def)
qed

lemma fold_routes_listed:
  "um_ok kv \<Longrightarrow> listed (map_of (fold add_route kv routes) x) = listed (map_of routes x) @ route_targets kv x"
proof (induction kv arbitrary: routes)
  case Nil
  then show ?case by (simp add: route_targets_def)
next
  case (Cons e kv)
  obtain k v where e: "e = (k, v)" by fastforce
  from Cons.prems have ok: "um_ok kv" and k: "map_of kv k = None"
    by (simp_all add: um_ok_def e map_of_eq_None_iff)
  show ?case using k by (auto simp: e Cons.IH [OF ok] add_route_listed route_targets_def)
qed

lemma parse_routes_listed:
  assumes "\<forall>sec \<in> set secs. um_ok (sec_kv sec)"
  shows "listed (map_of (fold (\<lambda>sec routes. fold add_route (sec_kv sec) routes) secs routes) x) =
    listed (map_of routes x) @ concat (map (\<lambda>sec. route_targets (sec_kv sec) x) secs)"
  using assms by (induction secs arbitrary: routes) (simp_all add: fold_routes_listed)

text \<open>C14. The routing table. For a parsed configuration the targets of a stream are the
  comma-separated, trimmed, non-empty items of its values in the \<^verbatim>\<open>[routes]\<close>
  sections, sections in file order; a stream without any item has no route at all. Streams
  named like a repeatable key (\<^verbatim>\<open>window\<close>, \<^verbatim>\<open>endpoint\<close>, \<^verbatim>\<open>emits\<close>) never get a
  route, whatever the file says.\<close>

theorem routes_of_config:
  assumes "parse path content = Inr cfg"
  shows "map_of (parse_routes cfg) s =
    (let ts = concat (map (\<lambda>sec. case map_of (sec_kv sec) s of None \<Rightarrow> [] | Some v \<Rightarrow> split_comma v)
        (filter (\<lambda>sec. sec_type sec = ''routes'') (cfg_sections cfg)))
     in if ts = [] then None else Some ts) \<and>
    (is_multi_key s \<longrightarrow> map_of (parse_routes cfg) s = None)"
proof -
  let ?secs = "of_type cfg ''routes''"
  have ok: "\<forall>sec \<in> set ?secs. section_ok sec"
    using parse_sections_ok [OF assms] by (simp add: of_type_def)
  let ?ts = "concat (map (\<lambda>sec. route_targets (sec_kv sec) s) ?secs)"
  have l: "listed (map_of (parse_routes cfg) s) = ?ts"
    using parse_routes_listed [of ?secs "[]" s] ok by (simp add: parse_routes_def listed_def section_ok_def)
  have m: "map_of (parse_routes cfg) s = (if ?ts = [] then None else Some ?ts)"
  proof (cases "map_of (parse_routes cfg) s")
    case None
    with l show ?thesis by (simp add: listed_def)
  next
    case (Some ts)
    with filled_parse_routes [of cfg] have "ts \<noteq> []" by (auto simp: filled_def)
    moreover have "ts = ?ts" using l Some by (simp add: listed_def)
    ultimately show ?thesis using Some by metis
  qed
  have "?ts = []" if "is_multi_key s"
  proof -
    have "map_of (sec_kv sec) s = None" if "sec \<in> set ?secs" for sec
      using ok that \<open>is_multi_key s\<close> by (fastforce simp: section_ok_def map_of_eq_None_iff)
    then show ?thesis by (simp add: route_targets_def)
  qed
  with m show ?thesis by (simp add: Let_def route_targets_def of_type_def)
qed

theorem routes_of_config_witness:
  "\<exists>cfg. parse ''c'' (Some (render_config \<lparr>cfg_sections = [\<lparr>sec_type = ''routes'',
      sec_kv = [(''a'', ''x, y'')], sec_multi = [(''window'', [''z''])]\<rparr>]\<rparr>)) = Inr cfg \<and>
     map_of (parse_routes cfg) ''a'' = Some [''x'', ''y''] \<and> map_of (parse_routes cfg) ''window'' = None"
proof -
  let ?cfg = "\<lparr>cfg_sections = [\<lparr>sec_type = ''routes'',
      sec_kv = [(''a'', ''x, y'')], sec_multi = [(''window'', [''z''])]\<rparr>]\<rparr>"
  have "\<forall>sec \<in> set (cfg_sections ?cfg). writable sec"
    by (simp add: writable_def section_ok_def key_ok_def value_ok_def clean_def um_ok_def is_multi_key_def is_blank_def)
  then have "concat (map section_lines (cfg_sections ?cfg)) = getline_split NL (render_config ?cfg)"
    unfolding render_config_def using section_lines_NL
    by (intro getline_split_lines [symmetric]) auto
  then have p: "parse ''c'' (Some (render_config ?cfg)) = Inr ?cfg"
    using parse_sections_lines [OF \<open>\<forall>sec \<in> set (cfg_sections ?cfg). writable sec\<close>, of 0 "[]"] by (simp add: parse_def)
  have "split_comma ''x, y'' = [''x'', ''y'']"
    by (simp add: split_comma_def getline_split_item [of "CHR '',''" "''x''", simplified] getline_split_last
        trim_def is_blank_def substr_def)
  with routes_of_config [OF p, of "''a''"] routes_of_config [OF p, of "''window''"] p show ?thesis
    by (simp add: is_multi_key_def)
qed

lemma comma_parts_item: "CHR '','' \<notin> set s \<Longrightarrow> comma_parts tok (s @ CHR '','' # u) = trim (tok @ s) # comma_parts [] u"
  by (induction s arbitrary: tok) auto

lemma comma_parts_last: "CHR '','' \<notin> set s \<Longrightarrow> comma_parts tok s = [trim (tok @ s)]"
  by (induction s arbitrary: tok) auto

lemma digit_chars:
  assumes "is_digit c"
  shows "\<not> is_space c" "\<not> is_blank c" "c \<noteq> CHR ''-''" "c \<noteq> CHR ''+''" "c \<noteq> CHR '',''"
  using assms by (auto simp: is_digit_def is_space_def is_blank_def)

text \<open>A written number: an optional sign, digits, and something that does not continue them.\<close>

lemma read_number_written:
  assumes "sign \<in> {[], ''+'', ''-''}" "junk = [] \<or> \<not> is_digit (hd junk)"
  shows "read_number (sign @ show_nat n @ junk) = Some (sign = ''-'', n)"
proof -
  obtain d ds where d: "show_nat n = d # ds" using show_nat_nonempty [of n] by (cases "show_nat n") auto
  have digits: "list_all is_digit (show_nat n)" by (rule show_nat_digits)
  then have dd: "is_digit d" by (simp add: d)
  have "takeWhile is_digit (show_nat n @ junk) = show_nat n"
    using digits assms(2) by (cases junk) (simp_all add: takeWhile_append2 list_all_iff)
  moreover have "\<not> is_space CHR ''-''" "\<not> is_space CHR ''+''" by (simp_all add: is_space_def)
  ultimately show ?thesis
    using assms(1) digit_chars [OF dd] by (auto simp: read_number_def d Let_def dec_val_show_nat [of n, unfolded d])
qed

text \<open>Reading a window. A subscription \<^verbatim>\<open>stream, kind, N\<close> is read as written: the
  stream and the kind are trimmed, any kind but \<^verbatim>\<open>time\<close> is a count window, and the
  number is taken if it fits 64 bits and refused otherwise. The number follows
  \<^verbatim>\<open>stoull\<close>: what comes after the digits is ignored, and a minus sign is accepted and
  wraps around, so \<^verbatim>\<open>-1\<close> asks for the largest window there is.\<close>

theorem parse_window_written:
  assumes "clean s" "CHR '','' \<notin> set s" "clean kind" "CHR '','' \<notin> set kind"
    and "sign \<in> {[], ''+'', ''-''}" "junk = [] \<or> \<not> is_digit (hd junk) \<and> clean junk" "CHR '','' \<notin> set junk"
  shows "parse_window (s @ '', '' @ kind @ '', '' @ sign @ show_nat n @ junk) =
    (if n < 2 ^ 64
     then Inr \<lparr>pw_stream_id = s, pw_time_based = (kind = ''time''),
       pw_n = (if sign = ''-'' then - of_nat n else of_nat n)\<rparr>
     else Inl (Bad_number Out_of_range))"
proof -
  let ?num = "sign @ show_nat n @ junk"
  have digits: "list_all is_digit (show_nat n)" "show_nat n \<noteq> []" by (rule show_nat_digits show_nat_nonempty)+
  then have dig: "is_digit (hd (show_nat n))" "is_digit (last (show_nat n))" by (simp_all add: list_all_iff)
  have "CHR '','' \<notin> set (show_nat n)" using digits(1) digit_chars(5) by (auto simp: list_all_iff)
  then have num: "CHR '','' \<notin> set ?num" using assms(5,7) by auto
  have "\<not> is_blank CHR ''-''" "\<not> is_blank CHR ''+''" by (simp_all add: is_blank_def)
  then have "clean ?num"
    using assms(5,6) digits(2) digit_chars(2) [OF dig(1)] digit_chars(2) [OF dig(2)]
    by (cases "junk = []") (auto simp: clean_def last_append)
  then have t: "trim ('' '' @ ?num) = ?num" using trim_eq [of "'' ''" "[]" ?num] by simp
  have k: "trim ('' '' @ kind) = kind" using trim_eq [of "'' ''" "[]" kind] assms(3) by simp
  have "comma_parts [] (s @ CHR '','' # (('' '' @ kind) @ CHR '','' # ('' '' @ ?num))) = [s, kind, ?num]"
    using assms(2,4) num trim_clean [OF assms(1)]
    by (subst comma_parts_item, simp, subst comma_parts_item, simp, subst comma_parts_last, simp)
      (simp only: append_Nil t k)
  then have parts: "comma_parts [] (s @ '', '' @ kind @ '', '' @ ?num) = [s, kind, ?num]" by simp
  have "read_number ?num = Some (sign = ''-'', n)"
    using assms(5,6) by (intro read_number_written) auto
  then have num_val: "stoull ?num = (if n < 2 ^ 64 then Inr (if sign = ''-'' then - of_nat n else of_nat n)
      else Inl Out_of_range)"
    unfolding stoull_def by (simp only: option.case prod.case not_less [symmetric] if_not_P if_P) auto
  have "[s, kind, ?num] ! 2 = ?num" "[s, kind, ?num] ! 1 = kind" "[s, kind, ?num] ! 0 = s"
    "\<not> length [s, kind, ?num] < 3" by simp_all
  then show ?thesis unfolding parse_window_def parts Let_def by (simp only: num_val) auto
qed

theorem parse_window_written_witness:
  "parse_window (''trades'' @ '', '' @ ''count'' @ '', '' @ ''-'' @ show_nat 1 @ ''x'') =
     Inr \<lparr>pw_stream_id = ''trades'', pw_time_based = False, pw_n = UINT64_MAX\<rparr>"
  using parse_window_written [of "''trades''" "''count''" "''-''" "''x''" 1]
  by (simp add: clean_def is_blank_def is_digit_def)

text \<open>The streams a script may emit. For a parsed configuration the list is made of the
  items of all \<^verbatim>\<open>emits\<close> lines of the section in order; the branch that looks for a
  single-valued \<^verbatim>\<open>emits\<close> key never contributes.\<close>

theorem emits_of_config:
  assumes "parse path content = Inr cfg" "sec \<in> set (cfg_sections cfg)"
  shows "get_script_emits sec =
      concat (map split_comma (case map_of (sec_multi sec) ''emits'' of None \<Rightarrow> [] | Some vs \<Rightarrow> vs)) \<and>
    \<not> section_has sec ''emits'' \<and>
    (\<forall>t \<in> set (get_script_emits sec). t \<noteq> [] \<and> clean t \<and> CHR '','' \<notin> set t)"
proof -
  have "section_ok sec" using parse_sections_ok [OF assms(1)] assms(2) by blast
  then have "\<not> section_has sec ''emits''"
    by (force simp: section_has_def section_ok_def is_multi_key_def dest: map_of_SomeD)
  then show ?thesis
    using split_comma_items by (auto simp: get_script_emits_def split: option.split)
qed

theorem emits_of_config_witness:
  "\<exists>cfg sec. parse ''c'' (Some (''[script]'' @ [NL] @ ''emits = a, b'')) = Inr cfg \<and>
     sec \<in> set (cfg_sections cfg) \<and> get_script_emits sec = [''a'', ''b'']"
proof -
  have g: "getline_split NL (''[script]'' @ [NL] @ ''emits = a, b'') = [''[script]'', ''emits = a, b'']"
    by (simp add: getline_split_item [of NL "''[script]''", simplified] getline_split_last)
  let ?sec = "\<lparr>sec_type = ''script'', sec_kv = [], sec_multi = [(''emits'', [''a, b''])]\<rparr>"
  have p: "parse ''c'' (Some (''[script]'' @ [NL] @ ''emits = a, b'')) = Inr \<lparr>cfg_sections = [?sec]\<rparr>"
    unfolding parse_def option.case g
    by (simp add: parse_line_def trim_def is_blank_def substr_def is_multi_key_def add_multi_def)
  have "split_comma ''a, b'' = [''a'', ''b'']"
    by (simp add: split_comma_def getline_split_item [of "CHR '',''" "''a''", simplified] getline_split_last
        trim_def is_blank_def substr_def)
  with emits_of_config [OF p, of ?sec] p show ?thesis by (intro exI conjI) (assumption | simp)+
qed

end
