(* ===== verification/Base64.thy ===== *)
theory Base64
  imports CText
begin

text \<open>
  \<^verbatim>\<open>base64_encode\<close> of \<^verbatim>\<open>publisher/websocket_endpoint.hpp\<close>, on 32-bit words as
  the code has it, and a decoder written from RFC 4648 as its specification: decoding what was
  encoded gives the bytes back.
\<close>

section \<open>The encoder\<close>

definition b64_table :: string where
  "b64_table = ''ABCDEFGHIJKLMNOPQRSTUVWXYZabcdefghijklmnopqrstuvwxyz0123456789+/''"

definition b64_char :: "u32 \<Rightarrow> char" where
  "b64_char n = b64_table ! unat (n AND 0x3F)"

fun base64_encode :: "u8 list \<Rightarrow> string" where
  "base64_encode (a # b # c # rest) =
     (let n = push_bit 16 (ucast a :: u32) OR push_bit 8 (ucast b) OR ucast c
      in b64_char (drop_bit 18 n) # b64_char (drop_bit 12 n) # b64_char (drop_bit 6 n) # b64_char n #
         base64_encode rest)"
| "base64_encode [a] =
     (let n = push_bit 16 (ucast a :: u32)
      in [b64_char (drop_bit 18 n), b64_char (drop_bit 12 n), CHR ''='', CHR ''=''])"
| "base64_encode [a, b] =
     (let n = push_bit 16 (ucast a :: u32) OR push_bit 8 (ucast b)
      in [b64_char (drop_bit 18 n), b64_char (drop_bit 12 n), b64_char (drop_bit 6 n), CHR ''=''])"
| "base64_encode [] = []"

section \<open>The specification\<close>

definition b64_value :: "char \<Rightarrow> u32" where
  "b64_value c = of_nat (length (takeWhile (\<lambda>d. d \<noteq> c) b64_table))"

definition b64_group :: "char \<Rightarrow> char \<Rightarrow> char \<Rightarrow> char \<Rightarrow> u32" where
  "b64_group w x y z = push_bit 18 (b64_value w) OR push_bit 12 (b64_value x) OR
     push_bit 6 (b64_value y) OR b64_value z"

fun b64_decode :: "string \<Rightarrow> u8 list" where
  "b64_decode (w # x # y # z # rest) =
     (if z \<noteq> CHR ''='' then
        (let n = b64_group w x y z in ucast (drop_bit 16 n) # ucast (drop_bit 8 n) # ucast n # b64_decode rest)
      else if y \<noteq> CHR ''='' then
        (let n = b64_group w x y (CHR ''A'') in [ucast (drop_bit 16 n), ucast (drop_bit 8 n)])
      else [ucast (drop_bit 16 (b64_group w x (CHR ''A'') (CHR ''A'')))])"
| "b64_decode _ = []"

lemma length_b64_table: "length b64_table = 64"
  by (simp add: b64_table_def)

lemma b64_index:
  assumes "k < 64"
  shows "length (takeWhile (\<lambda>d. d \<noteq> b64_table ! k) b64_table) = k"
proof -
  have "list_all (\<lambda>k. length (takeWhile (\<lambda>d. d \<noteq> b64_table ! k) b64_table) = k) [0..<64]"
    by code_simp
  with assms show ?thesis by (simp add: list_all_iff)
qed

lemma unat_and_3F: "unat (n AND 0x3F :: u32) = unat n mod 64"
  using unat_and_mask [of n 6] by (simp add: mask_eq_exp_minus_1)

lemma b64_value_char [simp]: "b64_value (b64_char n) = n AND 0x3F"
proof -
  have "unat (n AND 0x3F) < 64" by (simp add: unat_and_3F)
  then show ?thesis by (simp add: b64_value_def b64_char_def b64_index)
qed

lemma b64_char_mem: "b64_char n \<in> set b64_table"
  unfolding b64_char_def by (rule nth_mem) (simp add: length_b64_table unat_and_3F)

lemma b64_table_chars: "CHR ''='' \<notin> set b64_table" "CHR 0x22 \<notin> set b64_table"
  by (simp_all add: b64_table_def)

lemma b64_char_pad [simp]: "b64_char n \<noteq> CHR ''=''" "CHR ''='' \<noteq> b64_char n"
  using b64_char_mem [of n] b64_table_chars(1) by auto

lemma b64_value_A [simp]: "b64_value (CHR ''A'') = 0"
  by (simp add: b64_value_def b64_table_def)

section \<open>Decoding what was encoded\<close>

lemma and_3F: "n AND 0x3F = take_bit 6 (n :: u32)"
  by (simp add: take_bit_eq_mask mask_eq_exp_minus_1)

lemma b64_recombine:
  "push_bit 18 (take_bit 6 (drop_bit 18 n)) OR push_bit 12 (take_bit 6 (drop_bit 12 n)) OR
     push_bit 6 (take_bit 6 (drop_bit 6 n)) OR take_bit 6 n = take_bit 24 (n :: u32)"
proof (rule bit_word_eqI)
  fix i assume "i < LENGTH(32)"
  consider "i < 6" | "6 \<le> i" "i < 12" | "12 \<le> i" "i < 18" | "18 \<le> i" "i < 24" | "24 \<le> i" by linarith
  then show "bit (push_bit 18 (take_bit 6 (drop_bit 18 n)) OR push_bit 12 (take_bit 6 (drop_bit 12 n)) OR
     push_bit 6 (take_bit 6 (drop_bit 6 n)) OR take_bit 6 n) i = bit (take_bit 24 n) i"
  proof cases
    case 2
    then have "i - 6 < 6" "6 + (i - 6) = i" by linarith+
    with 2 show ?thesis by (simp add: bit_simps)
  next
    case 3
    then have "\<not> i - 6 < 6" "i - 12 < 6" "12 + (i - 12) = i" "\<not> 18 \<le> i" "i < 24" "\<not> i < 6" "i < 32" by linarith+
    with 3(1) show ?thesis by (simp only: bit_simps) simp
  next
    case 4
    then have "\<not> i - 6 < 6" "\<not> i - 12 < 6" "i - 18 < 6" "18 + (i - 18) = i" "\<not> i < 6" by linarith+
    with 4 show ?thesis using \<open>i < LENGTH(32)\<close> by (simp only: bit_simps) simp
  next
    case 5
    then have "\<not> i - 6 < 6" "\<not> i - 12 < 6" "\<not> i - 18 < 6" "\<not> i < 6" "\<not> i < 24" by linarith+
    then show ?thesis by (simp only: bit_simps) simp
  qed (simp add: bit_simps)
qed

lemma b64_group_chars:
  "b64_group (b64_char (drop_bit 18 n)) (b64_char (drop_bit 12 n)) (b64_char (drop_bit 6 n)) (b64_char n) = take_bit 24 n"
  by (simp only: b64_group_def b64_value_char and_3F b64_recombine)

definition b64_word :: "u8 \<Rightarrow> u8 \<Rightarrow> u8 \<Rightarrow> u32" where
  "b64_word a b c = push_bit 16 (ucast a) OR push_bit 8 (ucast b) OR ucast c"

lemma b64_word_bytes:
  "ucast (drop_bit 16 (take_bit 24 (b64_word a b c))) = a"
  "ucast (drop_bit 8 (take_bit 24 (b64_word a b c))) = b"
  "ucast (take_bit 24 (b64_word a b c)) = c"
  unfolding b64_word_def
  by (rule bit_word_eqI; auto simp: bit_simps dest: bit_imp_le_length)+

lemma b64_word_low: "take_bit 6 (b64_word a b 0) = 0" "take_bit 6 (drop_bit 6 (b64_word a 0 0)) = 0"
  unfolding b64_word_def by (rule bit_word_eqI; auto simp: bit_simps dest: bit_imp_le_length)+

lemma b64_char_zero: "take_bit 6 n = 0 \<Longrightarrow> b64_char n = CHR ''A''"
  by (simp add: b64_char_def and_3F) (simp add: b64_table_def)

lemma b64_decode_encode: "b64_decode (base64_encode bs) = bs"
proof (induction bs rule: base64_encode.induct)
  case (1 a b c rest)
  have e: "base64_encode (a # b # c # rest) =
      (let n = b64_word a b c in b64_char (drop_bit 18 n) # b64_char (drop_bit 12 n) # b64_char (drop_bit 6 n) #
         b64_char n # base64_encode rest)" by (simp add: b64_word_def)
  show ?case unfolding e Let_def b64_decode.simps(1) b64_group_chars
    using 1 by (simp only: b64_word_bytes b64_char_pad not_False_eq_True if_True)
next
  case (2 a)
  have e: "base64_encode [a] = (let n = b64_word a 0 0 in
      [b64_char (drop_bit 18 n), b64_char (drop_bit 12 n), CHR ''='', CHR ''=''])" by (simp add: b64_word_def)
  have z: "CHR ''A'' = b64_char (drop_bit 6 (b64_word a 0 0))" "CHR ''A'' = b64_char (b64_word a 0 0)"
    by (rule b64_char_zero [symmetric], rule b64_word_low)+
  show ?case unfolding e Let_def by (simp, subst z(1), subst z(2), simp only: b64_group_chars b64_word_bytes)
next
  case (3 a b)
  have e: "base64_encode [a, b] = (let n = b64_word a b 0 in
      [b64_char (drop_bit 18 n), b64_char (drop_bit 12 n), b64_char (drop_bit 6 n), CHR ''=''])"
    by (simp add: b64_word_def)
  have z: "CHR ''A'' = b64_char (b64_word a b 0)" by (rule b64_char_zero [symmetric], rule b64_word_low)
  show ?case unfolding e Let_def by (simp, subst z, simp only: b64_group_chars b64_word_bytes Let_def)
next
  case 4
  then show ?case by simp
qed

lemma length_base64_encode: "length (base64_encode bs) = 4 * ((length bs + 2) div 3)"
  by (induction bs rule: base64_encode.induct) (simp_all add: Let_def, presburger)

lemma set_base64_encode: "set (base64_encode bs) \<subseteq> set b64_table \<union> {CHR ''=''}"
  by (induction bs rule: base64_encode.induct) (auto simp: Let_def b64_char_mem)

lemma base64_no_quote: "CHR 0x22 \<notin> set (base64_encode bs)"
  using set_base64_encode [of bs] b64_table_chars(2) by auto

end
