(* ===== verification/Sha1.thy ===== *)
theory Sha1
  imports Bytes CText
begin

text \<open>
  The SHA-1 of \<^verbatim>\<open>publisher/websocket_endpoint.hpp\<close> (\<^verbatim>\<open>struct Sha1\<close>), used for the
  handshake only: the compression of one 64-byte block on 32-bit words, the padding and the
  digest.
\<close>

section \<open>One block\<close>

type_synonym sha1_state = "u32 \<times> u32 \<times> u32 \<times> u32 \<times> u32"

definition sha1_init :: sha1_state where
  "sha1_init = (0x67452301, 0xEFCDAB89, 0x98BADCFE, 0x10325476, 0xC3D2E1F0)"

definition rol :: "u32 \<Rightarrow> nat \<Rightarrow> u32" where
  "rol v b = push_bit b v OR drop_bit (32 - b) v"

definition block_word :: "u8 list \<Rightarrow> nat \<Rightarrow> u32" where
  "block_word p i = push_bit 24 (ucast (p ! (i * 4))) OR push_bit 16 (ucast (p ! (i * 4 + 1))) OR
     push_bit 8 (ucast (p ! (i * 4 + 2))) OR ucast (p ! (i * 4 + 3))"

definition sha1_schedule :: "u8 list \<Rightarrow> u32 list" where
  "sha1_schedule p =
     foldl (\<lambda>w i. w @ [rol (w ! (i - 3) XOR w ! (i - 8) XOR w ! (i - 14) XOR w ! (i - 16)) 1])
       (map (block_word p) [0..<16]) [16..<80]"

definition sha1_fk :: "nat \<Rightarrow> u32 \<Rightarrow> u32 \<Rightarrow> u32 \<Rightarrow> u32 \<times> u32" where
  "sha1_fk i b c d =
     (if i < 20 then ((b AND c) OR (NOT b AND d), 0x5A827999)
      else if i < 40 then (b XOR c XOR d, 0x6ED9EBA1)
      else if i < 60 then ((b AND c) OR (b AND d) OR (c AND d), 0x8F1BBCDC)
      else (b XOR c XOR d, 0xCA62C1D6))"

definition sha1_round :: "u32 list \<Rightarrow> sha1_state \<Rightarrow> nat \<Rightarrow> sha1_state" where
  "sha1_round w = (\<lambda>(a, b, c, d, e) i.
     let (f, k) = sha1_fk i b c d; tmp = rol a 5 + f + e + k + w ! i
     in (tmp, a, rol b 30, c, d))"

definition process_block :: "sha1_state \<Rightarrow> u8 list \<Rightarrow> sha1_state" where
  "process_block h p =
     (let w = sha1_schedule p; (a, b, c, d, e) = foldl (sha1_round w) h [0..<80];
          (h0, h1, h2, h3, h4) = h
      in (h0 + a, h1 + b, h2 + c, h3 + d, h4 + e))"

section \<open>The digest\<close>

text \<open>\<^verbatim>\<open>while (buf.size() % 64 != 56) buf.push_back(0);\<close>\<close>

function pad_loop :: "u8 list \<Rightarrow> u8 list" where
  "pad_loop buf = (if length buf mod 64 \<noteq> 56 then pad_loop (buf @ [0]) else buf)"
  by pat_completeness auto
termination
proof (relation "measure (\<lambda>buf. (120 - length buf mod 64) mod 64)", goal_cases)
  case 1 show ?case by simp
next
  case (2 buf)
  have "m mod 64 \<noteq> 56 \<Longrightarrow> (120 - Suc m mod 64) mod 64 < (120 - m mod 64) mod 64" for m :: nat
  proof -
    assume h: "m mod 64 \<noteq> 56"
    have "m mod 64 < 64" by simp
    then obtain k where k: "m mod 64 = k" "k < 64" by blast
    have s: "Suc m mod 64 = Suc k mod 64" using k(1) by (metis mod_Suc_eq)
    have "list_all (\<lambda>k. k \<noteq> 56 \<longrightarrow> (120 - Suc k mod 64) mod 64 < (120 - k) mod 64) [0..<64]" by code_simp
    with k h show ?thesis unfolding s k(1) by (simp add: list_all_iff)
  qed
  with 2 show ?case by simp
qed

declare pad_loop.simps [simp del]

definition be64 :: "u64 \<Rightarrow> u8 list" where
  "be64 v = map (\<lambda>i. ucast (drop_bit (i * 8) v)) [7, 6, 5, 4, 3, 2, 1, 0]"

definition sha1_pad :: "u8 list \<Rightarrow> u8 list" where
  "sha1_pad msg = pad_loop (msg @ [0x80]) @ be64 (of_nat (length msg) * 8)"

fun sha1_blocks :: "nat \<Rightarrow> sha1_state \<Rightarrow> u8 list \<Rightarrow> sha1_state" where
  "sha1_blocks 0 h buf = h"
| "sha1_blocks (Suc n) h buf = sha1_blocks n (process_block h (take 64 buf)) (drop 64 buf)"

definition be32 :: "u32 \<Rightarrow> u8 list" where
  "be32 v = [ucast (drop_bit 24 v), ucast (drop_bit 16 v), ucast (drop_bit 8 v), ucast v]"

text \<open>\<^verbatim>\<open>for (off = 0; off < buf.size(); off += 64)\<close>: the padded length is a multiple of
  64, so the loop makes one step per block.\<close>

definition sha1_digest :: "string \<Rightarrow> u8 list" where
  "sha1_digest msg =
     (let buf = sha1_pad (bytes_of msg);
          (h0, h1, h2, h3, h4) = sha1_blocks (length buf div 64) sha1_init buf
      in be32 h0 @ be32 h1 @ be32 h2 @ be32 h3 @ be32 h4)"

section \<open>Padding\<close>

lemma pad_loop_eq: "\<exists>k. pad_loop buf = buf @ replicate k 0"
proof (induction buf rule: pad_loop.induct)
  case (1 buf)
  show ?case
  proof (cases "length buf mod 64 = 56")
    case True
    then show ?thesis by (intro exI [of _ 0]) (simp add: pad_loop.simps [of buf])
  next
    case False
    with 1 obtain k where "pad_loop (buf @ [0]) = (buf @ [0]) @ replicate k 0" by blast
    then show ?thesis using False
      by (intro exI [of _ "Suc k"]) (simp add: pad_loop.simps [of buf])
  qed
qed

lemma length_pad_loop: "length (pad_loop buf) mod 64 = 56"
proof (induction buf rule: pad_loop.induct)
  case (1 buf)
  then show ?case by (cases "length buf mod 64 = 56") (simp_all add: pad_loop.simps [of buf])
qed

lemma be64_eq: "be64 v = rev (put_le 8 v)"
proof -
  have "put_le 8 v = map (\<lambda>i. ucast (drop_bit (8 * i) v)) [0..<8]"
  proof (rule nth_equalityI)
    fix i assume "i < length (put_le 8 v)"
    then have "i < 8" by simp
    then have "map (\<lambda>i. ucast (drop_bit (8 * i) v)) [0..<8] ! i = (ucast (drop_bit (8 * i) v) :: u8)"
      by (subst nth_map) simp_all
    moreover have "put_le 8 v ! i = ucast (drop_bit (8 * i) v)" using \<open>i < 8\<close>
      by (intro bit_word_eqI) (simp add: bit_put_le bit_simps)
    ultimately show "put_le 8 v ! i = map (\<lambda>i. ucast (drop_bit (8 * i) v)) [0..<8] ! i" by simp
  qed simp
  then show ?thesis by (simp add: be64_def upt_rec mult.commute)
qed

lemma length_be64 [simp]: "length (be64 v) = 8"
  by (simp add: be64_def)

lemma be64_inject [simp]: "be64 v = be64 w \<longleftrightarrow> v = w"
  using tel64.put_inject [of v "[]" w "[]"] by (auto simp: be64_eq w64_eq)

lemma sha1_pad_blocks: "length (sha1_pad msg) mod 64 = 0" "0 < length (sha1_pad msg)"
proof -
  have "(length (pad_loop (msg @ [0x80])) + 8) mod 64 = (56 + 8) mod 64"
    using length_pad_loop [of "msg @ [0x80]"] by (metis mod_add_left_eq)
  then show "length (sha1_pad msg) mod 64 = 0" by (simp add: sha1_pad_def)
qed (simp add: sha1_pad_def)

lemma sha1_pad_inject:
  assumes "length a < 2 ^ 61" "length b < 2 ^ 61" "sha1_pad a = sha1_pad b"
  shows "a = b"
proof -
  obtain j k where j: "pad_loop (a @ [0x80]) = a @ [0x80] @ replicate j 0"
    and k: "pad_loop (b @ [0x80]) = b @ [0x80] @ replicate k 0"
    using pad_loop_eq [of "a @ [0x80]"] pad_loop_eq [of "b @ [0x80]"] by auto
  have eq: "pad_loop (a @ [0x80]) = pad_loop (b @ [0x80])"
    "be64 (of_nat (length a) * 8) = be64 (of_nat (length b) * 8)"
    using assms(3) by (simp_all add: sha1_pad_def)
  then have "(of_nat (length a * 8) :: u64) = of_nat (length b * 8)" by simp
  then have "unat (of_nat (length a * 8) :: u64) = unat (of_nat (length b * 8) :: u64)" by (rule arg_cong)
  moreover have "length a * 8 < 2 ^ 64" "length b * 8 < 2 ^ 64" using assms(1,2) by simp_all
  moreover have "unat (of_nat n :: u64) = n" if "n < 2 ^ 64" for n using that by (simp add: unat_of_nat)
  ultimately have "length a * 8 = length b * 8" by metis
  then have "length a = length b" by simp
  then show ?thesis using eq(1) by (simp add: j k)
qed

lemma length_sha1_digest: "length (sha1_digest msg) = 20"
  by (simp add: sha1_digest_def Let_def be32_def split: prod.split)

end
