(* ===== verification/WebSocket.thy ===== *)
theory WebSocket
  imports Base64 Sha1 Config Event
begin

text \<open>
  \<^verbatim>\<open>publisher/websocket_endpoint.hpp\<close>: the frames of RFC 6455, the handshake, the JSON
  message of an event and the endpoint that broadcasts it. A client is its file descriptor;
  what it sends is the list of bytes up to the end of the connection, and how the kernel takes
  the bytes sent to it is the list of results of the calls of \<^verbatim>\<open>send\<close>.
\<close>

section \<open>Frames to a client\<close>

text \<open>The bytes \<^verbatim>\<open>ws_send_frame\<close> builds; \<^verbatim>\<open>len\<close> is a 64-bit
  \<^verbatim>\<open>size_t\<close>.\<close>

definition ws_frame :: "u8 \<Rightarrow> u8 list \<Rightarrow> u8 list" where
  "ws_frame opcode payload =
     (let len = (of_nat (length payload) :: u64) in
      [0x80 OR (opcode AND 0x0F)] @
      (if len \<le> 125 then [ucast len]
       else if len \<le> 0xFFFF then [126, ucast (drop_bit 8 len), ucast len]
       else [127] @ be64 len) @ payload)"

text \<open>The sending loop: the result and the bytes that went out; \<open>None\<close> while the call
  blocks.\<close>

fun send_loop :: "int list \<Rightarrow> u8 list \<Rightarrow> nat \<Rightarrow> (bool \<times> u8 list) option" where
  "send_loop results frame sent =
     (if sent < length frame
      then case results of
             [] \<Rightarrow> None
           | n # rs \<Rightarrow> if n \<le> 0 then Some (False, take sent frame) else send_loop rs frame (sent + nat n)
      else Some (True, frame))"

definition ws_send_frame :: "int list \<Rightarrow> u8 \<Rightarrow> u8 list \<Rightarrow> (bool \<times> u8 list) option" where
  "ws_send_frame results opcode payload = send_loop results (ws_frame opcode payload) 0"

section \<open>Frames from a client\<close>

definition read_exact :: "nat \<Rightarrow> u8 list \<Rightarrow> (u8 list \<times> u8 list) option" where
  "read_exact n bs = (if length bs < n then None else Some (take n bs, drop n bs))"

definition get_be :: "nat \<Rightarrow> u8 list \<Rightarrow> u64" where
  "get_be n ext = foldl (\<lambda>len i. push_bit 8 len OR ucast (ext ! i)) 0 [0..<n]"

text \<open>Reading one frame: the connection ended, the payload cannot be allocated (its length is
  larger than the largest vector), or the opcode, the unmasked payload and what follows.\<close>

datatype frame_read = Ended | Too_large | Frame u8 "u8 list" "u8 list"

definition VECTOR_MAX :: u64 where
  "VECTOR_MAX = 0x7FFFFFFFFFFFFFFF"

definition read_length :: "u64 \<Rightarrow> u8 list \<Rightarrow> (u64 \<times> u8 list) option" where
  "read_length len bs =
     (if len = 126 then map_option (\<lambda>(ext, bs'). (get_be 2 ext, bs')) (read_exact 2 bs)
      else if len = 127 then map_option (\<lambda>(ext, bs'). (get_be 8 ext, bs')) (read_exact 8 bs)
      else Some (len, bs))"

definition unmask :: "u8 list \<Rightarrow> u8 list \<Rightarrow> u8 list" where
  "unmask key p = map (\<lambda>i. (p ! i) XOR (key ! (i mod 4))) [0..<length p]"

definition read_payload :: "u8 \<Rightarrow> u64 \<Rightarrow> u8 list option \<Rightarrow> u8 list \<Rightarrow> frame_read" where
  "read_payload opcode len key bs =
     (if len > VECTOR_MAX then Too_large
      else (case (if len > 0 then read_exact (unat len) bs else Some ([], bs)) of
              None \<Rightarrow> Ended
            | Some (p, rest) \<Rightarrow>
                Frame opcode (case key of None \<Rightarrow> p | Some k \<Rightarrow> unmask k p) rest))"

definition read_frame :: "u8 list \<Rightarrow> frame_read" where
  "read_frame bs =
     (case read_exact 2 bs of
        None \<Rightarrow> Ended
      | Some (hdr, bs1) \<Rightarrow>
          (case read_length (ucast ((hdr ! 1) AND 0x7F)) bs1 of
             None \<Rightarrow> Ended
           | Some (len, bs2) \<Rightarrow>
               if (hdr ! 1) AND 0x80 \<noteq> 0
               then (case read_exact 4 bs2 of
                       None \<Rightarrow> Ended
                     | Some (key, bs3) \<Rightarrow> read_payload ((hdr ! 0) AND 0x0F) len (Some key) bs3)
               else read_payload ((hdr ! 0) AND 0x0F) len None bs2))"

text \<open>\<^verbatim>\<open>ws_handle_incoming_frame\<close>: whether the connection stays open, the answer
  (opcode and payload), if any, and what follows. \<open>None\<close> is the exception of the
  allocation, which ends the program because the thread is detached.\<close>

definition ws_handle_incoming_frame :: "u8 list \<Rightarrow> (bool \<times> (u8 \<times> u8 list) option \<times> u8 list) option" where
  "ws_handle_incoming_frame bs =
     (case read_frame bs of
        Ended \<Rightarrow> Some (False, None, [])
      | Too_large \<Rightarrow> None
      | Frame opcode payload rest \<Rightarrow>
          if opcode = 8 then Some (False, Some (8, payload), rest)
          else if opcode = 9 then Some (True, Some (0xA, payload), rest)
          else Some (True, None, rest))"

text \<open>The serving loop of \<^verbatim>\<open>handshake_and_serve\<close> while the endpoint runs: the
  answers to the frames of the client, up to the one that ends the connection.\<close>

lemma read_exact_Some: "read_exact n bs = Some (x, y) \<longleftrightarrow> n \<le> length bs \<and> x = take n bs \<and> y = drop n bs"
  by (auto simp: read_exact_def)

lemma read_length_less: "read_length l bs = Some (x, y) \<Longrightarrow> length y \<le> length bs"
  by (auto simp: read_length_def read_exact_Some split: if_splits)

lemma read_payload_less: "read_payload opc l k bs = Frame opc' p rest \<Longrightarrow> length rest \<le> length bs"
  by (auto simp: read_payload_def read_exact_Some split: option.splits if_splits)

lemma read_frame_less: "read_frame bs = Frame opc p rest \<Longrightarrow> length rest < length bs"
  by (auto simp: read_frame_def read_exact_Some split: option.splits if_splits
      dest!: read_length_less read_payload_less) linarith+

lemma incoming_less: "ws_handle_incoming_frame bs = Some (True, ans, rest) \<Longrightarrow> length rest < length bs"
  by (auto simp: ws_handle_incoming_frame_def split: frame_read.splits if_splits dest: read_frame_less)

function ws_serve :: "u8 list \<Rightarrow> (u8 \<times> u8 list) option list option" where
  "ws_serve bs =
     (case ws_handle_incoming_frame bs of
        None \<Rightarrow> None
      | Some (stay, ans, rest) \<Rightarrow> if stay then map_option (Cons ans) (ws_serve rest) else Some [ans])"
  by pat_completeness auto
termination
  by (relation "measure length") (auto dest: incoming_less)

declare ws_serve.simps [simp del]

section \<open>The handshake\<close>

abbreviation CRLF :: string where
  "CRLF \<equiv> [CHR 0x0D, CHR 0x0A]"

definition ends_with :: "string \<Rightarrow> string \<Rightarrow> bool" where
  "ends_with e s \<longleftrightarrow> length s \<ge> length e \<and> drop (length s - length e) s = e"

text \<open>Reading the request byte by byte; \<open>None\<close>: the connection ended first.\<close>

fun read_headers :: "string \<Rightarrow> string \<Rightarrow> string option" where
  "read_headers req input =
     (if length req < 8192
      then case input of
             [] \<Rightarrow> None
           | c # cs \<Rightarrow> if ends_with (CRLF @ CRLF) (req @ [c]) then Some (req @ [c]) else read_headers (req @ [c]) cs
      else Some req)"

definition is_space_tab :: "char \<Rightarrow> bool" where
  "is_space_tab c \<longleftrightarrow> c = CHR '' '' \<or> c = CHR 0x09"

definition KEY_HEADER :: string where
  "KEY_HEADER = ''Sec-WebSocket-Key:''"

definition parse_ws_key :: "string \<Rightarrow> string" where
  "parse_ws_key input =
     (case read_headers [] input of
        None \<Rightarrow> []
      | Some req \<Rightarrow>
          (case find_sub KEY_HEADER req of
             None \<Rightarrow> []
           | Some p \<Rightarrow>
               (let rest = drop (p + length KEY_HEADER) req;
                    key = (case find_sub CRLF rest of None \<Rightarrow> rest | Some e \<Rightarrow> take e rest)
                in case find_first (\<lambda>c. \<not> is_space_tab c) key of
                     None \<Rightarrow> []
                   | Some a \<Rightarrow> (case find_last (\<lambda>c. \<not> is_space_tab c) key of
                       None \<Rightarrow> []
                     | Some b \<Rightarrow> substr key a (b - a + 1)))))"

definition ws_accept_key :: "string \<Rightarrow> string" where
  "ws_accept_key client_key = base64_encode (sha1_digest (client_key @ ''258EAFA5-E914-47DA-95CA-C5AB0DC85B11''))"

definition handshake_response :: "string \<Rightarrow> string" where
  "handshake_response key =
     ''HTTP/1.1 101 Switching Protocols'' @ CRLF @ ''Upgrade: websocket'' @ CRLF @
     ''Connection: Upgrade'' @ CRLF @ ''Sec-WebSocket-Accept: '' @ ws_accept_key key @ CRLF @ CRLF"

section \<open>The message\<close>

abbreviation QUOTE :: char where
  "QUOTE \<equiv> CHR 0x22"

definition json_field :: "string \<Rightarrow> string" where
  "json_field name = [QUOTE] @ name @ [QUOTE, CHR '':'']"

text \<open>\<open>None\<close>: an identifier is not terminated.\<close>

definition to_json :: "event \<Rightarrow> string option" where
  "to_json ev =
     (case (stream_of ev, schema_of ev) of
        (Some sid, Some sch) \<Rightarrow> Some (''{'' @
          json_field ''ts'' @ show_nat (unat (ev_timestamp_ns ev)) @ '','' @
          json_field ''seq'' @ show_nat (unat (ev_sequence ev)) @ '','' @
          json_field ''lineage'' @ show_nat (unat (ev_lineage_depth ev)) @ '','' @
          json_field ''stream'' @ [QUOTE] @ sid @ [QUOTE] @ '','' @
          json_field ''schema'' @ [QUOTE] @ sch @ [QUOTE] @ '','' @
          json_field ''payload_size'' @ show_nat (unat (ev_payload_size ev)) @ '','' @
          json_field ''payload_b64'' @ [QUOTE] @ base64_encode (payload_of ev) @ [QUOTE] @ ''}'')
      | _ \<Rightarrow> None)"

section \<open>The endpoint\<close>

text \<open>\<open>ws_sent\<close> records what has been put on each connection.\<close>

record ws_endpoint =
  ws_id :: string
  ws_running :: bool
  ws_clients :: "int list"
  ws_sent :: "(int \<times> u8 list) list"

text \<open>The loop over the clients: those whose send fails are closed and erased. The results are
  given per client.\<close>

fun ws_broadcast :: "(int \<Rightarrow> int list) \<Rightarrow> u8 list \<Rightarrow> int list \<Rightarrow> (int list \<times> (int \<times> u8 list) list) option" where
  "ws_broadcast results payload [] = Some ([], [])"
| "ws_broadcast results payload (fd # fds) =
     (case ws_send_frame (results fd) 1 payload of
        None \<Rightarrow> None
      | Some (ok, out) \<Rightarrow>
          map_option (\<lambda>(keep, sent). (if ok then fd # keep else keep, (fd, out) # sent))
            (ws_broadcast results payload fds))"

definition ws_publish :: "(int \<Rightarrow> int list) \<Rightarrow> event \<Rightarrow> ws_endpoint \<Rightarrow> ws_endpoint option" where
  "ws_publish results ev ep =
     (case to_json ev of
        None \<Rightarrow> None
      | Some json \<Rightarrow>
          map_option (\<lambda>(keep, sent). ep\<lparr>ws_clients := keep, ws_sent := ws_sent ep @ sent\<rparr>)
            (ws_broadcast results (bytes_of json) (ws_clients ep)))"

text \<open>The accepted connection: the handshake (the answer is \<open>None\<close> when the connection is
  closed at once), and the removal when the connection ends.\<close>

definition ws_connect :: "int \<Rightarrow> string \<Rightarrow> bool \<Rightarrow> ws_endpoint \<Rightarrow> string option \<times> ws_endpoint" where
  "ws_connect fd input send_ok ep =
     (let key = parse_ws_key input in
      if key = [] then (None, ep)
      else if \<not> send_ok then (Some (handshake_response key), ep)
      else (Some (handshake_response key), ep\<lparr>ws_clients := ws_clients ep @ [fd]\<rparr>))"

definition ws_disconnect :: "int \<Rightarrow> ws_endpoint \<Rightarrow> ws_endpoint" where
  "ws_disconnect fd ep = ep\<lparr>ws_clients := remove1 fd (ws_clients ep)\<rparr>"

end
