(* ===== verification/Http_Endpoint.thy ===== *)
theory Http_Endpoint
  imports WebSocket
begin

text \<open>
  The \<^verbatim>\<open>HttpEndpoint\<close> of \<^verbatim>\<open>publisher/endpoints.hpp\<close>: it keeps the payload of
  the latest event and serves it to a GET request for its path. A connection is the list of
  results of \<^verbatim>\<open>recv\<close>: a piece of text (empty when the peer has finished) or \<open>None\<close>
  for an error; when the list is used up the call blocks.
\<close>

section \<open>State\<close>

record http_endpoint =
  he_id :: string
  he_host :: string
  he_port :: u16
  he_path :: string
  he_content_type :: string
  he_payload :: string
  he_last_update :: u64
  he_clients :: "int list"

definition http_new :: "string \<Rightarrow> string \<Rightarrow> u16 \<Rightarrow> string \<Rightarrow> string \<Rightarrow> http_endpoint" where
  "http_new eid host port path content_type =
     \<lparr>he_id = eid, he_host = host, he_port = port, he_path = path, he_content_type = content_type,
      he_payload = [], he_last_update = 0, he_clients = []\<rparr>"

definition http_publish :: "event \<Rightarrow> http_endpoint \<Rightarrow> http_endpoint" where
  "http_publish ev ep =
     ep\<lparr>he_payload := chars_of (payload_of ev), he_last_update := ev_timestamp_ns ev\<rparr>"

section \<open>Reading a request\<close>

text \<open>The loop on \<^verbatim>\<open>recv\<close>: \<open>None\<close> while it blocks, \<open>Some None\<close> after an error,
  otherwise the request.\<close>

definition has_blank_line :: "string \<Rightarrow> bool" where
  "has_blank_line req \<longleftrightarrow> find_sub (CRLF @ CRLF) req \<noteq> None \<or> find_sub [CHR 0x0A, CHR 0x0A] req \<noteq> None"

fun http_read :: "string \<Rightarrow> string option list \<Rightarrow> string option option" where
  "http_read req [] = None"
| "http_read req (None # rs) = Some None"
| "http_read req (Some buf # rs) =
     (if buf = [] then Some (Some req)
      else if has_blank_line (req @ buf) then Some (Some (req @ buf))
      else http_read (req @ buf) rs)"

text \<open>\<^verbatim>\<open>iss >> word\<close>: the word and the rest of the stream.\<close>

definition next_word :: "string \<Rightarrow> string \<times> string" where
  "next_word s =
     (let t = dropWhile is_space s in (takeWhile (\<lambda>c. \<not> is_space c) t, dropWhile (\<lambda>c. \<not> is_space c) t))"

definition request_line :: "string \<Rightarrow> string \<times> string" where
  "request_line req =
     (let (meth, s1) = next_word req; (path, s2) = next_word s1 in (meth, path))"

section \<open>The response\<close>

definition http_response :: "string \<Rightarrow> http_endpoint \<Rightarrow> string" where
  "http_response req ep =
     (let (meth, path) = request_line req in
      if meth = ''GET'' \<and> path = he_path ep then
        ''HTTP/1.1 200 OK'' @ CRLF @
        ''Content-Type: '' @ he_content_type ep @ CRLF @
        ''Content-Length: '' @ show_nat (length (he_payload ep)) @ CRLF @
        ''Connection: close'' @ CRLF @ CRLF @ he_payload ep
      else if meth = ''GET'' \<and> path = ''/health'' then
        ''HTTP/1.1 200 OK'' @ CRLF @ ''Content-Type: text/plain'' @ CRLF @ ''Content-Length: 2'' @ CRLF @
        ''Connection: close'' @ CRLF @ CRLF @ ''OK''
      else if meth \<noteq> ''GET'' then
        ''HTTP/1.1 405 Method Not Allowed'' @ CRLF @ ''Allow: GET'' @ CRLF @ ''Connection: close'' @ CRLF @ CRLF
      else ''HTTP/1.1 404 Not Found'' @ CRLF @ ''Connection: close'' @ CRLF @ CRLF)"

text \<open>A connection has three steps, and other threads run between them: it is entered in the
  list of clients, it reads its request and sends the answer made from the state at that time,
  and it is removed.\<close>

definition http_begin :: "int \<Rightarrow> http_endpoint \<Rightarrow> http_endpoint" where
  "http_begin fd ep = ep\<lparr>he_clients := he_clients ep @ [fd]\<rparr>"

definition remove_client :: "int \<Rightarrow> http_endpoint \<Rightarrow> http_endpoint" where
  "remove_client fd ep = ep\<lparr>he_clients := remove1 fd (he_clients ep)\<rparr>"

text \<open>\<open>Some None\<close>: the connection is closed without an answer.\<close>

definition http_answer :: "string option list \<Rightarrow> http_endpoint \<Rightarrow> string option option" where
  "http_answer rs ep = map_option (map_option (\<lambda>req. http_response req ep)) (http_read [] rs)"

text \<open>\<^verbatim>\<open>handle_client\<close> with nothing in between, and with the publishes \<open>mid\<close> that
  come while it waits for the request.\<close>

definition handle_client ::
  "int \<Rightarrow> string option list \<Rightarrow> event list \<Rightarrow> http_endpoint \<Rightarrow> (string option \<times> http_endpoint) option" where
  "handle_client fd rs mid ep =
     (let ep' = fold http_publish mid (http_begin fd ep) in
      map_option (\<lambda>ans. (ans, remove_client fd ep')) (http_answer rs ep'))"

end
