(* ===== verification/WebSocket_Laws.thy ===== *)
theory WebSocket_Laws
  imports WebSocket Config_Laws
begin

text \<open>
  What a WebSocket client sees of the endpoint and what the endpoint makes of a client's frames.
  The peer is specified here from RFC 6455: \<open>client_frame\<close> is the masked frame a client
  sends, and the code's own reader \<open>read_frame\<close> serves as the reader of a client, which accepts
  unmasked frames as well.
\<close>

section \<open>Lengths on the wire\<close>

lemma get_be_8: "get_be 8 (be64 v @ rest) = v"
proof -
  obtain a b c d e f g h where q: "put_le 8 v = [a, b, c, d, e, f, g, h]"
    using length_put_le [of 8 v] by (auto simp: length_Suc_conv numeral_eq_Suc)
  have "get_be 8 (be64 v @ rest) = r64 (put_le 8 v)"
    unfolding be64_eq q by (simp add: get_be_def r64_def upt_rec)
  also have "\<dots> = v" using wasm64.get_put_alone [of v] by (simp add: w64_eq)
  finally show ?thesis .
qed

interpretation be64: byte_codec be64 "get_be 8" 8
  by unfold_locales (simp_all add: get_be_8)

lemma get_be_2:
  assumes "len \<le> 0xFFFF"
  shows "get_be 2 (ucast (drop_bit 8 len) # ucast len # rest) = len"
proof -
  have "unat len < 2 ^ 16" using assms by (simp add: word_le_nat_alt)
  note b = bit_small [OF this]
  show ?thesis
    by (rule bit_word_eqI) (auto simp: get_be_def upt_rec bit_simps dest: b)
qed

definition len_code :: "u8 list \<Rightarrow> u8 \<times> u8 list" where
  "len_code p =
     (let len = (of_nat (length p) :: u64) in
      if len \<le> 125 then (ucast len, [])
      else if len \<le> 0xFFFF then (126, [ucast (drop_bit 8 len), ucast len])
      else (127, be64 len))"

definition client_frame :: "u8 list \<Rightarrow> u8 \<Rightarrow> u8 list \<Rightarrow> u8 list" where
  "client_frame key opcode p =
     (0x80 OR (opcode AND 0x0F)) # (0x80 OR fst (len_code p)) # snd (len_code p) @ key @ unmask key p"

lemma ws_frame_eq:
  "ws_frame opcode p = (0x80 OR (opcode AND 0x0F)) # fst (len_code p) # snd (len_code p) @ p"
  by (simp add: ws_frame_def len_code_def Let_def)

lemma fst_len_code: "unat (fst (len_code p)) < 2 ^ 7"
proof (cases "(of_nat (length p) :: u64) \<le> 125")
  case True
  have "unat (ucast x :: u8) \<le> unat x" for x :: u64 by (simp add: unsigned_ucast_eq)
  from order_trans [OF this, of "of_nat (length p)" 125] True show ?thesis
    by (simp add: len_code_def word_le_nat_alt)
qed (simp add: len_code_def Let_def)

lemma u8_bits:
  "bit (0x80 :: u8) n \<longleftrightarrow> n = 7" "bit (0x7F :: u8) n \<longleftrightarrow> n < 7" "bit (0x0F :: u8) n \<longleftrightarrow> n < 4"
  using bit_exp_iff [of 7 n, where 'a = "8 word"] bit_mask_iff [of 7 n, where 'a = "8 word"]
    bit_mask_iff [of 4 n, where 'a = "8 word"]
  by (auto simp: mask_eq_exp_minus_1)

lemma hdr_bits:
  fixes x :: u8
  assumes "unat x < 2 ^ 7"
  shows "x AND 0x7F = x" "x AND 0x80 = 0" "(0x80 OR x) AND 0x7F = x" "(0x80 OR x) AND 0x80 = 0x80"
  by (rule bit_word_eqI; simp only: bit_and_iff bit_or_iff u8_bits; auto dest: bit_small [OF assms])+

lemma opcode_bits: "(0x80 OR (opc AND 0x0F)) AND 0x0F = opc AND 0x0F" for opc :: u8
  by (rule bit_word_eqI, simp only: bit_and_iff bit_or_iff u8_bits) auto

lemma read_length_code:
  assumes "length p < 2 ^ 64"
  shows "read_length (ucast (fst (len_code p))) (snd (len_code p) @ rest) = Some (of_nat (length p), rest)"
proof -
  let ?len = "of_nat (length p) :: u64"
  show ?thesis
  proof (cases "?len \<le> 125")
    case True
    then have small: "unat ?len < 2 ^ 7" by (simp add: word_le_nat_alt)
    have "ucast (ucast x :: u8) = x" if "unat x < 2 ^ 7" for x :: u64
      by (rule bit_word_eqI) (auto simp: bit_simps dest: bit_small [OF that])
    from this [OF small] have "ucast (ucast ?len :: u8) = ?len" .
    moreover have "?len \<noteq> 126" "?len \<noteq> 127" using True by auto
    ultimately show ?thesis
      by (simp only: len_code_def Let_def True if_True if_False fst_conv snd_conv append_Nil read_length_def)
  next
    case False
    have two: "read_exact 2 ([a, b] @ rest) = Some ([a, b], rest)" for a b by (simp add: read_exact_def)
    have eight: "read_exact 8 (be64 v @ rest) = Some (be64 v, rest)" for v by (simp add: read_exact_def)
    show ?thesis
    proof (cases "?len \<le> 0xFFFF")
      case True
      have "ucast (126 :: u8) = (126 :: u64)" by simp
      with False True two get_be_2 [OF True, of "[]"] show ?thesis
        by (simp only: len_code_def Let_def if_True if_False fst_conv snd_conv read_length_def
            option.map prod.case simp_thms)
    next
      case big: False
      have "ucast (127 :: u8) = (127 :: u64)" "(127 :: u64) \<noteq> 126" by simp_all
      with False big eight be64.get_put_alone [of ?len] show ?thesis
        by (simp only: len_code_def Let_def if_True if_False fst_conv snd_conv read_length_def
            option.map prod.case simp_thms)
    qed
  qed
qed

lemma VECTOR_MAX_len: "length p < 2 ^ 63 \<Longrightarrow> \<not> VECTOR_MAX < (of_nat (length p) :: u64)"
  by (simp add: VECTOR_MAX_def word_less_nat_alt unat_of_nat)

lemma read_payload_whole:
  assumes "length p < 2 ^ 63"
  shows "read_payload opc (of_nat (length p)) key (p @ rest) =
    Frame opc (case key of None \<Rightarrow> p | Some k \<Rightarrow> unmask k p) rest"
proof -
  have u: "unat (of_nat (length p) :: u64) = length p" using assms by (simp add: unat_of_nat)
  have "(0 < (of_nat (length p) :: u64)) = (p \<noteq> [])"
    using u by (metis length_greater_0_conv unat_gt_0 word_gt_0)
  then show ?thesis
    using VECTOR_MAX_len [OF assms] u by (auto simp: read_payload_def read_exact_def)
qed

lemma length_unmask [simp]: "length (unmask k p) = length p"
  by (simp add: unmask_def)

lemma unmask_unmask [simp]: "unmask k (unmask k p) = p"
proof (rule nth_equalityI)
  fix i assume "i < length (unmask k (unmask k p))"
  then show "unmask k (unmask k p) ! i = p ! i"
    by (simp add: unmask_def) (metis xor.assoc xor.right_neutral xor_self_eq)
qed simp

text \<open>A frame of the server, and a masked frame of a client, are read back whole.\<close>

lemma read_ws_frame:
  assumes "length p < 2 ^ 63"
  shows "read_frame (ws_frame opc p @ rest) = Frame (opc AND 0x0F) p rest"
proof -
  have "length p < 2 ^ 64" using assms by simp
  from read_length_code [OF this, of "p @ rest"] show ?thesis
    using read_payload_whole [OF assms, of "opc AND 0x0F" None rest]
    by (simp add: read_frame_def ws_frame_eq read_exact_def hdr_bits [OF fst_len_code] opcode_bits)
qed

lemma read_client_frame:
  assumes "length p < 2 ^ 63" "length key = 4"
  shows "read_frame (client_frame key opc p @ rest) = Frame (opc AND 0x0F) p rest"
proof -
  have "length p < 2 ^ 64" using assms by simp
  from read_length_code [OF this, of "key @ unmask key p @ rest"] show ?thesis
    using assms read_payload_whole [of "unmask key p" "opc AND 0x0F" "Some key" rest]
    by (simp add: read_frame_def client_frame_def read_exact_def hdr_bits [OF fst_len_code] opcode_bits)
qed

section \<open>Sending\<close>

declare send_loop.simps [simp del]

text \<open>The kernel takes at least \<open>n\<close> bytes in pieces.\<close>

definition takes_all :: "int list \<Rightarrow> nat \<Rightarrow> bool" where
  "takes_all rs n \<longleftrightarrow> (\<forall>r\<in>set rs. 0 < r) \<and> int n \<le> sum_list rs"

lemma send_loop_ok:
  "\<forall>r\<in>set rs. 0 < r \<Longrightarrow> int (length f) \<le> int sent + sum_list rs \<Longrightarrow> send_loop rs f sent = Some (True, f)"
proof (induction rs arbitrary: sent)
  case Nil
  then show ?case by (subst send_loop.simps) simp
next
  case (Cons r rs)
  then show ?case by (subst send_loop.simps) simp
qed

lemma length_ws_frame: "length (ws_frame opc p) \<le> length p + 10"
  by (simp add: ws_frame_def Let_def)

lemma ws_send_frame_ok:
  "takes_all rs (length (ws_frame opc p)) \<Longrightarrow> ws_send_frame rs opc p = Some (True, ws_frame opc p)"
  by (simp add: takes_all_def ws_send_frame_def send_loop_ok)

lemma ws_broadcast_result:
  assumes "ws_broadcast results p fds = Some (keep, sent)"
  shows "keep = filter (\<lambda>fd. fst (the (ws_send_frame (results fd) 1 p))) fds"
    and "sent = map (\<lambda>fd. (fd, snd (the (ws_send_frame (results fd) 1 p)))) fds"
  using assms
  by (induction fds arbitrary: keep sent) (force split: option.splits if_splits)+

section \<open>What a client has received\<close>

function ws_messages :: "u8 list \<Rightarrow> (u8 \<times> u8 list) list" where
  "ws_messages bs =
     (case read_frame bs of Frame opc p rest \<Rightarrow> (opc, p) # ws_messages rest | _ \<Rightarrow> [])"
  by pat_completeness auto
termination by (relation "measure length") (auto dest: read_frame_less)

declare ws_messages.simps [simp del]

lemma ws_messages_Nil [simp]: "ws_messages [] = []"
  by (simp add: ws_messages.simps read_frame_def read_exact_def)

lemma ws_messages_frame:
  "length p < 2 ^ 63 \<Longrightarrow> ws_messages (ws_frame opc p @ rest) = (opc AND 0x0F, p) # ws_messages rest"
  by (subst ws_messages.simps) (simp add: read_ws_frame)

lemma ws_messages_text:
  assumes "length p < 2 ^ 63"
  shows "ws_messages (ws_frame 1 p @ rest) = (1, p) # ws_messages rest"
proof -
  have "(1 :: u8) AND 0x0F = 1" by simp
  then show ?thesis using ws_messages_frame [OF assms, of 1 rest] by simp
qed

definition on_conn :: "int \<Rightarrow> ws_endpoint \<Rightarrow> u8 list" where
  "on_conn fd ep = concat (map snd (filter (\<lambda>x. fst x = fd) (ws_sent ep)))"

fun ws_publish_run :: "((int \<Rightarrow> int list) \<times> event) list \<Rightarrow> ws_endpoint \<Rightarrow> ws_endpoint option" where
  "ws_publish_run [] ep = Some ep"
| "ws_publish_run ((rs, ev) # evs) ep =
     (case ws_publish rs ev ep of None \<Rightarrow> None | Some ep' \<Rightarrow> ws_publish_run evs ep')"

lemma filter_one: "distinct fds \<Longrightarrow> filter (\<lambda>x. fst x = fd) (map (\<lambda>fd. (fd, f fd)) fds) =
    (if fd \<in> set fds then [(fd, f fd)] else [])"
  by (induction fds) auto

lemma ws_publish_step:
  assumes "ws_publish rs ev ep = Some ep'" "to_json ev = Some json" "fd \<in> set (ws_clients ep)"
    "distinct (ws_clients ep)" "takes_all (rs fd) (length (ws_frame 1 (bytes_of json)))"
  shows "fd \<in> set (ws_clients ep')" "distinct (ws_clients ep')"
    "on_conn fd ep' = on_conn fd ep @ ws_frame 1 (bytes_of json)"
proof -
  from assms(1,2) obtain keep sent where b: "ws_broadcast rs (bytes_of json) (ws_clients ep) = Some (keep, sent)"
    and ep': "ep' = ep\<lparr>ws_clients := keep, ws_sent := ws_sent ep @ sent\<rparr>"
    by (auto simp: ws_publish_def)
  note r = ws_broadcast_result [OF b] and ok = ws_send_frame_ok [OF assms(5)]
  show "fd \<in> set (ws_clients ep')" "distinct (ws_clients ep')"
    using assms(3,4) ok by (simp_all add: ep' r)
  show "on_conn fd ep' = on_conn fd ep @ ws_frame 1 (bytes_of json)"
    using assms(3) ok by (simp add: on_conn_def ep' r(2) filter_one [OF assms(4)])
qed

section \<open>The message\<close>

lemma length_show_u64: "length (show_nat (unat (x :: u64))) \<le> 20"
  using length_show_nat [of "unat x" 19] unat_u64_less [of x] by simp

lemma length_show_u32: "length (show_nat (unat (x :: u32))) \<le> 20"
  using length_show_nat [of "unat x" 19] unsigned_less [of x, where 'a = nat] by simp

lemma length_show_u16: "length (show_nat (unat (x :: u16))) \<le> 20"
  using length_show_nat [of "unat x" 19] unsigned_less [of x, where 'a = nat] by simp

lemma c_read_length: "c_read buf = Some s \<Longrightarrow> length s \<le> length buf"
  by (auto simp: c_read_def length_takeWhile_le split: if_splits)

lemma length_to_json:
  assumes "event_ok ev" "to_json ev = Some json"
  shows "length json < 2 ^ 63"
proof -
  have a: "a \<le> 20 \<Longrightarrow> b \<le> 20 \<Longrightarrow> c \<le> 20 \<Longrightarrow> d \<le> 20 \<Longrightarrow> x \<le> 32 \<Longrightarrow> y \<le> 16 \<Longrightarrow> z \<le> 1100 \<Longrightarrow>
      a + b + c + d + x + y + z < (9223372036854775708 :: nat)" for a b c d x y z by simp
  from assms(2) obtain sid sch where ids: "stream_of ev = Some sid" "schema_of ev = Some sch"
    by (auto simp: to_json_def split: option.splits)
  have sid: "length sid \<le> 32" "length sch \<le> 16"
    using ids assms(1) c_read_length [of "ev_stream_id ev" sid] c_read_length [of "ev_schema_id ev" sch]
    by (auto simp: stream_of_def schema_of_def event_ok_def event_shape_def event_sizes)
  have "length (base64_encode (payload_of ev)) \<le> 1100"
    using assms(1) by (auto simp: length_base64_encode payload_of_def event_ok_def event_shape_def event_sizes)
  from a [OF length_show_u64 length_show_u64 length_show_u32 length_show_u16 sid this,
      of "ev_timestamp_ns ev" "ev_sequence ev" "ev_lineage_depth ev" "ev_payload_size ev"]
  show ?thesis using assms(2) by (auto simp: to_json_def ids json_field_def)
qed

lemma ws_messages_json:
  assumes "event_ok ev" "to_json ev = Some json"
  shows "ws_messages (ws_frame 1 (bytes_of json) @ rest) = (1, bytes_of json) # ws_messages rest"
  by (rule ws_messages_text) (simp only: length_bytes_of length_to_json [OF assms])

lemma split_at: "c \<notin> set xs \<Longrightarrow> c \<notin> set ys \<Longrightarrow> xs @ c # r = ys @ c # r' \<longleftrightarrow> xs = ys \<and> r = r'"
proof (induction xs arbitrary: ys)
  case Nil
  then show ?case by (cases ys) auto
next
  case (Cons x xs)
  then show ?case by (cases ys) auto
qed

lemma comma_not_digit: "CHR '','' \<notin> set (show_nat n)"
  by (rule not_digit_show_nat) (simp add: is_digit_def)

lemma show_nat_eq [simp]: "show_nat m = show_nat n \<longleftrightarrow> m = n"
  by (metis dec_val_show_nat)

lemma base64_encode_eq: "base64_encode p = base64_encode q \<longleftrightarrow> p = q"
  by (metis b64_decode_encode)

text \<open>An identifier that does not close its own string.\<close>

definition plain_ids :: "event \<Rightarrow> bool" where
  "plain_ids ev \<longleftrightarrow> (case (stream_of ev, schema_of ev) of
     (Some s, Some t) \<Rightarrow> QUOTE \<notin> set s \<and> QUOTE \<notin> set t | _ \<Rightarrow> False)"

lemma to_json_inject:
  assumes "to_json e = Some j" "to_json e' = Some j" "plain_ids e" "plain_ids e'"
  shows "ev_timestamp_ns e = ev_timestamp_ns e' \<and> ev_sequence e = ev_sequence e' \<and>
    ev_lineage_depth e = ev_lineage_depth e' \<and> stream_of e = stream_of e' \<and>
    schema_of e = schema_of e' \<and> payload_of e = payload_of e'"
  using assms
  by (auto simp: to_json_def plain_ids_def json_field_def split_at comma_not_digit base64_no_quote
      base64_encode_eq word_unat_eq_iff split: option.splits)

text \<open>An identifier that does close its string makes the message ambiguous: the identifiers are
  not escaped.\<close>

definition quoting :: string where
  "quoting = [QUOTE, CHR '',''] @ json_field ''schema'' @ [QUOTE]"

lemma to_json_ambiguous:
  defines "e \<equiv> set_schema ''c'' (set_stream (''a'' @ quoting @ ''b'') event_default)"
    and "e' \<equiv> set_schema (''b'' @ quoting @ ''c'') (set_stream ''a'' event_default)"
  shows "stream_of e \<noteq> stream_of e' \<and> to_json e = to_json e' \<and> to_json e \<noteq> None"
proof -
  have ids: "stream_of e = Some (''a'' @ quoting @ ''b'')" "schema_of e = Some ''c''"
    "stream_of e' = Some ''a''" "schema_of e' = Some (''b'' @ quoting @ ''c'')"
    unfolding e_def e'_def
    by (simp_all add: stream_of_def schema_of_set_schema stream_of_set_stream [unfolded stream_of_def]
        c_str_simps quoting_def json_field_def)
  show ?thesis
    by (simp add: ids to_json_def quoting_def json_field_def)
       (simp add: e_def e'_def payload_of_def event_default_def)
qed

section \<open>The handshake\<close>

declare read_headers.simps [simp del]

lemma read_headers_ends:
  assumes "length (acc @ xs) \<le> 8192" "ends_with e (acc @ xs)" "xs \<noteq> []" "e = CRLF @ CRLF"
    "\<forall>n<length xs. 0 < n \<longrightarrow> \<not> ends_with e (acc @ take n xs)"
  shows "read_headers acc (xs @ later) = Some (acc @ xs)"
  using assms
proof (induction xs arbitrary: acc)
  case (Cons x xs)
  show ?case
  proof (cases "xs = []")
    case True
    with Cons.prems show ?thesis by (subst read_headers.simps) simp
  next
    case False
    have "\<not> ends_with (CRLF @ CRLF) (acc @ [x])"
      using Cons.prems(4,5) False by (auto dest: spec [of _ 1])
    moreover have "\<forall>n<length xs. 0 < n \<longrightarrow> \<not> ends_with e ((acc @ [x]) @ take n xs)"
    proof (intro allI impI)
      fix n assume "n < length xs" "0 < n"
      with Cons.prems(5) [rule_format, of "Suc n"]
      show "\<not> ends_with e ((acc @ [x]) @ take n xs)" by simp
    qed
    ultimately show ?thesis
      using Cons.IH [of "acc @ [x]"] Cons.prems False by (subst read_headers.simps) simp
  qed
qed simp

lemma find_sub_first: "CHR 0x0D \<notin> set key \<Longrightarrow> find_sub CRLF (key @ CRLF @ post) = Some (length key)"
  by (induction key) auto

text \<open>A request: what precedes the key's header, the blanks around the key, the key and what
  follows the line.\<close>

definition ws_request :: "string \<Rightarrow> string \<Rightarrow> string \<Rightarrow> string \<Rightarrow> string \<Rightarrow> string" where
  "ws_request pre blanks key blanks' post = pre @ KEY_HEADER @ blanks @ key @ blanks' @ CRLF @ post"

text \<open>It fits the limit of the reader, its first blank line is its end, and the header's name
  first occurs where the header is.\<close>

definition request_ok :: "string \<Rightarrow> string \<Rightarrow> bool" where
  "request_ok pre req \<longleftrightarrow> length req \<le> 8192 \<and> ends_with (CRLF @ CRLF) req \<and>
     list_all (\<lambda>n. \<not> ends_with (CRLF @ CRLF) (take n req)) [1..<length req] \<and>
     find_sub KEY_HEADER req = Some (length pre)"

lemma read_request:
  assumes "request_ok pre req"
  shows "read_headers [] (req @ later) = Some req"
proof -
  from assms have fits: "length req \<le> 8192" and fin: "ends_with (CRLF @ CRLF) req"
    and first: "list_all (\<lambda>n. \<not> ends_with (CRLF @ CRLF) (take n req)) [1..<length req]"
    unfolding request_ok_def by blast+
  have "req \<noteq> []" using fin by (auto simp: ends_with_def)
  moreover have "\<forall>n<length req. 0 < n \<longrightarrow> \<not> ends_with (CRLF @ CRLF) (take n req)"
  proof (intro allI impI)
    fix n assume "n < length req" "0 < n"
    then have "n \<in> set [1..<length req]" by simp
    with first show "\<not> ends_with (CRLF @ CRLF) (take n req)"
      unfolding list_all_iff by blast
  qed
  ultimately show ?thesis
    using read_headers_ends [of "[]" req "CRLF @ CRLF" later, unfolded append_Nil, OF fits fin] by blast
qed

lemma parse_ws_key_request:
  assumes "request_ok pre (ws_request pre blanks key blanks' post)"
    "list_all is_space_tab blanks" "list_all is_space_tab blanks'"
    "key \<noteq> []" "list_all (\<lambda>c. \<not> is_space_tab c \<and> c \<noteq> CHR 0x0D) key"
  shows "parse_ws_key (ws_request pre blanks key blanks' post @ later) = key"
proof -
  let ?req = "ws_request pre blanks key blanks' post"
  have rest: "drop (length pre + length KEY_HEADER) ?req = (blanks @ key @ blanks') @ CRLF @ post"
    by (simp add: ws_request_def)
  have "\<not> is_space_tab (CHR 0x0D)" by (simp add: is_space_tab_def)
  then have "CHR 0x0D \<notin> set (blanks @ key @ blanks')"
    using assms(2,3,5) by (auto simp: list_all_iff)
  from find_sub_first [OF this] have line: "find_sub CRLF ((blanks @ key @ blanks') @ CRLF @ post) =
      Some (length (blanks @ key @ blanks'))" .
  have cut: "take (length (blanks @ key @ blanks')) ((blanks @ key @ blanks') @ CRLF @ post) = blanks @ key @ blanks'"
    by simp
  have ends: "\<not> is_space_tab (hd key)" "\<not> is_space_tab (last key)"
    using assms(4,5) by (simp_all add: list_all_iff)
  have b: "\<forall>c \<in> set blanks. \<not> \<not> is_space_tab c" "\<forall>c \<in> set blanks'. \<not> \<not> is_space_tab c"
    using assms(2,3) by (simp_all add: list_all_iff)
  note found = find_ends [where p = "\<lambda>c. \<not> is_space_tab c", OF b assms(4) ends]
  have "find_sub KEY_HEADER ?req = Some (length pre)" using assms(1) by (simp add: request_ok_def)
  then show ?thesis
    by (simp only: parse_ws_key_def read_request [OF assms(1)] option.case Let_def rest line cut found
        substr_middle [OF assms(4)])
qed

section \<open>Frames of a client\<close>

lemma incoming_client_frame:
  assumes "length p < 2 ^ 63" "length key = 4"
  shows "ws_handle_incoming_frame (client_frame key opc p @ rest) =
    (if opc AND 0x0F = 8 then Some (False, Some (8, p), rest)
     else if opc AND 0x0F = 9 then Some (True, Some (0xA, p), rest)
     else Some (True, None, rest))"
  by (simp add: ws_handle_incoming_frame_def read_client_frame [OF assms])

text \<open>A length field of 2^63 or more: the payload cannot be allocated and the exception is not
  caught.\<close>

lemma incoming_too_large:
  assumes "VECTOR_MAX < len"
  shows "ws_handle_incoming_frame (b # 127 # be64 len @ rest) = None"
proof -
  have "read_length (ucast ((127 :: u8) AND 0x7F)) (be64 len @ rest) = Some (len, rest)"
    by (simp add: read_length_def read_exact_def be64.get_put_alone)
  moreover have "read_exact 2 (b # 127 # be64 len @ rest) = Some ([b, 127], be64 len @ rest)"
    by (simp add: read_exact_def)
  moreover have "(127 :: u8) AND 0x80 = 0" by simp
  ultimately have "read_frame (b # 127 # be64 len @ rest) = Too_large"
    using assms by (simp add: read_frame_def read_payload_def)
  then show ?thesis by (simp add: ws_handle_incoming_frame_def)
qed

definition frame_fits :: "u8 list \<times> u8 \<times> u8 list \<Rightarrow> bool" where
  "frame_fits = (\<lambda>(key, opc, p). length key = 4 \<and> length p < 2 ^ 63)"

definition answer_to :: "u8 list \<times> u8 \<times> u8 list \<Rightarrow> (u8 \<times> u8 list) option" where
  "answer_to = (\<lambda>(key, opc, p). if opc AND 0x0F = 9 then Some (0xA, p) else None)"

definition frames_of :: "(u8 list \<times> u8 \<times> u8 list) list \<Rightarrow> u8 list" where
  "frames_of fs = concat (map (\<lambda>(key, opc, p). client_frame key opc p) fs)"

section \<open>Properties\<close>

text \<open>C17. Every event published while a client accepts what is sent to it reaches that client,
  once and in order, as one text frame: the bytes put on its connection decode to exactly the
  JSON messages of the events, and the client stays in the list.\<close>

theorem ws_client_receives:
  assumes "ws_publish_run evs ep = Some ep'" "fd \<in> set (ws_clients ep)" "distinct (ws_clients ep)"
    and "\<forall>(rs, ev) \<in> set evs. event_ok ev \<and>
          (\<exists>json. to_json ev = Some json \<and> takes_all (rs fd) (length (ws_frame 1 (bytes_of json))))"
    and "on_conn fd ep = []"
  shows "fd \<in> set (ws_clients ep') \<and>
    ws_messages (on_conn fd ep') = map (\<lambda>(rs, ev). (1, bytes_of (the (to_json ev)))) evs"
proof -
  have "fd \<in> set (ws_clients ep') \<and> on_conn fd ep' =
      on_conn fd ep @ concat (map (\<lambda>(rs, ev). ws_frame 1 (bytes_of (the (to_json ev)))) evs)"
    using assms(1-4)
  proof (induction evs arbitrary: ep)
    case (Cons x evs)
    obtain rs ev where x: "x = (rs, ev)" by (cases x)
    from Cons.prems(1) x obtain ep1 where ep1: "ws_publish rs ev ep = Some ep1"
      and run: "ws_publish_run evs ep1 = Some ep'" by (auto split: option.splits)
    from Cons.prems(4) x obtain json where json: "to_json ev = Some json"
      and takes: "takes_all (rs fd) (length (ws_frame 1 (bytes_of json)))" by auto
    note step = ws_publish_step [OF ep1 json Cons.prems(2,3) takes]
    from Cons.IH [OF run step(1,2)] Cons.prems(4) step(3) json x show ?case by simp
  qed simp
  moreover have "ws_messages (concat (map (\<lambda>(rs, ev). ws_frame 1 (bytes_of (the (to_json ev)))) evs)) =
      map (\<lambda>(rs, ev). (1, bytes_of (the (to_json ev)))) evs"
    using assms(4) by (induction evs) (auto simp: ws_messages_json)
  ultimately show ?thesis using assms(5) by simp
qed

theorem ws_client_receives_witness:
  "\<exists>ep' json. to_json (set_stream ''a'' event_default) = Some json \<and>
     ws_messages (on_conn 7 ep') = [(1, bytes_of json), (1, bytes_of json)]"
proof -
  let ?ev = "set_stream ''a'' event_default" and ?rs = "\<lambda>_ :: int. [5, 9223372036854775900 :: int]"
  let ?ep = "\<lparr>ws_id = ''w'', ws_running = True, ws_clients = [7], ws_sent = []\<rparr>"
  have ok: "event_ok ?ev" by (simp add: event_ok_default)
  then obtain json where json: "to_json ?ev = Some json"
    by (auto simp: to_json_def stream_of_def schema_of_def c_read_def event_ok_def)
  have takes: "takes_all (?rs 7) (length (ws_frame 1 (bytes_of json)))"
    using length_ws_frame [of 1 "bytes_of json"] length_to_json [OF ok json] by (simp add: takes_all_def)
  obtain ep' where ep': "ws_publish_run [(?rs, ?ev), (?rs, ?ev)] ?ep = Some ep'"
    using ws_send_frame_ok [OF takes] json by (simp add: ws_publish_def)
  have "ws_messages (on_conn 7 ep') = [(1, bytes_of json), (1, bytes_of json)]"
    using ws_client_receives [OF ep', of 7] ok json takes by (simp add: on_conn_def)
  with json show ?thesis by blast
qed



text \<open>C19. While the connection is open the endpoint answers exactly the pings of a client, each
  with a pong that carries the ping's payload, ignores every other frame, and ends the
  connection at the first close frame, which it echoes; what the client sent after that is not
  read.\<close>

theorem ws_serves_pings:
  assumes "\<forall>f \<in> set fs. frame_fits f \<and> fst (snd f) AND 0x0F \<noteq> 8"
    and "length key = 4" "length p < 2 ^ 63" "opc AND 0x0F = 8"
  shows "ws_serve (frames_of fs @ client_frame key opc p @ rest) = Some (map answer_to fs @ [Some (8, p)])"
  using assms(1)
proof (induction fs)
  case Nil
  show ?case
    using assms(2-4) by (subst ws_serve.simps) (simp add: frames_of_def incoming_client_frame)
next
  case (Cons f fs)
  obtain k o' q where f: "f = (k, o', q)" by (cases f)
  with Cons show ?case
    by (subst ws_serve.simps)
       (simp add: frames_of_def incoming_client_frame frame_fits_def answer_to_def)
qed

theorem ws_serves_pings_witness:
  "ws_serve (client_frame [1, 2, 3, 4] 0x89 [104, 105] @ client_frame [5, 6, 7, 8] 0x88 [] @ []) =
     Some [Some (0xA, [104, 105]), Some (8, [])]"
  using ws_serves_pings [of "[([1, 2, 3, 4], 0x89, [104, 105])]" "[5, 6, 7, 8]" "[]" "0x88" "[]"]
  by (simp add: frames_of_def answer_to_def frame_fits_def)



end
