(* ===== verification/Http_Laws.thy ===== *)
theory Http_Laws
  imports Http_Endpoint WebSocket_Laws
begin

text \<open>
  What an HTTP client gets: \<open>http_lines\<close> is a client's reader of a response, the header lines
  up to the blank one and the body after it. The answers of the endpoint are stated through it.
\<close>

section \<open>A client's reader\<close>

function http_lines :: "string \<Rightarrow> string list \<times> string" where
  "http_lines s =
     (case find_sub CRLF s of
        None \<Rightarrow> ([], s)
      | Some 0 \<Rightarrow> ([], drop 2 s)
      | Some (Suc i) \<Rightarrow> (let (ls, body) = http_lines (drop (Suc i + 2) s) in (take (Suc i) s # ls, body)))"
  by pat_completeness auto
termination
proof (relation "measure length", goal_cases)
  case (2 s a i)
  then have "s \<noteq> []" by auto
  then show ?case by simp
qed simp

declare http_lines.simps [simp del]

lemma http_lines_line:
  assumes "CHR 0x0D \<notin> set l" "l \<noteq> []"
  shows "http_lines (l @ CRLF @ s) = (l # fst (http_lines s), snd (http_lines s))"
proof -
  obtain k where k: "length l = Suc k" using assms(2) by (cases l) auto
  have f: "find_sub CRLF (l @ CRLF @ s) = Some (Suc k)"
    using find_sub_first [OF assms(1), of s] k by (simp only:)
  have d: "drop (Suc k + 2) (l @ CRLF @ s) = s" "take (Suc k) (l @ CRLF @ s) = l"
    by (simp_all flip: k)
  show ?thesis
    by (simp only: http_lines.simps [of "l @ CRLF @ s"] f d option.case nat.case Let_def case_prod_beta)
qed

lemma http_lines_end: "http_lines (CRLF @ body) = ([], body)"
  by (simp add: http_lines.simps)

text \<open>A response that consists of lines, a blank line and a body.\<close>

definition http_text :: "string list \<Rightarrow> string \<Rightarrow> string" where
  "http_text ls body = concat (map (\<lambda>l. l @ CRLF) ls) @ CRLF @ body"

lemma http_lines_text:
  "\<forall>l \<in> set ls. l \<noteq> [] \<and> CHR 0x0D \<notin> set l \<Longrightarrow> http_lines (http_text ls body) = (ls, body)"
proof (induction ls)
  case Nil
  then show ?case using http_lines_end [of body] by (simp add: http_text_def)
next
  case (Cons l ls)
  then have "http_lines (l @ CRLF @ http_text ls body) = (l # ls, body)"
    by (subst http_lines_line) auto
  then show ?case by (simp add: http_text_def)
qed

lemma CR_not_digit: "CHR 0x0D \<notin> set (show_nat n)"
  by (rule not_digit_show_nat) (simp add: is_digit_def)

lemma http_response_lines:
  assumes "request_line req = (meth, path)" "CHR 0x0D \<notin> set (he_content_type ep)"
  shows "http_lines (http_response req ep) =
    (if meth \<noteq> ''GET'' then ([''HTTP/1.1 405 Method Not Allowed'', ''Allow: GET'', ''Connection: close''], [])
     else if path = he_path ep then
       ([''HTTP/1.1 200 OK'', ''Content-Type: '' @ he_content_type ep,
         ''Content-Length: '' @ show_nat (length (he_payload ep)), ''Connection: close''], he_payload ep)
     else if path = ''/health'' then
       ([''HTTP/1.1 200 OK'', ''Content-Type: text/plain'', ''Content-Length: 2'', ''Connection: close''], ''OK'')
     else ([''HTTP/1.1 404 Not Found'', ''Connection: close''], []))"
proof -
  let ?payload = "[''HTTP/1.1 200 OK'', ''Content-Type: '' @ he_content_type ep,
         ''Content-Length: '' @ show_nat (length (he_payload ep)), ''Connection: close'']"
  let ?health = "[''HTTP/1.1 200 OK'', ''Content-Type: text/plain'', ''Content-Length: 2'', ''Connection: close'']"
  let ?refused = "[''HTTP/1.1 405 Method Not Allowed'', ''Allow: GET'', ''Connection: close'']"
  let ?missing = "[''HTTP/1.1 404 Not Found'', ''Connection: close'']"
  have "http_response req ep =
    (if meth \<noteq> ''GET'' then http_text ?refused []
     else if path = he_path ep then http_text ?payload (he_payload ep)
     else if path = ''/health'' then http_text ?health ''OK'' else http_text ?missing [])"
    using assms(1) by (simp add: http_response_def http_text_def)
  moreover have "http_lines (http_text ?payload (he_payload ep)) = (?payload, he_payload ep)"
    using assms(2) CR_not_digit by (intro http_lines_text) simp
  moreover have "http_lines (http_text ?health ''OK'') = (?health, ''OK'')"
    by (intro http_lines_text) simp
  moreover have "http_lines (http_text ?refused []) = (?refused, [])"
    by (intro http_lines_text) simp
  moreover have "http_lines (http_text ?missing []) = (?missing, [])"
    by (intro http_lines_text) simp
  ultimately show ?thesis by simp
qed

section \<open>Reading in pieces\<close>

lemma http_read_pieces:
  assumes "\<forall>b \<in> set bufs. b \<noteq> []" "has_blank_line (acc @ concat bufs)" "bufs \<noteq> []"
    "\<forall>k < length bufs. 0 < k \<longrightarrow> \<not> has_blank_line (acc @ concat (take k bufs))"
  shows "http_read acc (map Some bufs @ later) = Some (Some (acc @ concat bufs))"
  using assms
proof (induction bufs arbitrary: acc)
  case (Cons b bufs)
  show ?case
  proof (cases "bufs = []")
    case True
    with Cons.prems show ?thesis by simp
  next
    case False
    then have "\<not> has_blank_line (acc @ b)" using Cons.prems(4) by (auto dest: spec [of _ 1])
    moreover have "\<not> has_blank_line ((acc @ b) @ concat (take k bufs))" if "k < length bufs" "0 < k" for k
      using Cons.prems(4) [rule_format, of "Suc k"] that by simp
    ultimately show ?thesis using Cons.IH [of "acc @ b"] Cons.prems False by simp
  qed
qed simp

lemma next_word_space:
  assumes "w \<noteq> []" "list_all (\<lambda>c. \<not> is_space c) w" "is_space c"
  shows "next_word (w @ c # s) = (w, c # s)"
proof -
  from assms(1,2) have "dropWhile is_space (w @ c # s) = w @ c # s" by (cases w) simp_all
  then show ?thesis using assms(2,3)
    by (simp add: next_word_def Let_def list_all_iff takeWhile_append dropWhile_append)
qed

lemma next_word_skip: "is_space c \<Longrightarrow> next_word (c # s) = next_word s"
  by (simp add: next_word_def)

lemma request_line_get:
  assumes "path \<noteq> []" "list_all (\<lambda>c. \<not> is_space c) path"
  shows "request_line (''GET '' @ path @ CHR '' '' # s) = (''GET'', path)"
proof -
  have sp: "is_space (CHR '' '')" by (simp add: is_space_def)
  have "next_word (''GET'' @ CHR '' '' # path @ CHR '' '' # s) = (''GET'', CHR '' '' # path @ CHR '' '' # s)"
    by (rule next_word_space) (simp_all add: is_space_def)
  with next_word_space [OF assms sp] sp show ?thesis
    by (simp add: request_line_def next_word_skip)
qed

section \<open>The clients\<close>

lemma http_publish_fields [simp]:
  "he_clients (fold http_publish evs ep) = he_clients ep" "he_path (fold http_publish evs ep) = he_path ep"
  "he_content_type (fold http_publish evs ep) = he_content_type ep" "he_id (fold http_publish evs ep) = he_id ep"
  by (induction evs arbitrary: ep) (simp_all add: http_publish_def)

lemma http_payload_last:
  "evs \<noteq> [] \<Longrightarrow> he_payload (fold http_publish evs ep) = chars_of (payload_of (last evs))"
  by (induction evs arbitrary: ep rule: rev_induct) (simp_all add: http_publish_def)

lemma remove1_last: "x \<notin> set xs \<Longrightarrow> remove1 x (xs @ [x]) = xs"
  by (induction xs) auto

section \<open>Properties\<close>

text \<open>C21. A client that asks for the configured path, in however many pieces its request arrives,
  gets the payload of the latest event published before its request was complete, with its
  length and the configured content type; afterwards the list of clients is as before.\<close>

theorem http_serves_latest:
  assumes "mid \<noteq> []" "fd \<notin> set (he_clients ep)" "CHR 0x0D \<notin> set (he_content_type ep)"
    and "he_path ep \<noteq> []" "list_all (\<lambda>c. \<not> is_space c) (he_path ep)"
    and "concat bufs = ''GET '' @ he_path ep @ CHR '' '' # s" "\<forall>b \<in> set bufs. b \<noteq> []"
    and "has_blank_line (concat bufs)" "\<forall>k < length bufs. \<not> has_blank_line (concat (take k bufs))"
  shows "\<exists>resp ep'. handle_client fd (map Some bufs @ later) mid ep = Some (Some resp, ep') \<and>
    he_clients ep' = he_clients ep \<and>
    http_lines resp =
      ([''HTTP/1.1 200 OK'', ''Content-Type: '' @ he_content_type ep,
        ''Content-Length: '' @ show_nat (length (payload_of (last mid))), ''Connection: close''],
       chars_of (payload_of (last mid)))"
proof -
  let ?ep = "fold http_publish mid (http_begin fd ep)" and ?req = "''GET '' @ he_path ep @ CHR '' '' # s"
  have "bufs \<noteq> []" using assms(6) by auto
  then have "http_read [] (map Some bufs @ later) = Some (Some ?req)"
    using http_read_pieces [of bufs "[]" later] assms(6-9) by simp
  moreover have "http_lines (http_response ?req ?ep) =
      ([''HTTP/1.1 200 OK'', ''Content-Type: '' @ he_content_type ep,
        ''Content-Length: '' @ show_nat (length (payload_of (last mid))), ''Connection: close''],
       chars_of (payload_of (last mid)))"
    using http_response_lines [OF request_line_get [OF assms(4,5)], of ?ep] assms(3)
    by (simp add: http_payload_last [OF assms(1)] http_begin_def)
  moreover have "he_clients (remove_client fd ?ep) = he_clients ep"
    using assms(2) by (simp add: remove_client_def http_begin_def remove1_last)
  moreover have "handle_client fd (map Some bufs @ later) mid ep =
      Some (Some (http_response ?req ?ep), remove_client fd ?ep)"
    if "http_read [] (map Some bufs @ later) = Some (Some ?req)"
    by (simp only: handle_client_def http_answer_def that Let_def option.map)
  ultimately show ?thesis by blast
qed

text \<open>The status of an answer: 405 for any method but GET, otherwise the payload at the
  configured path, the health text at \<^verbatim>\<open>/health\<close> unless that is the configured
  path, and 404 elsewhere; the length header is the length of the body.\<close>

theorem http_status:
  assumes "request_line req = (meth, path)" "CHR 0x0D \<notin> set (he_content_type ep)"
  shows "hd (fst (http_lines (http_response req ep))) =
      (if meth \<noteq> ''GET'' then ''HTTP/1.1 405 Method Not Allowed''
       else if path = he_path ep \<or> path = ''/health'' then ''HTTP/1.1 200 OK'' else ''HTTP/1.1 404 Not Found'') \<and>
    (meth = ''GET'' \<longrightarrow> snd (http_lines (http_response req ep)) =
       (if path = he_path ep then he_payload ep else if path = ''/health'' then ''OK'' else []))"
  using http_response_lines [OF assms] by simp

theorem http_status_witness:
  "hd (fst (http_lines (http_response ''POST / x'' (http_new ''m'' ''h'' 80 ''/'' ''text/plain'')))) =
     ''HTTP/1.1 405 Method Not Allowed''"
proof -
  have "request_line ''POST / x'' = (''POST'', ''/'')" by code_simp
  then show ?thesis
    using http_status [of "''POST / x''" "''POST''" "''/''" "http_new ''m'' ''h'' 80 ''/'' ''text/plain''"]
    by (simp add: http_new_def)
qed

theorem http_serves_latest_witness:
  "\<exists>resp ep'. handle_client 3 (map Some [''GET /met'', ''rics HTTP/1.1'' @ CRLF @ CRLF] @ [])
      [snd (set_payload [1] event_default), snd (set_payload [104, 105] event_default)]
      (http_new ''m'' ''h'' 80 ''/metrics'' ''text/plain'') = Some (Some resp, ep') \<and>
    snd (http_lines resp) = ''hi''"
proof -
  let ?ep = "http_new ''m'' ''h'' 80 ''/metrics'' ''text/plain''"
  let ?mid = "[snd (set_payload [1] event_default), snd (set_payload [104, 105] event_default)]"
  let ?bufs = "[''GET /met'', ''rics HTTP/1.1'' @ CRLF @ CRLF]"
  have a: "?mid \<noteq> []" "3 \<notin> set (he_clients ?ep)" "CHR 0x0D \<notin> set (he_content_type ?ep)" "he_path ?ep \<noteq> []"
    "list_all (\<lambda>c. \<not> is_space c) (he_path ?ep)" "\<forall>b \<in> set ?bufs. b \<noteq> []"
    "concat ?bufs = ''GET '' @ he_path ?ep @ CHR '' '' # ''HTTP/1.1'' @ CRLF @ CRLF"
    by (simp_all add: http_new_def is_space_def)
  have b: "has_blank_line (concat ?bufs)" by code_simp
  have c: "\<not> has_blank_line []" "\<not> has_blank_line ''GET /met''" by code_simp+
  have d: "\<forall>k < length ?bufs. \<not> has_blank_line (concat (take k ?bufs))"
    using c by (simp add: less_Suc_eq All_less_Suc numeral_2_eq_2)
  have "chars_of [104, 105] = ''hi''" by code_simp
  moreover have "payload_of (last ?mid) = [104, 105]" by (simp add: payload_of_set_payload PAYLOAD_MAX_def)
  ultimately show ?thesis
    using http_serves_latest [OF a(1-5,7,6) b d, of "[]"] by auto
qed

end
