(* ===== verification/Endpoints.thy ===== *)
theory Endpoints
  imports Publisher Dashboard Http_Endpoint Config_Laws
begin

text \<open>
  The endpoint classes of \<^verbatim>\<open>publisher/endpoints.hpp\<close> as one type, with the virtual
  methods \<^verbatim>\<open>name\<close> and \<^verbatim>\<open>publish\<close>, and the factory that makes an endpoint
  from its section of the configuration. What the operating system decides (whether a file can
  be opened, whether a port can be bound and listened on, how much of a message a socket takes)
  is an argument. The interpretation at the end discharges the contract of the publisher.
\<close>

section \<open>Printing endpoints\<close>

text \<open>The text written so far is the state of an output stream.\<close>

record stdout_endpoint =
  so_id :: string
  so_out :: string

record file_endpoint =
  fe_id :: string
  fe_path :: string
  fe_out :: string

text \<open>The fields both endpoints print; \<open>None\<close> when the stream identifier is not terminated.\<close>

definition event_fields :: "event \<Rightarrow> string option" where
  "event_fields ev = map_option (\<lambda>sid.
     '' stream='' @ sid @ '' seq='' @ show_nat (unat (ev_sequence ev)) @
     '' bytes='' @ show_nat (unat (ev_payload_size ev)) @
     '' lineage='' @ show_nat (unat (ev_lineage_depth ev)) @ [CHR 0x0A]) (stream_of ev)"

definition stdout_publish :: "event \<Rightarrow> stdout_endpoint \<Rightarrow> stdout_endpoint option" where
  "stdout_publish ev ep = map_option (\<lambda>f. ep\<lparr>so_out := so_out ep @ ''['' @ so_id ep @ '']'' @ f\<rparr>) (event_fields ev)"

definition file_publish :: "event \<Rightarrow> file_endpoint \<Rightarrow> file_endpoint option" where
  "file_publish ev ep =
     map_option (\<lambda>f. ep\<lparr>fe_out := fe_out ep @ show_nat (unat (ev_timestamp_ns ev)) @ f\<rparr>) (event_fields ev)"

section \<open>The interface\<close>

datatype endpoint =
    Stdout_endpoint stdout_endpoint
  | File_endpoint file_endpoint
  | Null_endpoint string
  | Telemetry_endpoint dashboard
  | Http_endpoint http_endpoint
  | Websocket_endpoint ws_endpoint

fun endpoint_name :: "endpoint \<Rightarrow> string" where
  "endpoint_name (Stdout_endpoint ep) = so_id ep"
| "endpoint_name (File_endpoint ep) = fe_id ep"
| "endpoint_name (Null_endpoint eid) = eid"
| "endpoint_name (Telemetry_endpoint d) = db_id d"
| "endpoint_name (Http_endpoint ep) = he_id ep"
| "endpoint_name (Websocket_endpoint ep) = ws_id ep"

text \<open>\<open>sends\<close> gives the results of \<^verbatim>\<open>send\<close> on each connection.\<close>

fun endpoint_publish :: "(int \<Rightarrow> int list) \<Rightarrow> event \<Rightarrow> endpoint \<Rightarrow> endpoint option" where
  "endpoint_publish sends ev (Stdout_endpoint ep) = map_option Stdout_endpoint (stdout_publish ev ep)"
| "endpoint_publish sends ev (File_endpoint ep) = map_option File_endpoint (file_publish ev ep)"
| "endpoint_publish sends ev (Null_endpoint eid) = Some (Null_endpoint eid)"
| "endpoint_publish sends ev (Telemetry_endpoint d) = map_option Telemetry_endpoint (dashboard_publish ev d)"
| "endpoint_publish sends ev (Http_endpoint ep) = Some (Http_endpoint (http_publish ev ep))"
| "endpoint_publish sends ev (Websocket_endpoint ep) = map_option Websocket_endpoint (ws_publish sends ev ep)"

section \<open>The factory\<close>

datatype endpoint_error =
    Missing_id
  | Missing_type string
  | Requires string string string
  | Unknown_type string string
  | Bad_port number_error
  | Cannot_open string
  | Cannot_listen string

text \<open>The answers of the operating system: whether a path opens, and how far the constructor of a
  listening endpoint gets with its host and port.\<close>

datatype listen_answer = No_socket | No_bind | No_listen | Listening

record os_answers =
  os_opens :: "string \<Rightarrow> bool"
  os_listens :: "string \<Rightarrow> u16 \<Rightarrow> listen_answer"

text \<open>What both constructors throw; the descriptor is closed before.\<close>

definition listen_error :: "string \<Rightarrow> string \<Rightarrow> u16 \<Rightarrow> listen_answer \<Rightarrow> string option" where
  "listen_error kind host port answer =
     (case answer of
        No_socket \<Rightarrow> Some (kind @ '': socket() failed'')
      | No_bind \<Rightarrow> Some (kind @ '': bind() failed on '' @ host @ '':'' @ show_nat (unat port))
      | No_listen \<Rightarrow> Some (kind @ '': listen() failed'')
      | Listening \<Rightarrow> None)"

text \<open>\<^verbatim>\<open>static_cast<uint16_t>(std::stoi(port_str))\<close>\<close>

definition port_of :: "string \<Rightarrow> endpoint_error + u16" where
  "port_of s = (case stoi s of Inl e \<Rightarrow> Inl (Bad_port e) | Inr v \<Rightarrow> Inr (word_of_int v))"

definition ws_new :: "string \<Rightarrow> ws_endpoint" where
  "ws_new eid = \<lparr>ws_id = eid, ws_running = True, ws_clients = [], ws_sent = []\<rparr>"

definition make_endpoint :: "os_answers \<Rightarrow> config_section \<Rightarrow> endpoint_error + endpoint" where
  "make_endpoint env sec =
     (let eid = section_get sec ''id'' []; ty = section_get sec ''type'' [] in
      if eid = [] then Inl Missing_id
      else if ty = [] then Inl (Missing_type eid)
      else if ty = ''stdout'' then Inr (Stdout_endpoint \<lparr>so_id = eid, so_out = []\<rparr>)
      else if ty = ''null'' then Inr (Null_endpoint eid)
      else if ty = ''telemetry'' then Inr (Telemetry_endpoint (dashboard_new eid))
      else if ty = ''file'' then
        (let path = section_get sec ''path'' [] in
         if path = [] then Inl (Requires eid ty ''path'')
         else if \<not> os_opens env path then Inl (Cannot_open path)
         else Inr (File_endpoint \<lparr>fe_id = eid, fe_path = path, fe_out = []\<rparr>))
      else if ty = ''websocket'' then
        (let port_str = section_get sec ''port'' []; host = section_get sec ''host'' ''0.0.0.0'' in
         if port_str = [] then Inl (Requires eid ty ''port'')
         else case port_of port_str of
           Inl e \<Rightarrow> Inl e
         | Inr port \<Rightarrow>
             (case listen_error ''websocket'' host port (os_listens env host port) of
                Some msg \<Rightarrow> Inl (Cannot_listen msg)
              | None \<Rightarrow> Inr (Websocket_endpoint (ws_new eid))))
      else if ty = ''http'' then
        (let host = section_get sec ''host'' ''0.0.0.0''; port_str = section_get sec ''port'' [] in
         if port_str = [] then Inl (Requires eid ty ''port'')
         else case port_of port_str of
           Inl e \<Rightarrow> Inl e
         | Inr port \<Rightarrow>
             (case listen_error ''http'' host port (os_listens env host port) of
                Some msg \<Rightarrow> Inl (Cannot_listen msg)
              | None \<Rightarrow> Inr (Http_endpoint (http_new eid host port
                  (section_get sec ''path'' ''/'') (section_get sec ''content_type'' ''text/plain'')))))
      else Inl (Unknown_type eid ty))"

section \<open>The contract of the publisher holds\<close>

lemma stdout_publish_id: "stdout_publish ev ep = Some ep' \<Longrightarrow> so_id ep' = so_id ep"
  by (auto simp: stdout_publish_def)

lemma file_publish_id: "file_publish ev ep = Some ep' \<Longrightarrow> fe_id ep' = fe_id ep"
  by (auto simp: file_publish_def)

lemma ws_publish_id: "ws_publish rs ev ep = Some ep' \<Longrightarrow> ws_id ep' = ws_id ep"
  by (auto simp: ws_publish_def split: option.splits)

lemma http_publish_id: "he_id (http_publish ev ep) = he_id ep"
  by (simp add: http_publish_def)

lemma render_id [simp]: "db_id (render d) = db_id d"
  by (simp add: render_def)

lemma handle_stream_chunk_id: "handle_stream_chunk ev d = Some d' \<Longrightarrow> db_id d' = db_id d"
  by (auto simp: handle_stream_chunk_def Let_def split: if_splits option.splits)

lemma handle_script_chunk_id: "handle_script_chunk ev d = Some d' \<Longrightarrow> db_id d' = db_id d"
  by (auto simp: handle_script_chunk_def Let_def split: if_splits option.splits)

lemma dashboard_publish_id: "dashboard_publish ev d = Some d' \<Longrightarrow> db_id d' = db_id d"
  by (auto simp: dashboard_publish_def handle_stream_chunk_id handle_script_chunk_id
      split: if_splits option.splits)

lemma endpoint_publish_name:
  "endpoint_publish sends ev ep = Some ep' \<Longrightarrow> endpoint_name ep' = endpoint_name ep"
  by (cases ep) (auto simp: stdout_publish_id file_publish_id dashboard_publish_id ws_publish_id http_publish_id)

interpretation eps: endpoints endpoint_name "endpoint_publish sends" for sends
  by unfold_locales (rule endpoint_publish_name)

section \<open>Running the publisher\<close>

datatype publisher_op =
    Add_endpoint endpoint
  | Publish_to "int \<Rightarrow> int list" event string
  | Broadcast "int \<Rightarrow> int list" event

fun publisher_step :: "publisher_op \<Rightarrow> endpoint publisher \<times> telemetry \<Rightarrow> (endpoint publisher \<times> telemetry) option" where
  "publisher_step (Add_endpoint ep) (p, tel) = Some (add_endpoint endpoint_name ep p, tel)"
| "publisher_step (Publish_to sends ev eid) (p, tel) = publish_to (endpoint_publish sends) ev eid p tel"
| "publisher_step (Broadcast sends ev) (p, tel) = broadcast (endpoint_publish sends) ev p tel"

fun publisher_run :: "publisher_op list \<Rightarrow> endpoint publisher \<times> telemetry \<Rightarrow> (endpoint publisher \<times> telemetry) option" where
  "publisher_run [] s = Some s"
| "publisher_run (op # ops) s = (case publisher_step op s of None \<Rightarrow> None | Some s' \<Rightarrow> publisher_run ops s')"

lemma publisher_step_ok:
  assumes "eps.table_ok p" "publisher_step op (p, tel) = Some (p', tel')"
  shows "eps.table_ok p'"
  using assms
  by (cases op) (auto intro: eps.table_ok_add eps.table_ok_publish_to eps.table_ok_broadcast)

fun added :: "publisher_op list \<Rightarrow> string set" where
  "added [] = {}"
| "added (Add_endpoint ep # ops) = insert (endpoint_name ep) (added ops)"
| "added (_ # ops) = added ops"

lemma has_endpoint_step:
  assumes "publisher_step op (p, tel) = Some (p', tel')"
  shows "has_endpoint x p' \<longleftrightarrow> x \<in> added [op] \<or> has_endpoint x p"
proof (cases op)
  case (Add_endpoint ep)
  with assms show ?thesis by (auto simp: has_endpoint_add)
next
  case (Publish_to sends ev eid)
  with assms show ?thesis by simp
next
  case (Broadcast sends ev)
  with assms obtain eps where eps: "publish_each (endpoint_publish sends) ev (pb_endpoints p) = Some eps"
    and p': "pb_endpoints p' = eps" by (auto simp: broadcast_def split: option.splits)
  have "dom (map_of eps) = dom (map_of (pb_endpoints p))"
    using eps.publish_each_keys [OF eps] by (metis dom_map_of_conv_image_fst list.set_map)
  with Broadcast p' show ?thesis by (auto simp: has_endpoint_def dom_def)
qed

lemma added_Cons: "added (op # ops) = added [op] \<union> added ops"
  by (cases op) auto

section \<open>Properties\<close>

text \<open>Whatever is added and published, with the endpoint classes of the code: the table has one
  endpoint per id, every endpoint stands under its own name, and exactly the ids added so far
  are known.\<close>

theorem publisher_table:
  assumes "publisher_run ops (publisher_new, tel) = Some (p, tel')"
  shows "um_ok (pb_endpoints p) \<and>
    (\<forall>eid ep. map_of (pb_endpoints p) eid = Some ep \<longrightarrow> endpoint_name ep = eid) \<and>
    {eid. has_endpoint eid p} = added ops"
proof -
  have "eps.table_ok p \<and> {eid. has_endpoint eid p} = {eid. has_endpoint eid p0} \<union> added ops"
    if "eps.table_ok p0" "publisher_run ops (p0, tel0) = Some (p, tel')" for p0 tel0
    using that
  proof (induction ops arbitrary: p0 tel0)
    case (Cons op ops)
    then obtain p1 tel1 where step: "publisher_step op (p0, tel0) = Some (p1, tel1)"
      and run: "publisher_run ops (p1, tel1) = Some (p, tel')" by (auto split: option.splits)
    from Cons.IH [OF publisher_step_ok [OF Cons.prems(1) step] run] has_endpoint_step [OF step]
    show ?case by (auto simp: added_Cons [of op ops])
  qed simp
  from this [OF eps.table_ok_new assms] have ok: "eps.table_ok p"
    and keys: "{eid. has_endpoint eid p} = {eid. has_endpoint eid (publisher_new :: endpoint publisher)} \<union> added ops" by blast+
  have "{eid. has_endpoint eid (publisher_new :: endpoint publisher)} = {}" by (simp add: has_endpoint_def publisher_new_def)
  moreover have "um_ok (pb_endpoints p)" using ok by (simp only: eps.table_ok_def)
  ultimately show ?thesis using keys eps.table_ok_lookup [OF ok] by blast
qed

theorem publisher_table_witness:
  "\<exists>p tel'. publisher_run [Add_endpoint (Null_endpoint ''n''), Publish_to (\<lambda>_. []) event_default ''n''] (publisher_new, telemetry_new) =
     Some (p, tel') \<and> {eid. has_endpoint eid p} = {''n''}"
proof -
  obtain p tel' where r: "publisher_run [Add_endpoint (Null_endpoint ''n''), Publish_to (\<lambda>_. []) event_default ''n'']
      (publisher_new, telemetry_new) = Some (p, tel')"
    by (simp add: publish_to_def add_endpoint_def publisher_new_def emitted_one_def)
  from publisher_table [OF r] r show ?thesis by auto
qed

text \<open>The port of an HTTP endpoint, written in decimal: a number of 2^31 or more is refused, and
  any other is taken modulo 65536 without a word, so that \<^verbatim>\<open>port = 70000\<close> listens on
  4464.\<close>

theorem http_port:
  assumes "section_get sec ''id'' [] = eid" "eid \<noteq> []" "section_get sec ''type'' [] = ''http''"
    and "section_get sec ''port'' [] = show_nat n"
  shows "make_endpoint env sec =
    (if n \<ge> 2 ^ 31 then Inl (Bad_port Out_of_range)
     else case listen_error ''http'' (section_get sec ''host'' ''0.0.0.0'') (word_of_nat (n mod 65536))
         (os_listens env (section_get sec ''host'' ''0.0.0.0'') (word_of_nat (n mod 65536))) of
       Some msg \<Rightarrow> Inl (Cannot_listen msg)
     | None \<Rightarrow> Inr (Http_endpoint (http_new eid (section_get sec ''host'' ''0.0.0.0'') (word_of_nat (n mod 65536))
       (section_get sec ''path'' ''/'') (section_get sec ''content_type'' ''text/plain''))))"
proof -
  have r: "read_number (show_nat n) = Some (False, n)"
    using read_number_written [where sign = "[]" and n = n and junk = "[]"] by simp
  have "word_of_nat (n mod 65536) = (word_of_nat n :: u16)"
    using word_of_nat_eq_iff [of "n mod 65536" n, where 'a = 16] by (simp add: take_bit_eq_mod)
  then have p: "port_of (show_nat n) =
      (if n \<ge> 2 ^ 31 then Inl (Bad_port Out_of_range) else Inr (word_of_nat (n mod 65536)))"
    by (auto simp: port_of_def stoi_def r Let_def)
  show ?thesis
    using assms show_nat_nonempty [of n] by (simp add: make_endpoint_def p Let_def)
qed

theorem http_port_witness:
  "make_endpoint \<lparr>os_opens = (\<lambda>_. True), os_listens = (\<lambda>_ _. Listening)\<rparr>
     \<lparr>sec_type = ''publisher'', sec_kv = [(''id'', ''m''), (''type'', ''http''), (''port'', show_nat 70000)], sec_multi = []\<rparr> =
   Inr (Http_endpoint (http_new ''m'' ''0.0.0.0'' 4464 ''/'' ''text/plain''))"
  by (subst http_port [where eid = "''m''" and n = 70000]) (simp_all add: section_get_def listen_error_def)

end
