(* ===== verification/Pipeline.thy ===== *)
theory Pipeline
  imports Stream_Router Endpoints
begin

text \<open>
  \<^verbatim>\<open>server/main.cpp\<close>: how a pipeline is built from a configuration, what its threads do
  and how it is stopped. What the operating system and the two script engines decide is an
  argument: which plugins load, which scripts load, what a script emits for an input. The
  threads of the pipeline (ingestors, one thread per script, the telemetry) are the steps of
  the relation \<open>pipeline_step\<close>.
\<close>

section \<open>Scripts\<close>

text \<open>What an engine made of a script: \<open>'h\<close> is its handle. A script is given one of two
  inputs, by its mode.\<close>

record 'h loaded_script =
  ls_id :: string
  ls_mode :: script_mode
  ls_handle :: 'h

datatype script_input = Zero_copy_input zero_copy_input | Snapshot_input snapshot_input

text \<open>What the dispatch closure captures.\<close>

record 'h dispatch_data =
  dp_script :: "'h loaded_script"
  dp_sub :: subscription
  dp_script_idx :: nat

text \<open>The smallest start of a window, \<^verbatim>\<open>UINT64_MAX\<close> without windows.\<close>

definition min_begin :: "ring_view umap \<Rightarrow> u64" where
  "min_begin ws = foldl (\<lambda>m (sid, v). if rv_begin_seq v < m then rv_begin_seq v else m) UINT64_MAX ws"

text \<open>One call of the closure: \<open>run\<close> is the script, \<open>dur\<close> the time it took, and the
  lists say which exchanges of the latency counters fail spuriously. The result is what the
  script emitted; \<open>None\<close> is an index out of bounds or a latency update still spinning.\<close>

definition dispatch_script ::
  "('h \<Rightarrow> script_input \<Rightarrow> event list) \<Rightarrow> u64 \<Rightarrow> bool list \<Rightarrow> bool list \<Rightarrow> 'h dispatch_data \<Rightarrow> event \<Rightarrow>
   ('ep, 'd) core \<Rightarrow> (event list \<times> ('ep, 'd) core) option" where
  "dispatch_script run dur fmin fmax dp trigger c =
     (let reg = co_registry c; subs = su_windows (dp_sub dp); h = ls_handle (dp_script dp) in
      case (case ls_mode (dp_script dp) of
              ZeroCopy \<Rightarrow>
                (let input = make_zero_copy_input trigger subs reg;
                     min_seq = min_begin (zi_windows input)
                 in case (if min_seq \<noteq> UINT64_MAX then script_begin_read (dp_script_idx dp) min_seq reg else Some reg) of
                      None \<Rightarrow> None
                    | Some reg' \<Rightarrow> Some (run h (Zero_copy_input input), script_end_read (dp_script_idx dp) reg'))
            | Snapshot \<Rightarrow>
                Some (run h (Snapshot_input (make_snapshot_input trigger subs (dp_script_idx dp) reg reg)), reg)) of
        None \<Rightarrow> None
      | Some (out, reg') \<Rightarrow>
          map_option (\<lambda>tel. (out, c\<lparr>co_registry := reg', co_telemetry := tel\<rparr>))
            (record_script_invocation fmin fmax (ls_id (dp_script dp)) dur (co_telemetry c)))"

section \<open>Script threads\<close>

record 'h script_thread =
  sd_registry_idx :: nat
  sd_queue_idx :: nat
  sd_output_stream :: string
  sd_dispatch :: "'h dispatch_data"

text \<open>The copy of a name into \<^verbatim>\<open>ev.stream_id\<close>, unless the name is empty; scripts and
  ingestors use it alike.\<close>

definition rename_stream :: "string \<Rightarrow> event \<Rightarrow> event" where
  "rename_stream name ev =
     (if name \<noteq> []
      then ev\<lparr>ev_stream_id := (strncpy (ev_stream_id ev) name (STREAM_ID_MAX - 1))[STREAM_ID_MAX - 1 := NUL]\<rparr>
      else ev)"

text \<open>One round of the loop of a script thread while \<^verbatim>\<open>g_running\<close> holds; the test of the
  flag is a step of \<^verbatim>\<open>Shutdown\<close>.\<close>

datatype 'c thread_step = Waiting | Finished 'c | Ran 'c | Undefined

definition script_thread_step ::
  "(event \<Rightarrow> 'ep \<Rightarrow> 'ep option) \<Rightarrow> ('h \<Rightarrow> script_input \<Rightarrow> event list) \<Rightarrow> u64 \<Rightarrow> bool list \<Rightarrow> bool list \<Rightarrow>
   'h script_thread \<Rightarrow> ('ep, 'd) core \<Rightarrow> ('ep, 'd) core thread_step" where
  "script_thread_step pub run dur fmin fmax th c =
     (case wait_for_trigger (sd_queue_idx th) (co_router c) of
        (Blocked, r) \<Rightarrow> Waiting
      | (Returned None, r) \<Rightarrow> Finished (c\<lparr>co_router := r\<rparr>)
      | (Returned (Some ev), r) \<Rightarrow>
          (case dispatch_script run dur fmin fmax (sd_dispatch th) ev (c\<lparr>co_router := r\<rparr>) of
             None \<Rightarrow> Undefined
           | Some (out, c') \<Rightarrow>
               (case route_all pub (map (rename_stream (sd_output_stream th)) out) c' of
                  None \<Rightarrow> Undefined
                | Some c'' \<Rightarrow> Ran c'')))"

section \<open>Building a pipeline\<close>

text \<open>\<open>ps_plugins\<close> are the plugins that run: their file and the stream they are renamed to.\<close>

record 'h pipeline_state =
  ps_core :: "(endpoint, 'h dispatch_data) core"
  ps_threads :: "'h script_thread list"
  ps_plugins :: "(string \<times> string) list"

text \<open>Whether a script of an id and a path can be loaded by an engine, and what comes of loading
  and starting a plugin: it may make no instance, a null pointer that is called all the same.\<close>

datatype plugin_answer = Plugin_starts | Plugin_fails | No_instance

record 'h pipeline_env =
  pe_os :: os_answers
  pe_python :: "string \<Rightarrow> string \<Rightarrow> 'h option"
  pe_wasm :: "string \<Rightarrow> string \<Rightarrow> 'h option"
  pe_plugin :: "string \<Rightarrow> plugin_answer"

definition add_endpoint_section ::
  "os_answers \<Rightarrow> endpoint publisher \<times> bool \<Rightarrow> config_section \<Rightarrow> endpoint publisher \<times> bool" where
  "add_endpoint_section env = (\<lambda>(p, has_telemetry) sec.
     case make_endpoint env sec of
       Inl _ \<Rightarrow> (p, has_telemetry)
     | Inr ep \<Rightarrow> (add_endpoint endpoint_name ep p,
                  has_telemetry \<or> section_get sec ''type'' [] = ''telemetry''))"

definition default_telemetry :: endpoint where
  "default_telemetry = Telemetry_endpoint (dashboard_new ''telemetry'')"

definition build_endpoints :: "os_answers \<Rightarrow> config \<Rightarrow> endpoint publisher \<Rightarrow> endpoint publisher" where
  "build_endpoints env cfg p =
     (let secs = of_type cfg ''publisher'' in
      if secs = []
      then add_endpoint endpoint_name default_telemetry
             (add_endpoint endpoint_name (Stdout_endpoint \<lparr>so_id = ''stdout'', so_out = []\<rparr>) p)
      else let (p', has_telemetry) = foldl (add_endpoint_section env) (p, False) secs in
           if has_telemetry then p' else add_endpoint endpoint_name default_telemetry p')"

definition add_window :: "window_spec umap \<Rightarrow> string \<Rightarrow> window_spec umap" where
  "add_window ws wval =
     (case parse_window wval of
        Inl _ \<Rightarrow> ws
      | Inr w \<Rightarrow> AList.update (pw_stream_id w)
          \<lparr>ws_type = (if pw_time_based w then TimeBased else CountBased),
           ws_duration_ns = (if pw_time_based w then pw_n w else 0),
           ws_count = (if pw_time_based w then 256 else pw_n w)\<rparr> ws)"

definition script_sub :: "config_section \<Rightarrow> string \<Rightarrow> subscription" where
  "script_sub sec trigger =
     (let ws = foldl add_window [] (case map_of (sec_multi sec) ''window'' of Some vs \<Rightarrow> vs | None \<Rightarrow> []) in
      \<lparr>su_trigger_stream = trigger,
       su_windows = (if ws = [] then [(trigger, \<lparr>ws_type = CountBased, ws_duration_ns = 0, ws_count = 64\<rparr>)] else ws)\<rparr>)"

text \<open>\<open>None\<close>: the engine is unknown or refuses the script.\<close>

definition load_script :: "'h pipeline_env \<Rightarrow> config_section \<Rightarrow> 'h loaded_script option" where
  "load_script env sec =
     (let sid = section_get sec ''id'' []; runtime = section_get sec ''runtime'' []; path = section_get sec ''path'' [] in
      if runtime = ''python''
      then map_option (\<lambda>h. \<lparr>ls_id = sid, ls_mode = Snapshot, ls_handle = h\<rparr>) (pe_python env sid path)
      else if runtime = ''wasm''
      then map_option (\<lambda>h. \<lparr>ls_id = sid, ls_mode = ZeroCopy, ls_handle = h\<rparr>) (pe_wasm env sid path)
      else None)"

definition output_stream :: "config_section \<Rightarrow> string" where
  "output_stream sec = (case get_script_emits sec of [] \<Rightarrow> [] | e # _ \<Rightarrow> e)"

text \<open>A script that loaded is entered: its statistics, a read position, a queue and a handler.
  \<open>None\<close> is a failed assertion.\<close>

definition enter_script :: "config_section \<Rightarrow> 'h loaded_script \<Rightarrow> 'h pipeline_state \<Rightarrow> 'h pipeline_state option" where
  "enter_script sec script st =
     (let c = ps_core st;
          tel = register_script_stats (ls_id script) (co_telemetry c);
          sub = script_sub sec (section_get sec ''trigger'' []);
          (script_idx, reg) = register_script (co_registry c);
          dp = \<lparr>dp_script = script, dp_sub = sub, dp_script_idx = script_idx\<rparr>
      in map_option (\<lambda>(queue_idx, r).
           st\<lparr>ps_core := c\<lparr>co_router := register_handler (ls_id script) sub dp queue_idx r,
                           co_registry := reg, co_telemetry := tel\<rparr>,
              ps_threads := ps_threads st @
                [\<lparr>sd_registry_idx = script_idx, sd_queue_idx = queue_idx,
                  sd_output_stream = output_stream sec, sd_dispatch = dp\<rparr>]\<rparr>)
         (register_script_queue QUEUE_CAPACITY (co_router c)))"

text \<open>
  The required fields are bound by reference to the result of \<^verbatim>\<open>Section::get\<close>,
  which for a missing key refers to the default argument, a temporary that is gone by then:
  \<open>field_ref\<close> is \<open>None\<close> for such a reference, and reading it is undefined. The condition
  reads the fields in order up to the first empty one.
\<close>

definition field_ref :: "config_section \<Rightarrow> string \<Rightarrow> string option" where
  "field_ref sec key = map_of (sec_kv sec) key"

fun any_empty :: "string option list \<Rightarrow> bool option" where
  "any_empty [] = Some False"
| "any_empty (None # _) = None"
| "any_empty (Some s # fs) = (if s = [] then Some True else any_empty fs)"

text \<open>One script section; \<open>None\<close> when the behaviour is undefined.\<close>

definition add_script :: "'h pipeline_env \<Rightarrow> config_section \<Rightarrow> 'h pipeline_state \<Rightarrow> 'h pipeline_state option" where
  "add_script env sec st =
     (case any_empty (map (field_ref sec) [''id'', ''runtime'', ''path'', ''trigger'']) of
        None \<Rightarrow> None
      | Some True \<Rightarrow> Some st
      | Some False \<Rightarrow>
          (case load_script env sec of
             None \<Rightarrow> Some st
           | Some script \<Rightarrow> enter_script sec script st))"

fun add_scripts :: "'h pipeline_env \<Rightarrow> config_section list \<Rightarrow> 'h pipeline_state \<Rightarrow> 'h pipeline_state option" where
  "add_scripts env [] st = Some st"
| "add_scripts env (sec # secs) st =
     (case add_script env sec st of None \<Rightarrow> None | Some st' \<Rightarrow> add_scripts env secs st')"

text \<open>The ingestor sections that name a plugin which loads and starts. Both the plugin and the id
  are references; the id is printed whether the plugin loads or not.\<close>

fun load_plugins :: "'h pipeline_env \<Rightarrow> config_section list \<Rightarrow> (string \<times> string) list option" where
  "load_plugins env [] = Some []"
| "load_plugins env (sec # secs) =
     (case field_ref sec ''plugin'' of
        None \<Rightarrow> None
      | Some plugin \<Rightarrow>
          if plugin = [] then load_plugins env secs
          else if field_ref sec ''id'' = None then None
          else (case pe_plugin env plugin of
                  Plugin_starts \<Rightarrow> map_option (Cons (plugin, section_get sec ''as'' [])) (load_plugins env secs)
                | Plugin_fails \<Rightarrow> load_plugins env secs
                | No_instance \<Rightarrow> None))"

text \<open>The objects and the connections between them, before anything is read from the scripts.\<close>

definition wire :: "'h pipeline_env \<Rightarrow> config \<Rightarrow> 'h pipeline_state" where
  "wire env cfg =
     \<lparr>ps_core = \<lparr>co_router = router_set_telemetry True (set_routes (parse_routes cfg) (set_publisher True router_new)),
        co_registry = registry_set_telemetry True registry_new,
        co_publisher = build_endpoints (pe_os env) cfg (publisher_set_telemetry True publisher_new),
        co_telemetry = set_enabled True telemetry_new\<rparr>,
      ps_threads = [], ps_plugins = []\<rparr>"

text \<open>Without an ingestor the function throws; when script threads have been started their
  destructors then end the program.\<close>

datatype 'h start_result = Started "'h pipeline_state" | No_ingestors | Terminated | Undefined_start

definition start_pipeline :: "'h pipeline_env \<Rightarrow> config \<Rightarrow> 'h start_result" where
  "start_pipeline env cfg =
     (case add_scripts env (of_type cfg ''script'') (wire env cfg) of
        None \<Rightarrow> Undefined_start
      | Some st \<Rightarrow>
          (case load_plugins env (of_type cfg ''ingestor'') of
             None \<Rightarrow> Undefined_start
           | Some [] \<Rightarrow> if ps_threads st = [] then No_ingestors else Terminated
           | Some plugins \<Rightarrow>
               Started (st\<lparr>ps_plugins := plugins,
                 ps_core := (ps_core st)\<lparr>co_telemetry := telemetry_start (co_telemetry (ps_core st))\<rparr>\<rparr>)))"

section \<open>Running it\<close>

text \<open>An event of a plugin passes the renaming callback into the router; a script thread makes a
  round; the telemetry makes a report. Everything the environment decides is open.\<close>

definition ingest :: "(int \<Rightarrow> int list) \<Rightarrow> string \<Rightarrow> event \<Rightarrow> 'h pipeline_state \<Rightarrow> 'h pipeline_state option" where
  "ingest sends rename_to ev st =
     map_option (\<lambda>c. st\<lparr>ps_core := c\<rparr>) (route (endpoint_publish sends) (rename_stream rename_to ev) (ps_core st))"

inductive pipeline_step :: "'h pipeline_state \<Rightarrow> 'h pipeline_state \<Rightarrow> bool" where
  Ingested: "(plugin, rename_to) \<in> set (ps_plugins st) \<Longrightarrow> ingest sends rename_to ev st = Some st' \<Longrightarrow>
    pipeline_step st st'"
| Scripted: "th \<in> set (ps_threads st) \<Longrightarrow>
    script_thread_step (endpoint_publish sends) run dur fmin fmax th (ps_core st) = Ran c \<Longrightarrow>
    pipeline_step st (st\<lparr>ps_core := c\<rparr>)"
| Ticked: "tm_running (co_telemetry (ps_core st)) \<Longrightarrow> emit_tick (endpoint_publish sends) now (ps_core st) = Some c \<Longrightarrow>
    pipeline_step st (st\<lparr>ps_core := c\<rparr>)"

inductive_cases pipeline_stepE: "pipeline_step st st'"

inductive pipeline_reachable :: "'h pipeline_state \<Rightarrow> 'h pipeline_state \<Rightarrow> bool" for st0 where
  Start: "pipeline_reachable st0 st0"
| Step: "pipeline_reachable st0 st \<Longrightarrow> pipeline_step st st' \<Longrightarrow> pipeline_reachable st0 st'"

section \<open>Stopping it\<close>

text \<open>\<^verbatim>\<open>stop_pipeline\<close> up to the joins: the router forgets the telemetry, the plugins
  are stopped, the telemetry thread ends and the queues are stopped. The threads are then
  joined; \<open>joined\<close> says that each of them ends at its next round.\<close>

definition stop_pipeline :: "'h pipeline_state \<Rightarrow> 'h pipeline_state" where
  "stop_pipeline st =
     (let c = ps_core st in
      st\<lparr>ps_plugins := [],
         ps_core := c\<lparr>co_router := stop_all_queues (router_set_telemetry False (co_router c)),
                      co_telemetry := telemetry_stop (co_telemetry c)\<rparr>\<rparr>)"

definition joined :: "'h pipeline_state \<Rightarrow> bool" where
  "joined st \<longleftrightarrow> (\<forall>th \<in> set (ps_threads st). \<forall>pub run dur fmin fmax.
     \<exists>c. script_thread_step pub run dur fmin fmax th (ps_core st) = Finished c)"

end
