(* ===== verification/Pipeline_Laws.thy ===== *)
theory Pipeline_Laws
  imports Pipeline Router_Laws
begin

text \<open>
  Invariants of the running pipeline, by induction on the steps of its threads: the queues and
  read positions stay in step, every handler and every script thread has a queue of its own,
  the endpoint table stays well-formed, and the registry never gets a ring. From these follow
  what a script can see, that an ingested event reaches the thread of its script, and that
  stopping the pipeline leaves nothing running.
\<close>

section \<open>The invariant of the core\<close>

type_synonym 'h pcore = "(endpoint, 'h dispatch_data) core"

definition router_ok :: "'d router \<Rightarrow> bool" where
  "router_ok r \<longleftrightarrow> um_ok (rt_handlers r) \<and> length (rt_read_positions r) = length (rt_queues r) \<and>
     (\<forall>(k, he) \<in> set (rt_handlers r). he_queue_index he < length (rt_queues r)) \<and>
     (\<forall>q \<in> set (rt_queues r). ring_ok (sq_ring q) \<and> rb_capacity (sq_ring q) = QUEUE_CAPACITY)"

definition core_ok :: "'h pcore \<Rightarrow> bool" where
  "core_ok c \<longleftrightarrow> router_ok (co_router c) \<and> wr_rings (co_registry c) = [] \<and> eps.table_ok (co_publisher c)"

text \<open>What the steps of the pipeline leave alone.\<close>

definition shape :: "'h pcore \<Rightarrow>
    'h dispatch_data handler_entry umap \<times> string list umap \<times> bool \<times> bool list \<times> nat \<times> bool" where
  "shape c = (rt_handlers (co_router c), rt_route_table (co_router c), rt_publisher (co_router c),
     map sq_stopped (rt_queues (co_router c)), length (wr_script_positions (co_registry c)),
     tm_running (co_telemetry c))"

definition keeps :: "'h pcore \<Rightarrow> 'h pcore \<Rightarrow> bool" where
  "keeps c c' \<longleftrightarrow> core_ok c' \<and> shape c' = shape c"

named_theorems keeps_rules \<open>steps that keep the invariant of the core\<close>

lemma keeps_refl: "core_ok c \<Longrightarrow> keeps c c"
  by (simp add: keeps_def)

lemma keeps_trans: "keeps c c1 \<Longrightarrow> keeps c1 c2 \<Longrightarrow> keeps c c2"
  by (simp add: keeps_def)

lemma keeps_ok: "keeps c c' \<Longrightarrow> core_ok c'"
  by (simp add: keeps_def)

lemma shape_queues: "shape c = shape c' \<Longrightarrow> length (rt_queues (co_router c)) = length (rt_queues (co_router c'))"
  by (auto simp: shape_def dest: map_eq_imp_length_eq)

lemma keeps_telemetry [keeps_rules]:
  "core_ok c \<Longrightarrow> tm_running tel = tm_running (co_telemetry c) \<Longrightarrow> keeps c (c\<lparr>co_telemetry := tel\<rparr>)"
  by (simp add: keeps_def core_ok_def shape_def)

lemma tm_running_record [simp]: "tm_running (record_event s tel) = tm_running tel"
  "tm_running (record_emitted s tel) = tm_running tel"
  by (simp_all add: record_event_def record_emitted_def)

lemma tm_running_invocation: "record_script_invocation fmin fmax s d tel = Some tel' \<Longrightarrow> tm_running tel' = tm_running tel"
  by (auto simp: record_script_invocation_def split: if_splits option.splits)

lemma tm_running_pack:
  "pack_stream_metrics now tel = (ok, chunks, tel') \<Longrightarrow> tm_running tel' = tm_running tel"
  "pack_script_metrics clock now tel = (ok, chunks, tel') \<Longrightarrow> tm_running tel' = tm_running tel"
  by (auto simp: pack_stream_metrics_def pack_script_metrics_def Let_def split: if_splits)

lemma tm_running_publish: "publish_to pub ev eid p tel = Some (p', tel') \<Longrightarrow> tm_running tel' = tm_running tel"
  by (auto simp: publish_to_def emitted_one_def split: option.splits if_splits)

lemma queue_put_ok: "ring_ok (sq_ring q) \<Longrightarrow> ring_ok (sq_ring (queue_put ev q))"
  "rb_capacity (sq_ring (queue_put ev q)) = rb_capacity (sq_ring q)"
  by (simp_all add: queue_put_def ring_write_ok) (simp add: ring_write_def Let_def)

lemma router_ok_put:
  assumes "router_ok r" "i < length (rt_queues r)"
  shows "router_ok (r\<lparr>rt_queues := (rt_queues r)[i := queue_put ev (rt_queues r ! i)]\<rparr>)"
proof -
  have "ring_ok (sq_ring q) \<and> rb_capacity (sq_ring q) = QUEUE_CAPACITY"
    if "q \<in> set ((rt_queues r)[i := queue_put ev (rt_queues r ! i)])" for q
  proof -
    from that have "q = queue_put ev (rt_queues r ! i) \<or> q \<in> set (rt_queues r)"
      using set_update_subset_insert by fastforce
    then show ?thesis using assms nth_mem [OF assms(2)] by (auto simp: router_ok_def queue_put_ok)
  qed
  with assms show ?thesis by (simp add: router_ok_def)
qed

lemma deliver_keeps [keeps_rules]:
  assumes "core_ok c" "deliver (endpoint_publish sends) ev sid t c = Some c'"
  shows "keeps c c'"
proof (cases "map_of (rt_handlers (co_router c)) t")
  case (Some he)
  with assms(1) have "he_queue_index he < length (rt_queues (co_router c))"
    by (auto simp: core_ok_def router_ok_def dest!: map_of_SomeD)
  moreover have "map sq_stopped ((rt_queues (co_router c))[i := queue_put ev (rt_queues (co_router c) ! i)]) =
      map sq_stopped (rt_queues (co_router c))" for i
    by (cases "i < length (rt_queues (co_router c))") (simp_all add: map_update queue_put_def list_update_same_conv list_update_beyond not_less)
  ultimately show ?thesis using Some assms router_ok_put [of "co_router c" "he_queue_index he" ev]
    by (auto simp: deliver_def Let_def keeps_def core_ok_def shape_def)
next
  case None
  show ?thesis
  proof (cases "rt_publisher (co_router c) \<and> has_endpoint t (co_publisher c)")
    case True
    with None assms obtain p tel where
      p: "publish_to (endpoint_publish sends) ev t (co_publisher c) (co_telemetry c) = Some (p, tel)"
      and c': "c' = c\<lparr>co_publisher := p, co_telemetry := tel\<rparr>"
      by (auto simp: deliver_def Let_def split: option.splits)
    with eps.table_ok_publish_to [OF _ p] tm_running_publish [OF p] assms(1) show ?thesis
      by (auto simp: keeps_def core_ok_def shape_def)
  next
    case False
    with None assms show ?thesis
      by (auto simp: deliver_def Let_def keeps_def core_ok_def shape_def router_ok_def)
  qed
qed

lemma deliver_all_keeps [keeps_rules]:
  "core_ok c \<Longrightarrow> deliver_all (endpoint_publish sends) ev sid ts c = Some c' \<Longrightarrow> keeps c c'"
proof (induction ts arbitrary: c)
  case (Cons t ts)
  then obtain c1 where c1: "deliver (endpoint_publish sends) ev sid t c = Some c1"
    "deliver_all (endpoint_publish sends) ev sid ts c1 = Some c'" by (auto split: option.splits)
  note k = deliver_keeps [OF Cons.prems(1) c1(1)]
  from Cons.IH [OF keeps_ok [OF k] c1(2)] k show ?case by (blast intro: keeps_trans)
qed (simp add: keeps_refl)

lemma push_no_rings: "wr_rings reg = [] \<Longrightarrow> push ev reg tel = Some (seq, reg', tel') \<Longrightarrow> reg' = reg \<and> tel' = tel"
  by (auto simp: push_def split: option.splits)

lemma route_keeps [keeps_rules]:
  assumes "core_ok c" "route (endpoint_publish sends) ev c = Some c'"
  shows "keeps c c'"
proof -
  let ?tel = "\<lambda>sid. if rt_telemetry (co_router c) then record_event sid (co_telemetry c) else co_telemetry c"
  from assms(2) obtain sid where sid: "stream_of ev = Some sid" by (auto simp: route_def split: option.splits)
  with assms(2) obtain seq reg tel where p: "push ev (co_registry c) (?tel sid) = Some (seq, reg, tel)"
    by (fastforce simp: route_def split: option.splits)
  have reg: "reg = co_registry c" using push_no_rings [OF _ p] assms(1) by (simp add: core_ok_def)
  then have k: "keeps c (c\<lparr>co_registry := reg, co_telemetry := tel\<rparr>)"
    using assms(1) push_no_rings [OF _ p] by (simp add: keeps_def core_ok_def shape_def)
  show ?thesis
  proof (cases "map_of (rt_route_table (co_router c)) sid")
    case None
    with assms(2) sid p k show ?thesis by (simp add: route_def)
  next
    case (Some ts)
    with assms(2) sid p have "deliver_all (endpoint_publish sends) ev sid ts
        (c\<lparr>co_registry := reg, co_telemetry := tel\<rparr>) = Some c'" by (simp add: route_def)
    from deliver_all_keeps [OF keeps_ok [OF k] this] k show ?thesis by (blast intro: keeps_trans)
  qed
qed

lemma route_all_keeps [keeps_rules]:
  "core_ok c \<Longrightarrow> route_all (endpoint_publish sends) evs c = Some c' \<Longrightarrow> keeps c c'"
proof (induction evs arbitrary: c)
  case (Cons ev evs)
  then obtain c1 where c1: "route (endpoint_publish sends) ev c = Some c1"
    "route_all (endpoint_publish sends) evs c1 = Some c'" by (auto split: option.splits)
  note k = route_keeps [OF Cons.prems(1) c1(1)]
  from Cons.IH [OF keeps_ok [OF k] c1(2)] k show ?case by (blast intro: keeps_trans)
qed (simp add: keeps_refl)

lemma emit_tick_keeps [keeps_rules]:
  assumes "core_ok c" "emit_tick (endpoint_publish sends) now c = Some c'"
  shows "keeps c c'"
proof (cases "tm_enabled (co_telemetry c)")
  case False
  with assms show ?thesis by (simp add: emit_tick_def keeps_refl)
next
  case True
  let ?ev = "\<lambda>s. List.map_filter (metric_event s now)"
  obtain ok chunks tel where s: "pack_stream_metrics now (co_telemetry c) = (ok, chunks, tel)"
    by (metis prod_cases3)
  let ?c1 = "c\<lparr>co_telemetry := tel\<rparr>"
  have k1: "keeps c ?c1" by (rule keeps_telemetry [OF assms(1) tm_running_pack(1) [OF s]])
  from assms(2) True s obtain c2 where
    c2: "(if ok then route_all (endpoint_publish sends) (?ev ''streams_v1'' chunks) ?c1 else Some ?c1) = Some c2"
    by (auto simp: emit_tick_def Let_def split: option.splits)
  have k2: "keeps c c2"
    using c2 k1 route_all_keeps [OF keeps_ok [OF k1]] by (cases ok) (auto intro: keeps_trans)
  obtain ok' chunks' tel' where s': "pack_script_metrics now now (co_telemetry c2) = (ok', chunks', tel')"
    by (metis prod_cases3)
  let ?c3 = "c2\<lparr>co_telemetry := tel'\<rparr>"
  have k3: "keeps c ?c3" using k2 keeps_telemetry [OF keeps_ok [OF k2] tm_running_pack(2) [OF s']] by (rule keeps_trans)
  have "(if ok' then route_all (endpoint_publish sends) (?ev ''scripts_v1'' chunks') ?c3 else Some ?c3) = Some c'"
    using assms(2) True s s' c2 by (simp add: emit_tick_def Let_def)
  then show ?thesis
    using k3 route_all_keeps [OF keeps_ok [OF k3]] by (cases ok') (auto intro: keeps_trans)
qed

lemma wait_keeps [keeps_rules]:
  "core_ok c \<Longrightarrow> wait_for_trigger i (co_router c) = (res, r) \<Longrightarrow> keeps c (c\<lparr>co_router := r\<rparr>)"
  by (auto simp: wait_for_trigger_def keeps_def core_ok_def shape_def router_ok_def
      split: if_splits prod.splits)

text \<open>Without rings a script has no windows, whatever it subscribed to.\<close>

lemma no_windows:
  assumes "wr_rings reg = []"
  shows "window_views trigger subs reg = []" "copy_windows [] reg' = []"
proof -
  have "foldl (\<lambda>ws x. ws) ([] :: ring_view umap) subs = []" by (induction subs) simp_all
  with assms show "window_views trigger subs reg = []"
    by (simp add: window_views_def case_prod_unfold)
qed (simp add: copy_windows_def)

definition empty_input :: "'h dispatch_data \<Rightarrow> event \<Rightarrow> script_input" where
  "empty_input dp ev =
     (case ls_mode (dp_script dp) of
        ZeroCopy \<Rightarrow> Zero_copy_input \<lparr>zi_trigger_event = ev, zi_windows = []\<rparr>
      | Snapshot \<Rightarrow> Snapshot_input \<lparr>si_trigger_event = ev, si_windows = []\<rparr>)"

lemma dispatch_no_rings:
  assumes "wr_rings (co_registry c) = []" "dispatch_script run dur fmin fmax dp ev c = Some (out, c')"
  shows "out = run (ls_handle (dp_script dp)) (empty_input dp ev)"
    "\<exists>tel. c' = c\<lparr>co_telemetry := tel\<rparr> \<and> tm_running tel = tm_running (co_telemetry c)"
  using assms
  by (auto dest!: tm_running_invocation simp: dispatch_script_def Let_def make_zero_copy_input_def make_snapshot_input_def no_windows
      min_begin_def script_end_read_def empty_input_def split: script_mode.splits)

lemma dispatch_keeps [keeps_rules]:
  assumes "core_ok c" "dispatch_script run dur fmin fmax dp ev c = Some (out, c')"
  shows "keeps c c'"
  using dispatch_no_rings(2) [OF _ assms(2)] keeps_telemetry [OF assms(1)] assms(1)
  by (auto simp: core_ok_def)

lemma thread_step_keeps [keeps_rules]:
  assumes "core_ok c" "script_thread_step (endpoint_publish sends) run dur fmin fmax th c = Ran c'"
  shows "keeps c c'"
proof -
  obtain res r where w: "wait_for_trigger (sd_queue_idx th) (co_router c) = (res, r)" by fastforce
  with assms(2) obtain ev where res: "res = Returned (Some ev)"
    by (auto simp: script_thread_step_def split: wait_result.splits option.splits)
  from assms(2) w res obtain out c1 where
    d: "dispatch_script run dur fmin fmax (sd_dispatch th) ev (c\<lparr>co_router := r\<rparr>) = Some (out, c1)"
    and a: "route_all (endpoint_publish sends) (map (rename_stream (sd_output_stream th)) out) c1 = Some c'"
    by (auto simp: script_thread_step_def split: option.splits)
  note k1 = wait_keeps [OF assms(1) w]
  note k2 = keeps_trans [OF k1 dispatch_keeps [OF keeps_ok [OF k1] d]]
  from keeps_trans [OF k2 route_all_keeps [OF keeps_ok [OF k2] a]] show ?thesis .
qed

section \<open>The invariant of the pipeline\<close>

text \<open>Script thread \<open>i\<close> owns queue \<open>i\<close> and read position \<open>i\<close> of the registry.\<close>

definition pipeline_ok :: "'h pipeline_state \<Rightarrow> bool" where
  "pipeline_ok st \<longleftrightarrow> core_ok (ps_core st) \<and>
     map sd_queue_idx (ps_threads st) = [0..<length (rt_queues (co_router (ps_core st)))] \<and>
     map sd_registry_idx (ps_threads st) = [0..<length (wr_script_positions (co_registry (ps_core st)))]"

lemma pipeline_ok_keeps: "pipeline_ok st \<Longrightarrow> keeps (ps_core st) c \<Longrightarrow> pipeline_ok (st\<lparr>ps_core := c\<rparr>)"
  by (auto simp: pipeline_ok_def keeps_def shape_def dest: map_eq_imp_length_eq)

lemma pipeline_step_keeps:
  assumes "pipeline_step st st'" "pipeline_ok st"
  shows "\<exists>c. st' = st\<lparr>ps_core := c\<rparr> \<and> keeps (ps_core st) c"
proof -
  have ok: "core_ok (ps_core st)" using assms(2) by (simp add: pipeline_ok_def)
  from assms(1) show ?thesis
  proof (cases rule: pipeline_step.cases)
    case (Ingested plugin rename_to sends ev)
    then show ?thesis using ok by (auto simp: ingest_def intro: route_keeps)
  next
    case (Scripted th sends run dur fmin fmax c)
    then show ?thesis using thread_step_keeps [OF ok] by blast
  next
    case (Ticked sends now c)
    then show ?thesis using emit_tick_keeps [OF ok] by blast
  qed
qed

lemma reachable_ok:
  "pipeline_reachable st0 st \<Longrightarrow> pipeline_ok st0 \<Longrightarrow> pipeline_ok st \<and>
     ps_threads st = ps_threads st0 \<and> ps_plugins st = ps_plugins st0 \<and> shape (ps_core st) = shape (ps_core st0)"
proof (induction rule: pipeline_reachable.induct)
  case (Step st st')
  then have ok: "pipeline_ok st" by simp
  from pipeline_step_keeps [OF Step.hyps(2) ok] obtain c where
    c: "st' = st\<lparr>ps_core := c\<rparr>" "keeps (ps_core st) c" by blast
  with Step.IH Step.prems pipeline_ok_keeps [OF ok c(2)] show ?case by (simp add: keeps_def)
qed simp

section \<open>Starting\<close>

lemma table_ok_add_section:
  "eps.table_ok (fst s) \<Longrightarrow> eps.table_ok (fst (add_endpoint_section env s sec))"
  by (cases s) (auto simp: add_endpoint_section_def intro: eps.table_ok_add split: sum.split)

lemma table_ok_add_sections:
  "eps.table_ok (fst s) \<Longrightarrow> eps.table_ok (fst (foldl (add_endpoint_section env) s secs))"
  by (induction secs arbitrary: s) (simp_all add: table_ok_add_section)

lemma table_ok_build:
  assumes "eps.table_ok p"
  shows "eps.table_ok (build_endpoints env cfg p)"
  using table_ok_add_sections [of "(p, False)" env "of_type cfg ''publisher''"] assms
  by (auto simp: build_endpoints_def Let_def intro: eps.table_ok_add split: prod.split)

lemma wire_ok: "pipeline_ok (wire env cfg)"
proof -
  have "eps.table_ok (publisher_set_telemetry True publisher_new)"
    using eps.table_ok_new by (simp add: eps.table_ok_def publisher_set_telemetry_def)
  from table_ok_build [OF this] show ?thesis
    by (simp add: pipeline_ok_def wire_def core_ok_def router_ok_def router_set_telemetry_def set_routes_def
        set_publisher_def router_new_def registry_set_telemetry_def registry_new_def)
qed

lemma register_queue_ok:
  assumes "router_ok r" "register_script_queue QUEUE_CAPACITY r = Some (i, r')"
  shows "router_ok (register_handler sid sub dp i r')" "i = length (rt_queues r)"
    "length (rt_queues r') = Suc (length (rt_queues r))"
proof -
  from assms(2) obtain q where q: "ring_new event_default QUEUE_CAPACITY = Some q"
    and r': "i = length (rt_queues r)" "r' = r\<lparr>rt_queues := rt_queues r @ [\<lparr>sq_ring = q, sq_stopped = False\<rparr>],
      rt_read_positions := rt_read_positions r @ [0]\<rparr>"
    by (auto simp: register_script_queue_def split: option.splits)
  have "ring_ok q" using ring_new_log(1) [OF q] by (simp add: ring_log_def QUEUE_CAPACITY_def)
  moreover have "rb_capacity q = QUEUE_CAPACITY" using q by (auto simp: ring_new_def Let_def split: if_splits)
  moreover have "he_queue_index he < Suc (length (rt_queues r))"
    if "(k, he) \<in> set (AList.update sid \<lparr>he_sub = sub, he_dispatch = dp, he_queue_index = length (rt_queues r)\<rparr> (rt_handlers r))" for k he
    using that eps.set_update [OF that] assms(1) by (fastforce simp: router_ok_def)
  ultimately show "router_ok (register_handler sid sub dp i r')" "i = length (rt_queues r)"
    "length (rt_queues r') = Suc (length (rt_queues r))"
    using assms(1) by (auto simp: r' router_ok_def register_handler_def)
qed

lemma enter_script_ok:
  assumes "pipeline_ok st" "enter_script sec script st = Some st'"
  shows "pipeline_ok st'"
proof -
  let ?c = "ps_core st" and ?i = "length (wr_script_positions (co_registry (ps_core st)))"
  let ?sub = "script_sub sec (section_get sec ''trigger'' [])"
  let ?dp = "\<lparr>dp_script = script, dp_sub = ?sub, dp_script_idx = ?i\<rparr>"
  from assms(2) obtain i r where q: "register_script_queue QUEUE_CAPACITY (co_router ?c) = Some (i, r)"
    and st': "st' = st\<lparr>ps_core := ?c\<lparr>co_router := register_handler (ls_id script) ?sub ?dp i r,
        co_registry := snd (register_script (co_registry ?c)),
        co_telemetry := register_script_stats (ls_id script) (co_telemetry ?c)\<rparr>,
      ps_threads := ps_threads st @ [\<lparr>sd_registry_idx = ?i, sd_queue_idx = i,
        sd_output_stream = output_stream sec, sd_dispatch = ?dp\<rparr>]\<rparr>"
    by (auto simp: enter_script_def Let_def register_script_def)
  have "router_ok (co_router ?c)" using assms(1) by (simp add: pipeline_ok_def core_ok_def)
  note new = register_queue_ok [OF this q]
  have "rt_queues (register_handler (ls_id script) ?sub ?dp i r) = rt_queues r" by (simp add: register_handler_def)
  with new assms(1) show ?thesis
    by (simp add: st' pipeline_ok_def core_ok_def register_script_def)
qed

lemma add_script_ok: "pipeline_ok st \<Longrightarrow> add_script env sec st = Some st' \<Longrightarrow> pipeline_ok st'"
  by (auto simp: add_script_def intro: enter_script_ok split: option.splits bool.splits)

lemma add_scripts_ok:
  "pipeline_ok st \<Longrightarrow> add_scripts env secs st = Some st' \<Longrightarrow> pipeline_ok st'"
proof (induction secs arbitrary: st)
  case (Cons sec secs)
  then show ?case by (auto split: option.splits dest: add_script_ok)
qed simp

lemma start_ok: "start_pipeline env cfg = Started st \<Longrightarrow> pipeline_ok st"
proof -
  assume "start_pipeline env cfg = Started st"
  then obtain st0 plugins where s: "add_scripts env (of_type cfg ''script'') (wire env cfg) = Some st0"
    and st: "st = st0\<lparr>ps_plugins := plugins,
      ps_core := (ps_core st0)\<lparr>co_telemetry := telemetry_start (co_telemetry (ps_core st0))\<rparr>\<rparr>"
    by (auto simp: start_pipeline_def split: option.splits list.splits if_splits)
  from add_scripts_ok [OF wire_ok s] show ?thesis by (simp add: st pipeline_ok_def core_ok_def)
qed

text \<open>When a start fails: a section whose required field is missing before an empty one, and a
  script section that gives a thread.\<close>

definition dangling :: "config_section \<Rightarrow> bool" where
  "dangling sec \<longleftrightarrow> any_empty (map (field_ref sec) [''id'', ''runtime'', ''path'', ''trigger'']) = None"

definition usable :: "'h pipeline_env \<Rightarrow> config_section \<Rightarrow> bool" where
  "usable env sec \<longleftrightarrow> any_empty (map (field_ref sec) [''id'', ''runtime'', ''path'', ''trigger'']) = Some False \<and>
     load_script env sec \<noteq> None"

lemma register_queue_Some: "\<exists>i r'. register_script_queue QUEUE_CAPACITY r = Some (i, r')"
proof -
  have "\<exists>q. ring_new event_default QUEUE_CAPACITY = Some q" by (simp add: ring_new_def QUEUE_CAPACITY_def)
  then show ?thesis by (auto simp: register_script_queue_def)
qed

lemma enter_script_Some:
  "\<exists>st' th. enter_script sec script st = Some st' \<and> ps_threads st' = ps_threads st @ [th]"
  using register_queue_Some [of "co_router (ps_core st)"]
  by (auto simp: enter_script_def Let_def register_script_def)

lemma add_script_result:
  "case add_script env sec st of
     None \<Rightarrow> dangling sec
   | Some st' \<Rightarrow> \<not> dangling sec \<and> (ps_threads st' = [] \<longleftrightarrow> ps_threads st = [] \<and> \<not> usable env sec)"
proof (cases "load_script env sec")
  case None
  then show ?thesis by (auto simp: add_script_def dangling_def usable_def split: option.splits bool.splits)
next
  case (Some script)
  obtain st' th where "enter_script sec script st = Some st'" "ps_threads st' = ps_threads st @ [th]"
    using enter_script_Some [of sec script st] by blast
  with Some show ?thesis by (auto simp: add_script_def dangling_def usable_def split: option.splits bool.splits)
qed

lemma add_scripts_result:
  "case add_scripts env secs st of
     None \<Rightarrow> \<exists>sec \<in> set secs. dangling sec
   | Some st' \<Rightarrow> (\<forall>sec \<in> set secs. \<not> dangling sec) \<and>
       (ps_threads st' = [] \<longleftrightarrow> ps_threads st = [] \<and> (\<forall>sec \<in> set secs. \<not> usable env sec))"
proof (induction secs arbitrary: st)
  case (Cons sec secs)
  show ?case
  proof (cases "add_script env sec st")
    case None
    then show ?thesis using add_script_result [where env = env and sec = sec and st = st] by simp
  next
    case (Some st1)
    then show ?thesis using add_script_result [where env = env and sec = sec and st = st] Cons.IH [of st1]
      by (auto split: option.splits)
  qed
qed simp

section \<open>From an ingestor to a script\<close>

lemma deliver_queue:
  assumes "deliver pub ev sid t c = Some c'" "i < length (rt_queues (co_router c))"
  shows "rt_queues (co_router c') ! i = (if to_queue (co_router c) i t then queue_put ev (rt_queues (co_router c) ! i)
      else rt_queues (co_router c) ! i)"
    "rt_handlers (co_router c') = rt_handlers (co_router c)"
    "rt_read_positions (co_router c') = rt_read_positions (co_router c)"
    "length (rt_queues (co_router c')) = length (rt_queues (co_router c))"
  using assms
  by (auto simp: deliver_def Let_def to_queue_def split: option.splits if_splits)

lemma deliver_all_queue:
  assumes "deliver_all pub ev sid ts c = Some c'" "i < length (rt_queues (co_router c))"
  shows "rt_queues (co_router c') ! i =
      (queue_put ev ^^ length (filter (to_queue (co_router c) i) ts)) (rt_queues (co_router c) ! i) \<and>
    rt_read_positions (co_router c') = rt_read_positions (co_router c) \<and>
    length (rt_queues (co_router c')) = length (rt_queues (co_router c))"
  using assms
proof (induction ts arbitrary: c)
  case (Cons t ts)
  then obtain c1 where c1: "deliver pub ev sid t c = Some c1" "deliver_all pub ev sid ts c1 = Some c'"
    by (auto split: option.splits)
  note d = deliver_queue [OF c1(1) Cons.prems(2)]
  have "to_queue (co_router c1) i = to_queue (co_router c) i" by (rule ext) (simp add: to_queue_def d)
  with Cons.IH [OF c1(2)] Cons.prems(2) d show ?case
    by (auto simp: funpow_swap1)
qed simp

lemma route_queue:
  assumes "route pub ev c = Some c'" "stream_of ev = Some sid" "i < length (rt_queues (co_router c))"
  shows "rt_queues (co_router c') ! i =
      (queue_put ev ^^ length (filter (to_queue (co_router c) i) (targets_of (co_router c) sid)))
        (rt_queues (co_router c) ! i) \<and>
    rt_read_positions (co_router c') = rt_read_positions (co_router c) \<and>
    length (rt_queues (co_router c')) = length (rt_queues (co_router c))"
proof -
  let ?tel = "if rt_telemetry (co_router c) then record_event sid (co_telemetry c) else co_telemetry c"
  from assms(1,2) obtain seq reg tel where p: "push ev (co_registry c) ?tel = Some (seq, reg, tel)"
    by (fastforce simp: route_def split: option.splits)
  then have "deliver_all pub ev sid (targets_of (co_router c) sid) (c\<lparr>co_registry := reg, co_telemetry := tel\<rparr>) = Some c'"
    using assms(1,2) by (auto simp: route_def targets_of_def split: option.splits)
  from deliver_all_queue [OF this, of i] assms(3) show ?thesis by simp
qed

text \<open>A thread that is up to date takes the one event put into its queue.\<close>

lemma take_single:
  assumes "ring_ok (sq_ring q)" "\<not> sq_stopped q" "ring_head (sq_ring q) \<noteq> UINT64_MAX"
  shows "queue_take (queue_put ev q) (ring_head (sq_ring q)) =
    (Returned (Some ev), ring_head (sq_ring q) + 1)"
proof -
  let ?r = "sq_ring q"
  have "ring_head ?r < UINT64_MAX" using assms(3) word_order.not_eq_extremum by blast
  then have less: "ring_head ?r < ring_head ?r + 1"
    by (simp add: word_less_nat_alt unat_Suc_less)
  have head: "ring_head (sq_ring (queue_put ev q)) = ring_head ?r + 1"
    by (simp add: queue_put_def ring_write_def ring_head_def Let_def)
  have "unat (ring_head ?r AND rb_mask ?r) < length (rb_slots ?r)"
    using ring_ok_facts [OF assms(1)] by simp
  then have "ring_read (sq_ring (queue_put ev q)) (ring_head ?r) = Some ev"
    using less by (simp add: queue_put_def ring_write_def ring_read_def ring_head_def Let_def not_le)
  with less assms(2) show ?thesis
    by (simp add: queue_take_def head Let_def) (simp add: queue_put_def not_le)
qed

lemma rename_stream_eq: "rename_stream name ev = (if name = [] then ev else set_stream name ev)"
  by (simp add: rename_stream_def set_stream_def)

section \<open>Properties\<close>

text \<open>C22. The running pipeline: from the start on, through every step of its ingestors, script
  threads and telemetry, script thread \<open>i\<close> owns queue \<open>i\<close> and position \<open>i\<close>,
  every handler's queue exists, the queues and read positions stay in step, every queue is a
  ring of 1024 events, and every endpoint stands under its own name; threads, plugins,
  handlers and the routing table do not change.\<close>

theorem pipeline_invariant:
  assumes "start_pipeline env cfg = Started st0" "pipeline_reachable st0 st"
  shows "pipeline_ok st \<and> ps_threads st = ps_threads st0 \<and> ps_plugins st = ps_plugins st0 \<and>
    rt_handlers (co_router (ps_core st)) = rt_handlers (co_router (ps_core st0)) \<and>
    rt_route_table (co_router (ps_core st)) = rt_route_table (co_router (ps_core st0))"
  using reachable_ok [OF assms(2) start_ok [OF assms(1)]] by (simp add: shape_def)

text \<open>How a start fails. A script section that lacks a required key (with no empty one
  before it) is not skipped but read through a dangling reference. Otherwise, when no
  ingestor loads, the start fails with an exception only if no script was loaded either: a
  loaded script's thread has been started by then, and destroying it ends the program.\<close>

theorem start_failures:
  assumes "load_plugins env (of_type cfg ''ingestor'') = Some []"
  shows "start_pipeline env cfg =
    (if \<exists>sec \<in> set (of_type cfg ''script''). dangling sec then Undefined_start
     else if \<exists>sec \<in> set (of_type cfg ''script''). usable env sec then Terminated else No_ingestors)"
  using add_scripts_result [where env = env and secs = "of_type cfg ''script''" and st = "wire env cfg"] assms
  by (auto simp: start_pipeline_def wire_def split: option.splits)

text \<open>C23. No script ever has a window. Nothing in the pipeline creates a ring in the registry
  (\<^verbatim>\<open>ensure_stream\<close> is not called), so at any time, for any trigger and any
  subscriptions, both kinds of input come without windows, and a push stores nothing.\<close>

theorem scripts_see_no_windows:
  assumes "start_pipeline env cfg = Started st0" "pipeline_reachable st0 st"
  shows "zi_windows (make_zero_copy_input trigger subs (co_registry (ps_core st))) = [] \<and>
    si_windows (make_snapshot_input trigger subs i (co_registry (ps_core st)) reg) = [] \<and>
    (stream_of ev \<noteq> None \<longrightarrow> push ev (co_registry (ps_core st)) tel = Some (0, co_registry (ps_core st), tel))"
proof -
  have "wr_rings (co_registry (ps_core st)) = []"
    using reachable_ok [OF assms(2) start_ok [OF assms(1)]] by (simp add: pipeline_ok_def core_ok_def)
  then show ?thesis
    by (auto simp: make_zero_copy_input_def make_snapshot_input_def no_windows push_def)
qed

text \<open>The next round of an idle script thread after an event for it was ingested.\<close>

lemma round_after_ingest:
  assumes "start_pipeline env cfg = Started st0" "pipeline_reachable st0 st"
    and "ingest sends rename_to ev st = Some st'" "stream_of (rename_stream rename_to ev) = Some sid"
    and "th \<in> set (ps_threads st)" "q = rt_queues (co_router (ps_core st)) ! sd_queue_idx th"
    and "length (filter (to_queue (co_router (ps_core st)) (sd_queue_idx th))
           (targets_of (co_router (ps_core st)) sid)) = 1"
    and "rt_read_positions (co_router (ps_core st)) ! sd_queue_idx th = ring_head (sq_ring q)"
    and "\<not> sq_stopped q" "ring_head (sq_ring q) \<noteq> UINT64_MAX"
    and "script_thread_step (endpoint_publish sends') run dur fmin fmax th (ps_core st') = s"
  shows "s \<noteq> Waiting \<and> (\<forall>c. s \<noteq> Finished c) \<and> (\<forall>c. s = Ran c \<longrightarrow> (\<exists>c'. route_all (endpoint_publish sends')
      (map (rename_stream (sd_output_stream th))
        (run (ls_handle (dp_script (sd_dispatch th))) (empty_input (sd_dispatch th) (rename_stream rename_to ev))))
      c' = Some c))"
proof -
  let ?ev = "rename_stream rename_to ev" and ?i = "sd_queue_idx th" and ?r = "co_router (ps_core st)"
  have ok: "pipeline_ok st" using reachable_ok [OF assms(2) start_ok [OF assms(1)]] by simp
  then have core: "core_ok (ps_core st)" by (simp add: pipeline_ok_def)
  have "?i \<in> set (map sd_queue_idx (ps_threads st))" using assms(5) by simp
  then have i: "?i < length (rt_queues ?r)" using ok by (simp only: pipeline_ok_def set_upt) simp
  then have ring: "ring_ok (sq_ring q)" using core assms(6) nth_mem [OF i] by (auto simp: core_ok_def router_ok_def)
  from assms(3) obtain c where c: "route (endpoint_publish sends) ?ev (ps_core st) = Some c" and st': "ps_core st' = c"
    by (auto simp: ingest_def)
  from route_queue [OF c assms(4) i] assms(6,7,8) have q: "rt_queues (co_router c) ! ?i = queue_put ?ev q"
    and pos: "rt_read_positions (co_router c) ! ?i = ring_head (sq_ring q)" and len: "?i < length (rt_queues (co_router c))"
    using i by simp_all
  obtain r where w: "wait_for_trigger ?i (co_router c) = (Returned (Some ?ev), r)"
    using len by (simp add: wait_for_trigger_def q pos take_single [OF ring assms(9,10)])
  have "wr_rings (co_registry (c\<lparr>co_router := r\<rparr>)) = []"
    using keeps_ok [OF route_keeps [OF core c]] by (simp add: core_ok_def)
  note d = dispatch_no_rings(1) [OF this]
  show ?thesis
    unfolding assms(11) [symmetric] script_thread_step_def st' w prod.case wait_result.case option.case
    by (auto dest: d split: option.splits)
qed

text \<open>From an ingestor through a script. In a running pipeline, when a plugin emits an event and
  the thread of a script to which the event's stream (after the plugin's renaming) is routed
  once has nothing else to do, that thread's next round takes exactly this event, runs the
  script on it without windows, and routes everything the script emitted under the name of
  the script's output stream.\<close>

theorem ingest_runs_script:
  assumes "start_pipeline env cfg = Started st0" "pipeline_reachable st0 st"
    and "ingest sends rename_to ev st = Some st'" "stream_of (rename_stream rename_to ev) = Some sid"
    and "th \<in> set (ps_threads st)" "q = rt_queues (co_router (ps_core st)) ! sd_queue_idx th"
    and "length (filter (to_queue (co_router (ps_core st)) (sd_queue_idx th))
           (targets_of (co_router (ps_core st)) sid)) = 1"
    and "rt_read_positions (co_router (ps_core st)) ! sd_queue_idx th = ring_head (sq_ring q)"
    and "\<not> sq_stopped q" "ring_head (sq_ring q) \<noteq> UINT64_MAX"
    and "script_thread_step (endpoint_publish sends') run dur fmin fmax th (ps_core st') = s"
  shows "s \<noteq> Waiting \<and> (\<forall>c. s \<noteq> Finished c) \<and> (\<forall>c. s = Ran c \<longrightarrow> (\<exists>c'. route_all (endpoint_publish sends')
      (map (rename_stream (sd_output_stream th))
        (run (ls_handle (dp_script (sd_dispatch th))) (empty_input (sd_dispatch th) (rename_stream rename_to ev))))
      c' = Some c))"
  by (rule round_after_ingest [OF assms])

text \<open>Stopping leaves nothing running: after \<^verbatim>\<open>stop_pipeline\<close> every script
  thread ends at its next round, so that it can be joined, and neither an ingestor nor a
  script nor the telemetry can take a step.\<close>

theorem stop_pipeline_quiet:
  fixes st :: "'h pipeline_state"
  shows "joined (stop_pipeline st) \<and> \<not> pipeline_step (stop_pipeline st) st'"
proof -
  have fin: "script_thread_step pub run dur fmin fmax th (ps_core (stop_pipeline st)) = Finished (ps_core (stop_pipeline st))"
    for pub run dur fmin fmax and th :: "'h script_thread"
    by (simp add: script_thread_step_def stop_pipeline_def Let_def wait_stopped)
  moreover have "\<not> pipeline_step (stop_pipeline st) st'"
  proof
    assume "pipeline_step (stop_pipeline st) st'"
    then show False
      by (elim pipeline_stepE) (simp_all add: fin, simp_all add: stop_pipeline_def Let_def telemetry_stop_def split: if_splits)
  qed
  ultimately show ?thesis by (simp add: joined_def)
qed

section \<open>Witnesses\<close>

definition example_sec :: config_section where
  "example_sec = \<lparr>sec_type = ''script'',
     sec_kv = [(''id'', ''f''), (''runtime'', ''wasm''), (''path'', ''f.wasm''), (''trigger'', ''s'')],
     sec_multi = [(''emits'', [''o''])]\<rparr>"

definition example_cfg :: config where
  "example_cfg = \<lparr>cfg_sections =
     [\<lparr>sec_type = ''ingestor'', sec_kv = [(''id'', ''i''), (''plugin'', ''p.so'')], sec_multi = []\<rparr>,
      example_sec,
      \<lparr>sec_type = ''routes'', sec_kv = [(''s'', ''f'')], sec_multi = []\<rparr>]\<rparr>"

definition example_env :: "unit pipeline_env" where
  "example_env = \<lparr>pe_os = \<lparr>os_opens = (\<lambda>_. True), os_listens = (\<lambda>_ _. Listening)\<rparr>,
     pe_python = (\<lambda>_ _. Some ()), pe_wasm = (\<lambda>_ _. Some ()), pe_plugin = (\<lambda>_. Plugin_starts)\<rparr>"

lemma ring_new_head: "ring_new d n = Some q \<Longrightarrow> ring_head q = 0"
  by (auto simp: ring_new_def ring_head_def Let_def split: if_splits)

lemma example_start:
  obtains st0 q th where "start_pipeline example_env example_cfg = Started st0"
    "ring_new event_default QUEUE_CAPACITY = Some q" "ps_threads st0 = [th]" "sd_queue_idx th = 0"
    "sd_output_stream th = ''o''" "ps_plugins st0 = [(''p.so'', [])]"
    "rt_queues (co_router (ps_core st0)) = [\<lparr>sq_ring = q, sq_stopped = False\<rparr>]"
    "rt_read_positions (co_router (ps_core st0)) = [0]"
    "to_queue (co_router (ps_core st0)) 0 = (\<lambda>t. t = ''f'')"
    "rt_route_table (co_router (ps_core st0)) = [(''s'', [''f''])]" "ls_mode (dp_script (sd_dispatch th)) = ZeroCopy"
proof -
  obtain q where q: "ring_new event_default QUEUE_CAPACITY = Some q"
    by (simp add: ring_new_def QUEUE_CAPACITY_def)
  have routes: "parse_routes example_cfg = [(''s'', [''f''])]" by code_simp
  have emits: "output_stream example_sec = ''o''" by code_simp
  have scripts: "of_type example_cfg ''script'' = [example_sec]" by code_simp
  have plugins: "load_plugins example_env (of_type example_cfg ''ingestor'') = Some [(''p.so'', [])]" by code_simp
  have load: "load_script example_env example_sec =
      Some \<lparr>ls_id = ''f'', ls_mode = ZeroCopy, ls_handle = ()\<rparr>" by code_simp
  have full: "any_empty (map (field_ref example_sec) [''id'', ''runtime'', ''path'', ''trigger'']) = Some False"
    by code_simp
  let ?w = "wire example_env example_cfg" and ?sec = example_sec
  let ?c = "ps_core ?w"
  have router: "co_router ?c = router_set_telemetry True (set_routes [(''s'', [''f''])] (set_publisher True router_new))"
    by (simp add: wire_def routes)
  have reg: "register_script_queue QUEUE_CAPACITY (co_router ?c) = Some (0, (co_router ?c)
      \<lparr>rt_queues := [\<lparr>sq_ring = q, sq_stopped = False\<rparr>], rt_read_positions := [0]\<rparr>)"
    by (simp add: register_script_queue_def q router router_set_telemetry_def set_routes_def set_publisher_def router_new_def)
  have router_fields: "rt_handlers (co_router ?c) = []" "rt_route_table (co_router ?c) = [(''s'', [''f''])]"
    by (simp_all add: router router_set_telemetry_def set_routes_def set_publisher_def router_new_def)
  have threads: "ps_threads ?w = []" by (simp add: wire_def)
  obtain st where st: "enter_script ?sec \<lparr>ls_id = ''f'', ls_mode = ZeroCopy, ls_handle = ()\<rparr> ?w = Some st"
    by (simp add: enter_script_def reg Let_def register_script_def)
  have th: "map sd_queue_idx (ps_threads st) = [0]" "map sd_output_stream (ps_threads st) = [''o'']"
    "map (\<lambda>t. ls_mode (dp_script (sd_dispatch t))) (ps_threads st) = [ZeroCopy]"
    and rt: "rt_queues (co_router (ps_core st)) = [\<lparr>sq_ring = q, sq_stopped = False\<rparr>]"
    "rt_read_positions (co_router (ps_core st)) = [0]"
    "rt_route_table (co_router (ps_core st)) = [(''s'', [''f''])]"
    "map (\<lambda>(k, he). (k, he_queue_index he)) (rt_handlers (co_router (ps_core st))) = [(''f'', 0)]"
    using st [symmetric] router_fields
    by (simp_all add: enter_script_def reg Let_def register_script_def register_handler_def emits threads)
  have tq: "to_queue (co_router (ps_core st)) 0 = (\<lambda>t. t = ''f'')"
    using rt(4) by (intro ext) (auto simp: to_queue_def split: if_splits)
  have added: "add_scripts example_env (of_type example_cfg ''script'') ?w = Some st"
    by (simp add: scripts add_script_def load st) (simp add: full [simplified] load st)
  let ?st = "st\<lparr>ps_plugins := [(''p.so'', [])], ps_core := (ps_core st)\<lparr>co_telemetry := telemetry_start (co_telemetry (ps_core st))\<rparr>\<rparr>"
  have start: "start_pipeline example_env example_cfg = Started ?st"
    by (simp add: start_pipeline_def added plugins)
  from th obtain t where t: "ps_threads st = [t]" "sd_queue_idx t = 0" "sd_output_stream t = ''o''"
    "ls_mode (dp_script (sd_dispatch t)) = ZeroCopy"
    by (auto simp: map_eq_Cons_conv)
  show thesis
    by (rule that [of ?st q t]) (simp_all add: start q t rt tq)
qed

text \<open>The default telemetry endpoint replaces a configured endpoint of the id \<open>telemetry\<close>
  that has another type.\<close>

lemma telemetry_id_replaced:
  "let cfg = \<lparr>cfg_sections = [\<lparr>sec_type = ''publisher'', sec_kv = [(''id'', ''telemetry''), (''type'', ''null'')], sec_multi = []\<rparr>]\<rparr>
   in make_endpoint (pe_os example_env) (hd (of_type cfg ''publisher'')) = Inr (Null_endpoint ''telemetry'') \<and>
      pb_endpoints (build_endpoints (pe_os example_env) cfg publisher_new) = [(''telemetry'', default_telemetry)]"
  by code_simp

theorem start_failures_witness:
  "start_pipeline example_env \<lparr>cfg_sections = [example_sec]\<rparr> = Terminated"
proof -
  have "load_plugins example_env (of_type \<lparr>cfg_sections = [example_sec]\<rparr> ''ingestor'') = Some []" by code_simp
  moreover have "of_type \<lparr>cfg_sections = [example_sec]\<rparr> ''script'' = [example_sec]" by code_simp
  moreover have "any_empty (map (field_ref example_sec) [''id'', ''runtime'', ''path'', ''trigger'']) = Some False" by code_simp
  moreover have "load_script example_env example_sec \<noteq> None" by code_simp
  ultimately show ?thesis
    by (subst start_failures) (simp_all add: dangling_def usable_def)
qed

theorem pipeline_invariant_witness:
  "\<exists>st0. start_pipeline example_env example_cfg = Started st0 \<and> pipeline_ok st0"
proof -
  obtain st0 where st0: "start_pipeline example_env example_cfg = Started st0" by (rule example_start)
  from pipeline_invariant [OF st0 Start] st0 show ?thesis by blast
qed

theorem scripts_see_no_windows_witness:
  "\<exists>st0. start_pipeline example_env example_cfg = Started st0 \<and>
     (\<forall>trigger subs. zi_windows (make_zero_copy_input trigger subs (co_registry (ps_core st0))) = [])"
proof -
  obtain st0 where st0: "start_pipeline example_env example_cfg = Started st0" by (rule example_start)
  from scripts_see_no_windows [OF st0 Start] st0 show ?thesis by blast
qed

text \<open>Any event on the stream \<open>s\<close> is routed to the one queue.\<close>

lemma example_ingest:
  fixes st0 :: "unit pipeline_state"
  assumes "rt_queues (co_router (ps_core st0)) = [q]" "to_queue (co_router (ps_core st0)) 0 = (\<lambda>t. t = ''f'')"
    and "rt_route_table (co_router (ps_core st0)) = [(''s'', [''f''])]" "stream_of (rename_stream rename_to ev) = Some ''s''"
  obtains st' where "ingest sends rename_to ev st0 = Some st'"
proof -
  let ?c = "ps_core st0"
  obtain he where he: "map_of (rt_handlers (co_router ?c)) ''f'' = Some he" "he_queue_index he = 0"
    using fun_cong [OF assms(2), of "''f''"] by (auto simp: to_queue_def)
  obtain seq reg tel where "push (rename_stream rename_to ev) (co_registry ?c)
      (if rt_telemetry (co_router ?c) then record_event ''s'' (co_telemetry ?c) else co_telemetry ?c) = Some (seq, reg, tel)"
    using push_terminated [OF assms(4)] by (metis prod_cases3)
  then obtain c where "route (endpoint_publish sends) (rename_stream rename_to ev) ?c = Some c"
    using assms by (simp add: route_def deliver_def he)
  then show thesis by (intro that) (simp add: ingest_def)
qed

theorem ingest_runs_script_witness:
  "\<exists>st0 st' th. start_pipeline example_env example_cfg = Started st0 \<and>
     ingest (\<lambda>_. []) [] (set_stream ''s'' event_default) st0 = Some st' \<and> th \<in> set (ps_threads st0) \<and>
     script_thread_step (endpoint_publish (\<lambda>_. [])) (\<lambda>h i. []) 5 [] [] th (ps_core st') \<noteq> Waiting"
proof -
  obtain st0 q th where e: "start_pipeline example_env example_cfg = Started st0"
    "ring_new event_default QUEUE_CAPACITY = Some q" "ps_threads st0 = [th]" "sd_queue_idx th = 0"
    "sd_output_stream th = ''o''" "ps_plugins st0 = [(''p.so'', [])]"
    "rt_queues (co_router (ps_core st0)) = [\<lparr>sq_ring = q, sq_stopped = False\<rparr>]"
    "rt_read_positions (co_router (ps_core st0)) = [0]"
    "to_queue (co_router (ps_core st0)) 0 = (\<lambda>t. t = ''f'')"
    "rt_route_table (co_router (ps_core st0)) = [(''s'', [''f''])]" by (rule example_start)
  let ?ev = "set_stream ''s'' event_default"
  have s: "stream_of (rename_stream [] ?ev) = Some ''s''"
    by (simp add: rename_stream_eq stream_of_set_stream c_str_simps)
  obtain st' where st': "ingest (\<lambda>_. []) [] ?ev st0 = Some st'" by (rule example_ingest [OF e(7,9,10) s])
  have "script_thread_step (endpoint_publish (\<lambda>_. [])) (\<lambda>h i. []) 5 [] [] th (ps_core st') \<noteq> Waiting"
    by (rule ingest_runs_script [OF e(1) Start st' s, of th "\<lparr>sq_ring = q, sq_stopped = False\<rparr>", THEN conjunct1])
       (simp_all add: e targets_of_def ring_new_head [OF e(2)])
  with e(1,3) st' show ?thesis by auto
qed

end
