(* ===== verification/Wasm_Marshal.thy ===== *)
theory Wasm_Marshal
  imports Bytes Window_Registry
begin

text \<open>
  \<^verbatim>\<open>executor/wasm/wasm_script.hpp\<close>: how a trigger event and its windows are written
  into the linear memory of a WASM script, and how the events it emits are read back. The
  memory is a list of bytes; the call of the script is an argument, a function on the memory
  and the length of the input that gives its result and the memory afterwards, or \<open>None\<close>
  for a trap. Reading or writing outside the memory or outside an event is undefined, the
  value \<open>None\<close>.
\<close>

section \<open>Events\<close>

text \<open>The pointer writers append to what has been written.\<close>

definition wev_ptr :: "event \<Rightarrow> u8 list" where
  "wev_ptr e = w64_ptr (ev_timestamp_ns e) @ w64_ptr (ev_sequence e) @ w32_ptr (ev_lineage_depth e) @
     w16_ptr (ev_payload_size e) @ bytes_of (take STREAM_ID_MAX (ev_stream_id e)) @
     bytes_of (take SCHEMA_ID_MAX (ev_schema_id e)) @ payload_of e"

text \<open>After the schema id the pointer is advanced by \<^verbatim>\<open>STREAM_ID_MAX\<close>, as the code has
  it. The copies are into a fresh event, whose payload array is zero.\<close>

definition rev_event :: "u8 list \<Rightarrow> event option" where
  "rev_event p =
     (let ts = r64 p; p1 = drop 8 p;
          seq = r64 p1; p2 = drop 8 p1;
          lin = r32 p2; p3 = drop 4 p2;
          sz = r16 p3; p4 = drop 2 p3;
          sid = chars_of (take STREAM_ID_MAX p4); p5 = drop STREAM_ID_MAX p4;
          sch = chars_of (take SCHEMA_ID_MAX p5); p6 = drop STREAM_ID_MAX p5
      in if length p5 < SCHEMA_ID_MAX \<or> length p6 < unat sz \<or> unat sz > PAYLOAD_MAX then None
         else Some \<lparr>ev_timestamp_ns = ts, ev_sequence = seq, ev_lineage_depth = lin, ev_payload_size = sz,
                    ev_stream_id = sid, ev_schema_id = sch,
                    ev_payload = take (unat sz) p6 @ replicate (PAYLOAD_MAX - unat sz) 0\<rparr>)"

section \<open>The input\<close>

definition IO_BUF_SIZE :: nat where
  "IO_BUF_SIZE = 64 * 1024"

definition window_bytes :: "registry \<Rightarrow> string \<times> ring_view \<Rightarrow> u8 list" where
  "window_bytes reg = (\<lambda>(sid, v).
     bytes_of (strncpy (replicate STREAM_ID_MAX NUL) sid (STREAM_ID_MAX - 1)) @
     w32_ptr (ucast (view_size v)) @ concat (map wev_ptr (copy_window reg v)))"

definition input_bytes :: "registry \<Rightarrow> zero_copy_input \<Rightarrow> u8 list" where
  "input_bytes reg input =
     wev_ptr (zi_trigger_event input) @ w32_ptr (of_nat (length (zi_windows input))) @
     concat (map (window_bytes reg) (zi_windows input))"

section \<open>The output\<close>

fun parse_out :: "nat \<Rightarrow> u8 list \<Rightarrow> event list option" where
  "parse_out 0 out = Some []"
| "parse_out (Suc n) out =
     (case rev_event out of
        None \<Rightarrow> None
      | Some e \<Rightarrow> map_option (Cons e)
          (parse_out n (drop (8 + 8 + 4 + 2 + STREAM_ID_MAX + SCHEMA_ID_MAX + unat (ev_payload_size e)) out)))"

definition parse_output :: "u8 list \<Rightarrow> event list option" where
  "parse_output out = (if length out < 4 then None else parse_out (unat (r32 out)) (drop 4 out))"

section \<open>The call\<close>

text \<open>The input is written before its length is compared with the buffer. The output is read
  through the pointer taken before the call, which is not valid any more when the script has
  grown its memory.\<close>

definition invoke_zero_copy ::
  "(u8 list \<Rightarrow> u32 \<Rightarrow> (u32 \<times> u8 list) option) \<Rightarrow> u8 list option \<Rightarrow> registry \<Rightarrow> zero_copy_input \<Rightarrow> event list option" where
  "invoke_zero_copy call memory reg input =
     (case memory of
        None \<Rightarrow> Some []
      | Some mem \<Rightarrow>
          if length mem < IO_BUF_SIZE * 2 then Some []
          else let bytes = input_bytes reg input in
            if length bytes > length mem then None
            else if length bytes > IO_BUF_SIZE then Some []
            else (case call (bytes @ drop (length bytes) mem) (of_nat (length bytes)) of
                    None \<Rightarrow> Some []
                  | Some (written, mem') \<Rightarrow>
                      if written = 0 \<or> unat written > IO_BUF_SIZE then Some []
                      else if length mem' \<noteq> length mem then None
                      else parse_output (drop IO_BUF_SIZE mem')))"

end
