(* ===== verification/Wasm_Laws.thy ===== *)
theory Wasm_Laws
  imports Wasm_Marshal Window_Laws
begin

text \<open>
  What a WASM script reads and what becomes of what it writes. \<open>read_event\<close> and
  \<open>read_input\<close> are the reader of a script that follows the layout the host writes; an event
  that the script writes in the same layout comes back with its payload displaced by 16 bytes,
  since the host's reader advances too far after the schema id.
\<close>

section \<open>The layout as a script reads it\<close>

definition read_event :: "u8 list \<Rightarrow> (event \<times> u8 list) option" where
  "read_event p =
     (if length p < 70 then None
      else let sz = unat (r16 (drop 20 p)) in
        if length p < 70 + sz then None
        else Some (\<lparr>ev_timestamp_ns = r64 p, ev_sequence = r64 (drop 8 p), ev_lineage_depth = r32 (drop 16 p),
          ev_payload_size = r16 (drop 20 p), ev_stream_id = chars_of (take 32 (drop 22 p)),
          ev_schema_id = chars_of (take 16 (drop 54 p)),
          ev_payload = take sz (drop 70 p) @ replicate (PAYLOAD_MAX - sz) 0\<rparr>, drop (70 + sz) p))"

fun read_events :: "nat \<Rightarrow> u8 list \<Rightarrow> (event list \<times> u8 list) option" where
  "read_events 0 p = Some ([], p)"
| "read_events (Suc n) p =
     (case read_event p of
        None \<Rightarrow> None
      | Some (e, p') \<Rightarrow> map_option (\<lambda>(es, p''). (e # es, p'')) (read_events n p'))"

fun read_windows :: "nat \<Rightarrow> u8 list \<Rightarrow> ((string \<times> event list) list \<times> u8 list) option" where
  "read_windows 0 p = Some ([], p)"
| "read_windows (Suc n) p =
     (case read_events (unat (r32 (drop 32 p))) (drop 36 p) of
        None \<Rightarrow> None
      | Some (es, p') \<Rightarrow>
          map_option (\<lambda>(ws, p''). ((c_str (chars_of (take 32 p)), es) # ws, p'')) (read_windows n p'))"

definition read_input :: "u8 list \<Rightarrow> (event \<times> (string \<times> event list) list) option" where
  "read_input p =
     (case read_event p of
        None \<Rightarrow> None
      | Some (e, p') \<Rightarrow> map_option (\<lambda>(ws, _). (e, ws)) (read_windows (unat (r32 p')) (drop 4 p')))"

text \<open>An event as it arrives: the unused part of the payload array is zero.\<close>

definition with_payload :: "u8 list \<Rightarrow> event \<Rightarrow> event" where
  "with_payload d e = e\<lparr>ev_payload := d @ replicate (PAYLOAD_MAX - length d) 0\<rparr>"

section \<open>Fields\<close>

definition wev_head :: "event \<Rightarrow> u8 list" where
  "wev_head e = w64_ptr (ev_timestamp_ns e) @ w64_ptr (ev_sequence e) @ w32_ptr (ev_lineage_depth e) @
     w16_ptr (ev_payload_size e)"

lemma length_codecs [simp]: "length (w64_ptr v) = 8" "length (w32_ptr x) = 4" "length (w16_ptr y) = 2"
  by (simp_all add: wasm64.length_put wasm32.length_put wasm16.length_put)

lemma length_wev_head [simp]: "length (wev_head e) = 22"
  by (simp add: wev_head_def)

lemma wev_ptr_eq:
  assumes "event_ok e"
  shows "wev_ptr e = wev_head e @ bytes_of (ev_stream_id e) @ bytes_of (ev_schema_id e) @ payload_of e"
    "length (bytes_of (ev_stream_id e)) = 32" "length (bytes_of (ev_schema_id e)) = 16"
    "length (payload_of e) = unat (ev_payload_size e)" "unat (ev_payload_size e) \<le> PAYLOAD_MAX"
  using assms
  by (simp_all add: wev_ptr_def wev_head_def event_ok_def event_shape_def event_sizes payload_of_def)

lemma head_fields:
  "r64 (wev_head e @ p) = ev_timestamp_ns e" "r64 (drop 8 (wev_head e @ p)) = ev_sequence e"
  "r32 (drop 16 (wev_head e @ p)) = ev_lineage_depth e" "r16 (drop 20 (wev_head e @ p)) = ev_payload_size e"
  by (simp_all add: wev_head_def wasm64.get_put wasm32.get_put wasm16.get_put)

lemma length_wev_ptr: "event_ok e \<Longrightarrow> length (wev_ptr e) = 70 + unat (ev_payload_size e)"
  by (simp add: wev_ptr_eq(1)) (simp add: event_ok_def event_shape_def event_sizes payload_of_def)

lemma read_event_wev:
  assumes "event_ok e"
  shows "read_event (wev_ptr e @ rest) = Some (with_payload (payload_of e) e, rest)"
proof -
  note w = wev_ptr_eq [OF assms]
  have len: "length (wev_ptr e @ rest) = 70 + unat (ev_payload_size e) + length rest"
    by (simp add: length_wev_ptr [OF assms])
  have parts: "chars_of (take 32 (drop 22 (wev_ptr e @ rest))) = ev_stream_id e"
    "chars_of (take 16 (drop 54 (wev_ptr e @ rest))) = ev_schema_id e"
    "take (unat (ev_payload_size e)) (drop 70 (wev_ptr e @ rest)) = payload_of e"
    "drop (70 + unat (ev_payload_size e)) (wev_ptr e @ rest) = rest"
    using w by (simp_all add: w(1))
  have fields: "r64 (wev_ptr e @ rest) = ev_timestamp_ns e" "r64 (drop 8 (wev_ptr e @ rest)) = ev_sequence e"
    "r32 (drop 16 (wev_ptr e @ rest)) = ev_lineage_depth e" "r16 (drop 20 (wev_ptr e @ rest)) = ev_payload_size e"
    unfolding w(1) append_assoc by (rule head_fields)+
  show ?thesis
    unfolding read_event_def fields parts len Let_def by (simp add: with_payload_def w(4))
qed

lemma read_events_wev:
  "\<forall>e \<in> set es. event_ok e \<Longrightarrow> read_events (length es) (concat (map wev_ptr es) @ rest) =
     Some (map (\<lambda>e. with_payload (payload_of e) e) es, rest)"
  by (induction es) (simp_all add: read_event_wev)

section \<open>Windows\<close>

definition window_fits :: "registry \<Rightarrow> string \<times> ring_view \<Rightarrow> bool" where
  "window_fits reg = (\<lambda>(sid, v). (\<forall>e \<in> set (copy_window reg v). event_ok e) \<and>
     unat (view_size v) = length (copy_window reg v) \<and> unat (view_size v) < 2 ^ 32)"

definition name_bytes :: "string \<Rightarrow> u8 list" where
  "name_bytes sid = bytes_of (strncpy (replicate STREAM_ID_MAX NUL) sid (STREAM_ID_MAX - 1))"

lemma name_bytes: "length (name_bytes sid) = 32" "c_str (chars_of (name_bytes sid)) = take 31 (c_str sid)"
proof -
  show "length (name_bytes sid) = 32" by (simp add: name_bytes_def event_sizes length_strncpy)
  have "strncpy (replicate 32 NUL) sid 31 = take 31 (c_str sid) @ replicate (31 - length (c_str sid)) NUL @ [NUL]"
    by (simp add: strncpy_pad)
  also have "\<dots> = take 31 (c_str sid) @ replicate (Suc (31 - length (c_str sid))) NUL"
    by (simp add: replicate_append_same)
  finally have e: "strncpy (replicate 32 NUL) sid 31 = \<dots>" .
  have "(32 :: nat) - 1 = 31" by simp
  then show "c_str (chars_of (name_bytes sid)) = take 31 (c_str sid)"
    by (simp only: name_bytes_def event_sizes chars_of_bytes_of e c_str_append_NULs [OF no_NUL_take])
qed

lemma read_windows_bytes:
  assumes "\<forall>w \<in> set ws. window_fits reg w"
  shows "read_windows (length ws) (concat (map (window_bytes reg) ws) @ rest) =
    Some (map (\<lambda>(sid, v). (take 31 (c_str sid), map (\<lambda>e. with_payload (payload_of e) e) (copy_window reg v))) ws, rest)"
  using assms
proof (induction ws)
  case (Cons w ws)
  obtain sid v where w: "w = (sid, v)" by (cases w)
  let ?es = "copy_window reg v" and ?tail = "concat (map (window_bytes reg) ws) @ rest"
  from Cons.prems w have fits: "\<forall>e \<in> set ?es. event_ok e" "unat (view_size v) = length ?es" "length ?es < 2 ^ 32"
    by (auto simp: window_fits_def)
  then have n: "unat (ucast (view_size v) :: u32) = length ?es"
    by (simp add: unsigned_ucast_eq take_bit_nat_eq_self)
  let ?p = "name_bytes sid @ w32_ptr (ucast (view_size v)) @ concat (map wev_ptr ?es) @ ?tail"
  have p: "concat (map (window_bytes reg) (w # ws)) @ rest = ?p"
    by (simp add: w window_bytes_def name_bytes_def)
  have "drop 32 ?p = w32_ptr (ucast (view_size v)) @ concat (map wev_ptr ?es) @ ?tail"
    "drop 36 ?p = concat (map wev_ptr ?es) @ ?tail" "take 32 ?p = name_bytes sid"
    by (simp_all add: name_bytes(1))
  then have "read_windows (Suc (length ws)) ?p =
      Some ((take 31 (c_str sid), map (\<lambda>e. with_payload (payload_of e) e) ?es) #
        map (\<lambda>(sid, v). (take 31 (c_str sid), map (\<lambda>e. with_payload (payload_of e) e) (copy_window reg v))) ws, rest)"
    using Cons.IH Cons.prems
    by (simp add: wasm32.get_put n read_events_wev [OF fits(1)] name_bytes(2) del: append_assoc)
  then show ?case by (simp only: p list.size) (simp add: w)
qed simp

section \<open>What comes back\<close>

lemma rev_wev:
  assumes "event_ok e" "16 \<le> length rest"
  shows "rev_event (wev_ptr e @ rest) =
    Some (with_payload (take (unat (ev_payload_size e)) (drop 16 (payload_of e @ rest))) e)"
proof -
  note w = wev_ptr_eq [OF assms(1)]
  let ?p = "wev_ptr e @ rest"
  have fields: "r64 ?p = ev_timestamp_ns e" "r64 (drop 8 ?p) = ev_sequence e"
    "r32 (drop 16 ?p) = ev_lineage_depth e" "r16 (drop 20 ?p) = ev_payload_size e"
    unfolding w(1) append_assoc by (rule head_fields)+
  have parts: "drop 8 (drop 8 ?p) = drop 16 ?p" "drop 4 (drop 16 ?p) = drop 20 ?p" "drop 2 (drop 20 ?p) = drop 22 ?p"
    "take 32 (drop 22 ?p) = bytes_of (ev_stream_id e)"
    "drop 32 (drop 22 ?p) = bytes_of (ev_schema_id e) @ payload_of e @ rest"
    using w by (simp_all add: w(1))
  have p5: "take 16 (bytes_of (ev_schema_id e) @ payload_of e @ rest) = bytes_of (ev_schema_id e)"
    "drop 32 (bytes_of (ev_schema_id e) @ payload_of e @ rest) = drop 16 (payload_of e @ rest)"
    "16 \<le> length (bytes_of (ev_schema_id e) @ payload_of e @ rest)"
    "unat (ev_payload_size e) \<le> length (drop 16 (payload_of e @ rest))"
    using w(3,4) assms(2) by simp_all
  obtain d where d: "d = take (unat (ev_payload_size e)) (drop 16 (payload_of e @ rest))" by blast
  then have len: "length d = unat (ev_payload_size e)" using p5(4) by simp
  show ?thesis
    unfolding rev_event_def Let_def event_sizes fields parts p5 d [symmetric]
    using p5(3,4) w(5) len by (simp add: with_payload_def event_sizes)
qed

fun displaced :: "event list \<Rightarrow> u8 list \<Rightarrow> event list" where
  "displaced [] rest = []"
| "displaced (e # es) rest =
     with_payload (take (unat (ev_payload_size e)) (drop 16 (payload_of e @ concat (map wev_ptr es) @ rest))) e #
     displaced es rest"

lemma parse_out_wev:
  "\<forall>e \<in> set es. event_ok e \<Longrightarrow> 16 \<le> length rest \<Longrightarrow>
     parse_out (length es) (concat (map wev_ptr es) @ rest) = Some (displaced es rest)"
proof (induction es)
  case (Cons e es)
  let ?rest = "concat (map wev_ptr es) @ rest"
  have "rev_event (wev_ptr e @ ?rest) =
      Some (with_payload (take (unat (ev_payload_size e)) (drop 16 (payload_of e @ ?rest))) e)"
    using Cons.prems by (intro rev_wev) simp_all
  moreover have "drop (70 + unat (ev_payload_size e)) (wev_ptr e @ ?rest) = ?rest"
    using Cons.prems(1) by (simp add: length_wev_ptr)
  ultimately show ?case using Cons
    by (simp add: event_sizes with_payload_def)
qed simp

section \<open>Properties\<close>

text \<open>C24. What a script reads is what the host meant to give it: a reader that follows the layout
  gets the trigger event and, under the first 31 characters of each subscribed name, exactly
  the events of that window in order, whatever the memory holds after them.\<close>

theorem wasm_input_readable:
  assumes "event_ok (zi_trigger_event input)" "\<forall>w \<in> set (zi_windows input). window_fits reg w"
    and "length (zi_windows input) < 2 ^ 32"
  shows "read_input (input_bytes reg input @ rest) =
    Some (with_payload (payload_of (zi_trigger_event input)) (zi_trigger_event input),
      map (\<lambda>(sid, v). (take 31 (c_str sid), map (\<lambda>e. with_payload (payload_of e) e) (copy_window reg v)))
        (zi_windows input))"
proof -
  have n: "unat (of_nat (length (zi_windows input)) :: u32) = length (zi_windows input)"
    using assms(3) by (simp add: unat_of_nat)
  have "drop 4 (w32_ptr (of_nat (length (zi_windows input))) @ p) = p" for p by simp
  then show ?thesis
    by (simp add: read_input_def input_bytes_def read_event_wev [OF assms(1)] wasm32.get_put n
        read_windows_bytes [OF assms(2)])
qed

text \<open>What a script emits does not come back as it was written. For a script that writes its
  events in the layout in which it is given events, the host reads the right timestamps,
  sequence numbers, identifiers and sizes, but each payload is taken 16 bytes too far: it
  starts at byte 16 of what was written and runs into the next event or into whatever the
  memory holds after the output.\<close>

theorem wasm_output_displaced:
  assumes "IO_BUF_SIZE * 2 \<le> length mem" "length (input_bytes reg input) \<le> IO_BUF_SIZE"
    and "call (input_bytes reg input @ drop (length (input_bytes reg input)) mem)
           (of_nat (length (input_bytes reg input))) = Some (written, mem')"
    and "written \<noteq> 0" "unat written \<le> IO_BUF_SIZE" "length mem' = length mem"
    and "drop IO_BUF_SIZE mem' = w32_ptr (of_nat (length evs)) @ concat (map wev_ptr evs) @ rest"
    and "\<forall>e \<in> set evs. event_ok e" "length evs < 2 ^ 32" "16 \<le> length rest"
  shows "invoke_zero_copy call (Some mem) reg input = Some (displaced evs rest)"
proof -
  have n: "unat (of_nat (length evs) :: u32) = length evs" using assms(9) by (simp add: unat_of_nat)
  have "parse_output (drop IO_BUF_SIZE mem') = Some (displaced evs rest)"
    unfolding assms(7) parse_output_def
    using parse_out_wev [OF assms(8,10)] by (simp add: wasm32.get_put n)
  then show ?thesis
    using assms(1-6) by (simp add: invoke_zero_copy_def Let_def IO_BUF_SIZE_def)
qed

text \<open>A script that writes one event with two bytes of payload into a memory that holds sevens.\<close>

definition sevens_event :: event where
  "sevens_event = snd (set_payload [1, 2] event_default)"

definition sevens_output :: "u8 list" where
  "sevens_output = w32_ptr 1 @ wev_ptr sevens_event @ replicate (IO_BUF_SIZE - 76) 7"

theorem wasm_output_displaced_witness:
  "invoke_zero_copy (\<lambda>mem n. Some (76, take IO_BUF_SIZE mem @ sevens_output)) (Some (replicate (IO_BUF_SIZE * 2) 0))
     registry_new \<lparr>zi_trigger_event = event_default, zi_windows = []\<rparr> = Some [with_payload [7, 7] sevens_event]"
proof -
  let ?input = "\<lparr>zi_trigger_event = event_default, zi_windows = []\<rparr>"
  let ?mem = "replicate (IO_BUF_SIZE * 2) (0 :: u8)"
  have ok: "event_ok sevens_event" by (simp add: sevens_event_def event_ok_default)
  have size: "payload_of sevens_event = [1, 2]"
    by (simp add: sevens_event_def payload_of_set_payload PAYLOAD_MAX_def)
  have bytes: "ev_payload_size sevens_event = 2"
    by (simp add: sevens_event_def set_payload_def PAYLOAD_MAX_def)
  have len: "length (input_bytes registry_new ?input) = 74"
    by (simp add: input_bytes_def length_wev_ptr [OF event_ok_default]) (simp add: event_default_def)
  have out: "drop IO_BUF_SIZE (take IO_BUF_SIZE (input_bytes registry_new ?input @ drop 74 ?mem) @ sevens_output) =
      w32_ptr (of_nat (length [sevens_event])) @ concat (map wev_ptr [sevens_event]) @ replicate (IO_BUF_SIZE - 76) 7"
    by (simp add: len sevens_output_def IO_BUF_SIZE_def)
  have "replicate 2 (7 :: u8) = [7, 7]" by (simp add: numeral_2_eq_2)
  then have "displaced [sevens_event] (replicate (IO_BUF_SIZE - 76) 7) = [with_payload [7, 7] sevens_event]"
    by (simp add: size bytes IO_BUF_SIZE_def)
  moreover have "length sevens_output = IO_BUF_SIZE"
    by (simp add: sevens_output_def length_wev_ptr [OF ok] bytes IO_BUF_SIZE_def)
  ultimately show ?thesis
    using wasm_output_displaced [of ?mem registry_new ?input "\<lambda>mem n. Some (76, take IO_BUF_SIZE mem @ sevens_output)"
        76 _ "[sevens_event]" "replicate (IO_BUF_SIZE - 76) 7"] ok out
    by (simp add: len IO_BUF_SIZE_def)
qed

theorem wasm_input_readable_witness:
  "read_input (input_bytes registry_new \<lparr>zi_trigger_event = sevens_event, zi_windows = [(''s'', ring_view_default)]\<rparr> @ [9]) =
     Some (with_payload [1, 2] sevens_event, [(''s'', [])])"
proof -
  have ok: "event_ok sevens_event" by (simp add: sevens_event_def event_ok_default)
  have pl: "payload_of sevens_event = [1, 2]" by (simp add: sevens_event_def payload_of_set_payload PAYLOAD_MAX_def)
  have cw: "copy_window registry_new ring_view_default = []"
    by (simp add: copy_window_def ring_view_default_def collect.simps)
  have vs: "view_size ring_view_default = 0" by (simp add: view_size_def ring_view_default_def)
  show ?thesis
    using wasm_input_readable [of "\<lparr>zi_trigger_event = sevens_event, zi_windows = [(''s'', ring_view_default)]\<rparr>" registry_new "[9]"]
    by (simp add: ok pl cw vs window_fits_def c_str_id)
qed

end
