(* ===== verification/Ring_Interleaving.thy ===== *)
theory Ring_Interleaving
  imports Ring_Buffer
begin

text \<open>
  \<^verbatim>\<open>RingBuffer::write\<close> of \<^verbatim>\<open>core/ring_buffer.hpp\<close> as the three memory
  accesses it consists of (load of the sequence, store into the slot, store of the sequence),
  interleaved between any number of producers. With one producer every interleaving with
  readers is safe for those less than a whole ring behind; with two, an update can be lost,
  which is what the router does when two ingestors feed one script.
\<close>

section \<open>The steps of a write\<close>

text \<open>Where a producer is, with the sequence number it has read.\<close>

datatype 'a producer_pc = Idle | Loaded u64 'a | Stored u64

text \<open>Each producer is paired with the items it will write next.\<close>

record 'a ring_conf =
  rc_ring :: "'a ring"
  rc_producers :: "('a producer_pc \<times> 'a list) list"

inductive write_step :: "'a ring_conf \<Rightarrow> 'a ring_conf \<Rightarrow> bool" where
  Load: "i < length (rc_producers c) \<Longrightarrow> rc_producers c ! i = (Idle, x # xs) \<Longrightarrow>
    write_step c (c\<lparr>rc_producers := (rc_producers c)[i := (Loaded (rb_write_seq (rc_ring c)) x, xs)]\<rparr>)"
| Store: "i < length (rc_producers c) \<Longrightarrow> rc_producers c ! i = (Loaded seq x, xs) \<Longrightarrow>
    write_step c (c\<lparr>rc_ring := (rc_ring c)\<lparr>rb_slots := (rb_slots (rc_ring c))[unat (seq AND rb_mask (rc_ring c)) := x]\<rparr>,
                    rc_producers := (rc_producers c)[i := (Stored seq, xs)]\<rparr>)"
| Bump: "i < length (rc_producers c) \<Longrightarrow> rc_producers c ! i = (Stored seq, xs) \<Longrightarrow>
    write_step c (c\<lparr>rc_ring := (rc_ring c)\<lparr>rb_write_seq := seq + 1\<rparr>,
                    rc_producers := (rc_producers c)[i := (Idle, xs)]\<rparr>)"

inductive_simps write_step_iff: "write_step c c'"

inductive write_steps :: "'a ring_conf \<Rightarrow> 'a ring_conf \<Rightarrow> bool" where
  None_left: "write_steps c c"
| More: "write_steps c c' \<Longrightarrow> write_step c' c'' \<Longrightarrow> write_steps c c''"

section \<open>A sequential write is three steps\<close>

lemma write_steps_trans: "write_steps b c \<Longrightarrow> write_steps a b \<Longrightarrow> write_steps a c"
  by (induction rule: write_steps.induct) (auto intro: write_steps.More)

lemma three_steps:
  assumes "rc_producers c = [(Idle, x # xs)]"
  shows "write_steps c (c\<lparr>rc_ring := snd (ring_write (rc_ring c) x), rc_producers := [(Idle, xs)]\<rparr>)"
proof -
  let ?r = "rc_ring c"
  let ?c1 = "c\<lparr>rc_producers := [(Loaded (rb_write_seq ?r) x, xs)]\<rparr>"
  let ?r2 = "?r\<lparr>rb_slots := (rb_slots ?r)[unat (rb_write_seq ?r AND rb_mask ?r) := x]\<rparr>"
  let ?c2 = "c\<lparr>rc_ring := ?r2, rc_producers := [(Stored (rb_write_seq ?r), xs)]\<rparr>"
  have "write_step c ?c1" using write_step.Load [of 0 c x xs] assms by simp
  moreover have "write_step ?c1 ?c2" using write_step.Store [of 0 ?c1 "rb_write_seq ?r" x xs] by simp
  moreover have "write_step ?c2 (c\<lparr>rc_ring := snd (ring_write ?r x), rc_producers := [(Idle, xs)]\<rparr>)"
    using write_step.Bump [of 0 ?c2 "rb_write_seq ?r" xs] by (simp add: ring_write_def Let_def)
  ultimately show ?thesis by (blast intro: write_steps.intros)
qed

lemma sequential_run:
  "rc_producers c = [(Idle, xs)] \<Longrightarrow>
     write_steps c (c\<lparr>rc_ring := ring_writes (rc_ring c) xs, rc_producers := [(Idle, [])]\<rparr>)"
proof (induction xs arbitrary: c)
  case Nil
  then have "c\<lparr>rc_ring := ring_writes (rc_ring c) [], rc_producers := [(Idle, [])]\<rparr> = c"
    by (cases c) (simp add: ring_writes_def)
  then show ?case by (simp only: write_steps.None_left)
next
  case (Cons x xs)
  from write_steps_trans [OF Cons.IH three_steps [OF Cons.prems]] show ?case by (simp add: ring_writes_def)
qed

lemma write_steps_cap: "write_steps c c' \<Longrightarrow> ring_cap (rc_ring c') = ring_cap (rc_ring c)"
  by (induction rule: write_steps.induct) (auto simp: write_step_iff ring_cap_def)

section \<open>One producer\<close>

text \<open>In the middle of a write: \<open>h\<close> has been published, \<open>pend\<close> is being written and
  \<open>xs\<close> is left. A slot may hold the item being written in place of the oldest one.\<close>

definition mid_write :: "'a ring \<Rightarrow> 'a list \<Rightarrow> bool" where
  "mid_write r h \<longleftrightarrow> ring_ok r \<and> length h < 2 ^ 64 \<and> unat (rb_write_seq r) = length h \<and>
     (\<forall>i < length h. length h < i + ring_cap r \<longrightarrow> rb_slots r ! (i mod ring_cap r) = h ! i)"

definition single_inv :: "'a ring_conf \<Rightarrow> 'a list \<Rightarrow> 'a list \<Rightarrow> bool" where
  "single_inv c h items \<longleftrightarrow> (\<exists>p xs. rc_producers c = [(p, xs)] \<and>
     (case p of
        Idle \<Rightarrow> ring_log (rc_ring c) h \<and> items = h @ xs
      | Loaded seq x \<Rightarrow> ring_log (rc_ring c) h \<and> seq = rb_write_seq (rc_ring c) \<and> items = h @ x # xs
      | Stored seq \<Rightarrow> (\<exists>x. mid_write (rc_ring c) h \<and> seq = rb_write_seq (rc_ring c) \<and> items = h @ x # xs \<and>
          rb_slots (rc_ring c) ! (length h mod ring_cap (rc_ring c)) = x)))"

lemma log_mid: "ring_log r h \<Longrightarrow> mid_write r h"
  by (simp add: ring_log_def mid_write_def)

lemma single_inv_mid: "single_inv c h items \<Longrightarrow> mid_write (rc_ring c) h \<and> (\<exists>rest. items = h @ rest)"
proof -
  assume "single_inv c h items"
  then obtain p xs where p: "case p of
        Idle \<Rightarrow> ring_log (rc_ring c) h \<and> items = h @ xs
      | Loaded seq x \<Rightarrow> ring_log (rc_ring c) h \<and> seq = rb_write_seq (rc_ring c) \<and> items = h @ x # xs
      | Stored seq \<Rightarrow> (\<exists>x. mid_write (rc_ring c) h \<and> seq = rb_write_seq (rc_ring c) \<and> items = h @ x # xs \<and>
          rb_slots (rc_ring c) ! (length h mod ring_cap (rc_ring c)) = x)"
    unfolding single_inv_def by blast
  then show ?thesis by (cases p) (auto intro: log_mid)
qed

lemma other_slot:
  assumes "i < n" "n < i + cap" "0 < cap"
  shows "i mod cap \<noteq> n mod (cap :: nat)"
proof
  assume "i mod cap = n mod cap"
  then have "cap dvd n - i" using assms(1) by (metis less_imp_le mod_eq_dvd_iff_nat)
  then show False using assms by (auto dest: dvd_imp_le)
qed

lemma mid_store:
  assumes "ring_log r h" "seq = rb_write_seq r"
  shows "mid_write (r\<lparr>rb_slots := (rb_slots r)[unat (seq AND rb_mask r) := x]\<rparr>) h"
    "rb_slots (r\<lparr>rb_slots := (rb_slots r)[unat (seq AND rb_mask r) := x]\<rparr>) ! (length h mod ring_cap r) = x"
proof -
  have ok: "ring_ok r" using assms(1) by (simp add: ring_log_def)
  note f = ring_ok_facts [OF ok]
  have slot: "unat (seq AND rb_mask r) = length h mod ring_cap r"
    using f(3) [of seq] assms by (simp add: ring_log_def)
  have "(rb_slots r)[length h mod ring_cap r := x] ! (i mod ring_cap r) = h ! i"
    if "i < length h" "length h < i + ring_cap r" for i
    using assms(1) that other_slot [OF that f(1), symmetric] by (simp add: ring_log_def)
  moreover have "ring_ok (r\<lparr>rb_slots := (rb_slots r)[unat (seq AND rb_mask r) := x]\<rparr>)"
    using ok by (simp add: ring_ok_def)
  ultimately show "mid_write (r\<lparr>rb_slots := (rb_slots r)[unat (seq AND rb_mask r) := x]\<rparr>) h"
    using assms(1) by (simp add: mid_write_def ring_log_def ring_cap_def slot [unfolded ring_cap_def])
  show "rb_slots (r\<lparr>rb_slots := (rb_slots r)[unat (seq AND rb_mask r) := x]\<rparr>) ! (length h mod ring_cap r) = x"
    using f(1,2) by (simp add: slot)
qed

lemma mid_bump:
  assumes "mid_write r h" "seq = rb_write_seq r" "rb_slots r ! (length h mod ring_cap r) = x"
    and "Suc (length h) < 2 ^ 64"
  shows "ring_log (r\<lparr>rb_write_seq := seq + 1\<rparr>) (h @ [x])"
proof -
  have "unat (seq + 1) = Suc (length h)"
    using unat_Suc_bound [of seq] assms by (simp add: mid_write_def)
  moreover have "rb_slots r ! (i mod ring_cap r) = (h @ [x]) ! i"
    if "i < Suc (length h)" "Suc (length h) \<le> i + ring_cap r" for i
    using assms(1,3) that by (cases "i = length h") (auto simp: mid_write_def nth_append)
  ultimately show ?thesis
    using assms(1,4) by (simp add: ring_log_def mid_write_def ring_ok_def ring_cap_def)
qed

lemma single_inv_step:
  assumes "single_inv c h items" "write_step c c'" "length items < 2 ^ 64"
  shows "\<exists>h'. single_inv c' h' items \<and> (h' = h \<or> (\<exists>x. h' = h @ [x]))"
  using assms(2)
proof (cases rule: write_step.cases)
  case (Load i x xs)
  with assms(1) show ?thesis by (intro exI [of _ h]) (auto simp: single_inv_def)
next
  case (Store i seq x xs)
  with assms(1) mid_store [of "rc_ring c" h seq x] show ?thesis
    by (intro exI [of _ h]) (auto simp: single_inv_def ring_cap_def)
next
  case (Bump i seq xs)
  with assms(1) obtain x where x: "mid_write (rc_ring c) h" "seq = rb_write_seq (rc_ring c)" "items = h @ x # xs"
    "rb_slots (rc_ring c) ! (length h mod ring_cap (rc_ring c)) = x" by (auto simp: single_inv_def)
  with mid_bump [OF x(1,2,4)] assms(1,3) Bump show ?thesis
    by (intro exI [of _ "h @ [x]"]) (auto simp: single_inv_def)
qed

lemma single_inv_steps:
  "write_steps c c' \<Longrightarrow> single_inv c h items \<Longrightarrow> length items < 2 ^ 64 \<Longrightarrow>
     \<exists>more. single_inv c' (h @ more) items"
proof (induction rule: write_steps.induct)
  case (None_left c)
  then show ?case by (intro exI [of _ "[]"]) simp
next
  case (More c c' c'')
  then obtain k where k: "single_inv c' (h @ k) items" by blast
  from single_inv_step [OF k More.hyps(2) More.prems(2)] obtain h' where
    "single_inv c'' h' items" "h' = h @ k \<or> (\<exists>x. h' = (h @ k) @ [x])" by blast
  then show ?case by (metis append_assoc)
qed

section \<open>Properties\<close>

text \<open>C25. One producer and any readers. At every point of every interleaving of a single
  producer's writes, a reader that is less than a whole ring behind reads exactly the items
  written, in order, also in the middle of a write; nothing is readable before it is complete;
  and the producer can always finish, leaving what the sequential writes leave. (A reader
  exactly one ring behind can see the item that is just being written.)\<close>

theorem single_producer_safe:
  assumes "ring_log r h" "length h + length xs < 2 ^ 64"
    and "write_steps \<lparr>rc_ring = r, rc_producers = [(Idle, xs)]\<rparr> c"
  shows "(\<exists>k rest. h @ xs = k @ rest \<and> unat (ring_head (rc_ring c)) = length k \<and>
      (\<forall>i. i < length k \<and> length k < i + ring_cap r \<longrightarrow> ring_read (rc_ring c) (of_nat i) = Some (k ! i))) \<and>
    (rc_producers c = [(Idle, [])] \<longrightarrow> ring_log (rc_ring c) (h @ xs)) \<and>
    write_steps \<lparr>rc_ring = r, rc_producers = [(Idle, xs)]\<rparr> \<lparr>rc_ring = ring_writes r xs, rc_producers = [(Idle, [])]\<rparr>"
proof -
  let ?c0 = "\<lparr>rc_ring = r, rc_producers = [(Idle, xs)]\<rparr>"
  have inv: "single_inv ?c0 h (h @ xs)" using assms(1) by (simp add: single_inv_def)
  from single_inv_steps [OF assms(3) inv] assms(2) obtain k where k: "single_inv c k (h @ xs)" by auto
  from single_inv_mid [OF k] obtain rest where mid: "mid_write (rc_ring c) k" and rest: "h @ xs = k @ rest" by blast
  have cap: "ring_cap (rc_ring c) = ring_cap r" using write_steps_cap [OF assms(3)] by simp
  have reads: "ring_read (rc_ring c) (of_nat i) = Some (k ! i)"
    if "i < length k" "length k < i + ring_cap r" for i
  proof -
    have ok: "ring_ok (rc_ring c)" using mid by (simp add: mid_write_def)
    have u: "unat (of_nat i :: u64) = i" using that(1) mid by (simp add: mid_write_def unat_of_nat)
    have "\<not> rb_write_seq (rc_ring c) \<le> of_nat i" using that(1) mid u by (simp add: word_le_nat_alt mid_write_def)
    moreover have "rb_slots (rc_ring c) ! (i mod ring_cap (rc_ring c)) = k ! i"
      using mid that cap by (simp add: mid_write_def)
    ultimately show ?thesis using ring_ok_facts(3) [OF ok, of "of_nat i"] u by (simp add: ring_read_def Let_def)
  qed
  have "ring_log (rc_ring c) (h @ xs)" if "rc_producers c = [(Idle, [])]"
    using k that by (auto simp: single_inv_def)
  with reads rest mid show ?thesis
    using sequential_run [of ?c0 xs] by (auto simp: mid_write_def ring_head_def)
qed

text \<open>Two producers on one ring can lose an event. When two threads write to the same ring (the
  router lets every ingestor and script thread write to the queue of a script it feeds), there
  is an interleaving in which both writes complete and only the second item is in the ring:
  the first is overwritten and its sequence number handed out twice.\<close>

theorem two_producers_lose:
  assumes "ring_log r h" "Suc (length h) < 2 ^ 64"
  shows "\<exists>c. write_steps \<lparr>rc_ring = r, rc_producers = [(Idle, [x]), (Idle, [y])]\<rparr> c \<and>
    rc_producers c = [(Idle, []), (Idle, [])] \<and> ring_log (rc_ring c) (h @ [y])"
proof -
  let ?s = "rb_write_seq r" and ?i = "unat (rb_write_seq r AND rb_mask r)"
  let ?c = "\<lambda>r ps. \<lparr>rc_ring = r, rc_producers = ps\<rparr>"
  let ?rx = "r\<lparr>rb_slots := (rb_slots r)[?i := x]\<rparr>" and ?ry = "r\<lparr>rb_slots := (rb_slots r)[?i := y]\<rparr>"
  let ?rb = "?ry\<lparr>rb_write_seq := ?s + 1\<rparr>"
  have "write_step (?c r [(Idle, [x]), (Idle, [y])]) (?c r [(Loaded ?s x, []), (Idle, [y])])"
    using write_step.Load [of 0 "?c r [(Idle, [x]), (Idle, [y])]" x "[]"] by simp
  moreover have "write_step (?c r [(Loaded ?s x, []), (Idle, [y])]) (?c r [(Loaded ?s x, []), (Loaded ?s y, [])])"
    using write_step.Load [of 1 "?c r [(Loaded ?s x, []), (Idle, [y])]" y "[]"] by simp
  moreover have "write_step (?c r [(Loaded ?s x, []), (Loaded ?s y, [])]) (?c ?rx [(Stored ?s, []), (Loaded ?s y, [])])"
    using write_step.Store [of 0 "?c r [(Loaded ?s x, []), (Loaded ?s y, [])]" ?s x "[]"] by simp
  moreover have "write_step (?c ?rx [(Stored ?s, []), (Loaded ?s y, [])]) (?c ?ry [(Stored ?s, []), (Stored ?s, [])])"
    using write_step.Store [of 1 "?c ?rx [(Stored ?s, []), (Loaded ?s y, [])]" ?s y "[]"] by simp
  moreover have "write_step (?c ?ry [(Stored ?s, []), (Stored ?s, [])]) (?c ?rb [(Idle, []), (Stored ?s, [])])"
    using write_step.Bump [of 0 "?c ?ry [(Stored ?s, []), (Stored ?s, [])]" ?s "[]"] by simp
  moreover have "write_step (?c ?rb [(Idle, []), (Stored ?s, [])]) (?c ?rb [(Idle, []), (Idle, [])])"
    using write_step.Bump [of 1 "?c ?rb [(Idle, []), (Stored ?s, [])]" ?s "[]"] by simp
  ultimately have "write_steps (?c r [(Idle, [x]), (Idle, [y])]) (?c ?rb [(Idle, []), (Idle, [])])"
    by (meson write_steps.intros)
  moreover have "ring_log ?rb (h @ [y])"
    using ring_write_log(1) [OF assms, of y] by (simp add: ring_write_def Let_def)
  ultimately show ?thesis by (intro exI [of _ "?c ?rb [(Idle, []), (Idle, [])]"]) simp
qed

text \<open>A ring of four.\<close>

lemma example_ring: obtains r :: "char ring" where "ring_log r []" "ring_cap r = 4"
proof -
  obtain r where r: "ring_new CHR ''-'' 4 = Some r" by (simp add: ring_new_def)
  show thesis by (rule that [of r]) (use ring_new_log [OF r] in simp_all)
qed

theorem single_producer_safe_witness:
  "\<exists>r :: char ring. ring_log r [] \<and>
     write_steps \<lparr>rc_ring = r, rc_producers = [(Idle, ''ab'')]\<rparr> \<lparr>rc_ring = ring_writes r ''ab'', rc_producers = [(Idle, [])]\<rparr>"
proof -
  obtain r :: "char ring" where r: "ring_log r []" by (rule example_ring)
  from single_producer_safe [OF r, of "''ab''", OF _ None_left] r show ?thesis by auto
qed

theorem two_producers_lose_witness:
  "\<exists>(r :: char ring) c. write_steps \<lparr>rc_ring = r, rc_producers = [(Idle, ''a''), (Idle, ''b'')]\<rparr> c \<and>
     ring_log (rc_ring c) ''b''"
proof -
  obtain r :: "char ring" where r: "ring_log r []" by (rule example_ring)
  from two_producers_lose [OF r, of "CHR ''a''" "CHR ''b''"] show ?thesis by auto
qed

end
