(* ===== verification/Queue_Wakeup.thy ===== *)
theory Queue_Wakeup
  imports Router_Laws
begin

text \<open>
  The condition variable of a script queue in \<^verbatim>\<open>core/stream_router.hpp\<close>: the script
  thread tests the queue under the mutex and sleeps, writers change the queue without the mutex
  (a router thread writes the ring, the main thread sets the flag) and then notify under it.
  The steps are the points between which threads can be interleaved; a mutex is free or held.
\<close>

section \<open>The steps\<close>

text \<open>The script thread: outside \<^verbatim>\<open>wait_for_trigger\<close>, in the test of the predicate with
  the mutex, about to sleep after a failed test (still with the mutex), asleep (without it), or
  woken and waiting for the mutex. A writer still has to notify after its change.\<close>

datatype waiter_pc = Outside | Testing | Falling | Asleep | Awake
datatype writer_pc = Quiet | Must_notify

record wake_conf =
  wk_queue :: script_queue
  wk_pos :: u64
  wk_locked :: bool
  wk_waiter :: waiter_pc
  wk_writers :: "writer_pc list"

definition must_notify :: "nat \<Rightarrow> wake_conf \<Rightarrow> wake_conf" where
  "must_notify i c = c\<lparr>wk_writers := (wk_writers c)[i := Must_notify]\<rparr>"

inductive wake_step :: "wake_conf \<Rightarrow> wake_conf \<Rightarrow> bool" where
  Enter: "wk_waiter c = Outside \<Longrightarrow> \<not> wk_locked c \<Longrightarrow>
    wake_step c (c\<lparr>wk_waiter := Testing, wk_locked := True\<rparr>)"
| Reenter: "wk_waiter c = Awake \<Longrightarrow> \<not> wk_locked c \<Longrightarrow>
    wake_step c (c\<lparr>wk_waiter := Testing, wk_locked := True\<rparr>)"
| Pass: "wk_waiter c = Testing \<Longrightarrow> queue_take (wk_queue c) (wk_pos c) = (Returned res, pos) \<Longrightarrow>
    wake_step c (c\<lparr>wk_waiter := Outside, wk_locked := False, wk_pos := pos\<rparr>)"
| Fail: "wk_waiter c = Testing \<Longrightarrow> queue_take (wk_queue c) (wk_pos c) = (Blocked, pos) \<Longrightarrow>
    wake_step c (c\<lparr>wk_waiter := Falling\<rparr>)"
| Sleep: "wk_waiter c = Falling \<Longrightarrow> wake_step c (c\<lparr>wk_waiter := Asleep, wk_locked := False\<rparr>)"
| Spurious: "wk_waiter c = Asleep \<Longrightarrow> wake_step c (c\<lparr>wk_waiter := Awake\<rparr>)"
| Write: "i < length (wk_writers c) \<Longrightarrow> wk_writers c ! i = Quiet \<Longrightarrow>
    wake_step c (must_notify i (c\<lparr>wk_queue := queue_put ev (wk_queue c)\<rparr>))"
| Stop: "i < length (wk_writers c) \<Longrightarrow> wk_writers c ! i = Quiet \<Longrightarrow>
    wake_step c (must_notify i (c\<lparr>wk_queue := (wk_queue c)\<lparr>sq_stopped := True\<rparr>\<rparr>))"
| Notify: "i < length (wk_writers c) \<Longrightarrow> wk_writers c ! i = Must_notify \<Longrightarrow> \<not> wk_locked c \<Longrightarrow>
    wake_step c (c\<lparr>wk_writers := (wk_writers c)[i := Quiet],
                   wk_waiter := (if wk_waiter c = Asleep then Awake else wk_waiter c)\<rparr>)"

inductive_cases wake_stepE: "wake_step c c'"

inductive wake_reachable :: "wake_conf \<Rightarrow> wake_conf \<Rightarrow> bool" for c0 where
  Here: "wake_reachable c0 c0"
| There: "wake_reachable c0 c \<Longrightarrow> wake_step c c' \<Longrightarrow> wake_reachable c0 c'"

definition wake_start :: "script_queue \<Rightarrow> u64 \<Rightarrow> nat \<Rightarrow> wake_conf" where
  "wake_start q pos n = \<lparr>wk_queue = q, wk_pos = pos, wk_locked = False, wk_waiter = Outside,
     wk_writers = replicate n Quiet\<rparr>"

section \<open>The invariant\<close>

text \<open>A script thread that sleeps, or is about to, has nothing to take, or some writer has not yet
  notified.\<close>

definition has_work :: "wake_conf \<Rightarrow> bool" where
  "has_work c \<longleftrightarrow> fst (queue_take (wk_queue c) (wk_pos c)) \<noteq> Blocked"

definition wake_inv :: "wake_conf \<Rightarrow> bool" where
  "wake_inv c \<longleftrightarrow> (wk_locked c \<longleftrightarrow> wk_waiter c \<in> {Testing, Falling}) \<and>
     (wk_waiter c \<in> {Falling, Asleep} \<longrightarrow> has_work c \<longrightarrow> Must_notify \<in> set (wk_writers c))"

lemma wake_inv_start: "wake_inv (wake_start q pos n)"
  by (simp add: wake_inv_def wake_start_def)

lemma must_notify_mem: "i < length (wk_writers c) \<Longrightarrow> Must_notify \<in> set (wk_writers (must_notify i c))"
  by (simp add: must_notify_def set_update_memI)

lemma wake_inv_step:
  assumes "wake_step c c'" "wake_inv c"
  shows "wake_inv c'"
  using assms(1)
proof (cases rule: wake_step.cases)
  case (Write i ev)
  then show ?thesis
    using assms(2) must_notify_mem [of i "c\<lparr>wk_queue := queue_put ev (wk_queue c)\<rparr>"]
    by (simp add: wake_inv_def) (simp add: must_notify_def)
next
  case (Stop i)
  then show ?thesis
    using assms(2) must_notify_mem [of i "c\<lparr>wk_queue := (wk_queue c)\<lparr>sq_stopped := True\<rparr>\<rparr>"]
    by (simp add: wake_inv_def) (simp add: must_notify_def)
qed (use assms(2) in \<open>auto simp: wake_inv_def has_work_def split: if_splits\<close>)

lemma wake_inv_reachable: "wake_reachable c0 c \<Longrightarrow> wake_inv c0 \<Longrightarrow> wake_inv c"
  by (induction rule: wake_reachable.induct) (auto intro: wake_inv_step)

section \<open>Waking\<close>

lemma queue_take_work: "has_work c \<Longrightarrow> \<exists>res pos. queue_take (wk_queue c) (wk_pos c) = (Returned res, pos)"
  by (cases "queue_take (wk_queue c) (wk_pos c)"; cases "fst (queue_take (wk_queue c) (wk_pos c))")
     (auto simp: has_work_def)

text \<open>A woken thread with work gets through the test, once the mutex is free.\<close>

lemma awake_passes:
  assumes "wk_waiter c = Awake" "\<not> wk_locked c" "has_work c"
  shows "\<exists>c'. wake_reachable c c' \<and> wk_waiter c' = Outside"
proof -
  let ?c1 = "c\<lparr>wk_waiter := Testing, wk_locked := True\<rparr>"
  have s1: "wake_step c ?c1" using assms(1,2) by (rule wake_step.Reenter)
  from queue_take_work [OF assms(3)] obtain res pos where
    "queue_take (wk_queue ?c1) (wk_pos ?c1) = (Returned res, pos)" by auto
  then have "wake_step ?c1 (?c1\<lparr>wk_waiter := Outside, wk_locked := False, wk_pos := pos\<rparr>)"
    by (intro wake_step.Pass) simp_all
  with s1 Here [of c] show ?thesis
    by (intro exI [of _ "?c1\<lparr>wk_waiter := Outside, wk_locked := False, wk_pos := pos\<rparr>"])
       (auto intro: There)
qed

section \<open>Properties\<close>

text \<open>C26. No wake-up is lost. Whatever the order in which router threads write, the main thread
  stops the queue and the script thread tests and sleeps: a script thread that is asleep while
  every writer has notified has nothing to take and is not stopped; and one that is asleep
  with something to take, or stopped, is woken by a notification that is still due, after
  which it gets out without any other thread.\<close>

theorem no_lost_wakeup:
  assumes "wake_reachable (wake_start q pos n) c" "wk_waiter c = Asleep"
  shows "if has_work c
    then \<exists>i c1 c2. i < length (wk_writers c) \<and> wk_writers c ! i = Must_notify \<and>
      wake_step c c1 \<and> wk_waiter c1 = Awake \<and> wk_writers c1 = (wk_writers c)[i := Quiet] \<and>
      wake_reachable c1 c2 \<and> wk_waiter c2 = Outside
    else \<not> sq_stopped (wk_queue c) \<and> ring_head (sq_ring (wk_queue c)) \<le> wk_pos c"
proof (cases "has_work c")
  case True
  have inv: "wake_inv c" using wake_inv_reachable [OF assms(1) wake_inv_start] .
  then have free: "\<not> wk_locked c" and "Must_notify \<in> set (wk_writers c)"
    using assms(2) True by (auto simp: wake_inv_def)
  then obtain i where i: "i < length (wk_writers c)" "wk_writers c ! i = Must_notify"
    by (auto simp: in_set_conv_nth)
  let ?c1 = "c\<lparr>wk_writers := (wk_writers c)[i := Quiet], wk_waiter := Awake\<rparr>"
  have s: "wake_step c ?c1" using wake_step.Notify [OF i free] assms(2) by simp
  have "has_work ?c1" using True by (simp add: has_work_def)
  with awake_passes [of ?c1] free obtain c2 where "wake_reachable ?c1 c2" "wk_waiter c2 = Outside" by auto
  then have "\<exists>c2. i < length (wk_writers c) \<and> wk_writers c ! i = Must_notify \<and>
      wake_step c ?c1 \<and> wk_waiter ?c1 = Awake \<and> wk_writers ?c1 = (wk_writers c)[i := Quiet] \<and>
      wake_reachable ?c1 c2 \<and> wk_waiter c2 = Outside" using i s by auto
  with True show ?thesis by (simp only: if_True) blast
next
  case False
  then show ?thesis
    by (auto simp: has_work_def queue_take_def Let_def split: if_splits option.splits)
qed

theorem no_lost_wakeup_witness:
  "\<exists>q c. wake_reachable (wake_start q 0 1) c \<and> wk_waiter c = Asleep \<and> \<not> sq_stopped (wk_queue c)"
proof -
  obtain q :: script_queue where q: "ring_log (sq_ring q) []" "ring_cap (sq_ring q) = 4" "\<not> sq_stopped q"
    by (rule example_queue)
  let ?c = "\<lambda>w l. \<lparr>wk_queue = q, wk_pos = 0, wk_locked = l, wk_waiter = w, wk_writers = [Quiet]\<rparr>"
  have b: "queue_take q 0 = (Blocked, 0)"
    using q ring.head_log [OF q(1)] by (simp add: queue_take_def unat_eq_0)
  have "wake_step (?c Outside False) (?c Testing True)" using wake_step.Enter [of "?c Outside False"] by simp
  moreover have "wake_step (?c Testing True) (?c Falling True)" using wake_step.Fail [of "?c Testing True" 0] b by simp
  moreover have "wake_step (?c Falling True) (?c Asleep False)" using wake_step.Sleep [of "?c Falling True"] by simp
  moreover have "wake_start q 0 1 = ?c Outside False" by (simp add: wake_start_def)
  ultimately have r: "wake_reachable (wake_start q 0 1) (?c Asleep False)"
    by (simp only:) (rule There [OF There [OF There [OF Here]]])
  have "\<not> has_work (?c Asleep False)" by (simp add: has_work_def b)
  with no_lost_wakeup [OF r] r show ?thesis by (intro exI [of _ q] exI [of _ "?c Asleep False"]) simp
qed

end
