(* ===== verification/Loading.thy ===== *)
theory Loading
  imports CText
begin

text \<open>
  Loading code at run time: \<^verbatim>\<open>ingestor/plugin_loader.hpp\<close> (a plugin and the
  instance it makes), \<^verbatim>\<open>executor/python/python_engine.hpp\<close> (the Python library and
  interpreter), \<^verbatim>\<open>executor/wasm/wasm_engine.hpp\<close> and the constructors of the scripts in \<^verbatim>\<open>python_script.hpp\<close> and
  \<^verbatim>\<open>wasm_script.hpp\<close>. What the dynamic linker, the engines and the plugin's functions
  answer is an argument; what the program asks of the linker is recorded in a trace.
\<close>

section \<open>Plugins\<close>

text \<open>What a file holds: whether it opens (else the message of \<^verbatim>\<open>dlerror\<close>), whether it has
  the two symbols, and whether \<^verbatim>\<open>mawmaw_create\<close> returns an instance.\<close>

record plugin_file =
  pf_open :: "string option"
  pf_create :: bool
  pf_destroy :: bool
  pf_instance :: bool

datatype dl_action = Dlopen string | Dlclose string | Created string | Stopped string | Destroyed string

text \<open>A handle is named by the path it was opened from; \<open>None\<close> is a null pointer.\<close>

record plugin_handle =
  ph_dl_handle :: "string option"
  ph_instance :: "string option"
  ph_destroy :: bool

datatype load_error = Dlopen_failed string | Missing_symbols string

definition load_plugin :: "(string \<Rightarrow> plugin_file) \<Rightarrow> string \<Rightarrow> (load_error + plugin_handle) \<times> dl_action list" where
  "load_plugin files path =
     (let f = files path in
      case pf_open f of
        Some err \<Rightarrow> (Inl (Dlopen_failed err), [])
      | None \<Rightarrow>
          if \<not> pf_create f \<or> \<not> pf_destroy f
          then (Inl (Missing_symbols path), [Dlopen path, Dlclose path])
          else (Inr \<lparr>ph_dl_handle = Some path, ph_instance = (if pf_instance f then Some path else None),
                     ph_destroy = True\<rparr>, [Dlopen path, Created path]))"

text \<open>The move constructor: the new object and what is left of the old one, which keeps its
  \<^verbatim>\<open>destroy_\<close>.\<close>

definition move_handle :: "plugin_handle \<Rightarrow> plugin_handle \<times> plugin_handle" where
  "move_handle h = (\<lparr>ph_dl_handle = ph_dl_handle h, ph_instance = ph_instance h, ph_destroy = ph_destroy h\<rparr>,
     h\<lparr>ph_dl_handle := None, ph_instance := None\<rparr>)"

definition destroy_handle :: "plugin_handle \<Rightarrow> dl_action list" where
  "destroy_handle h =
     (case ph_instance h of
        Some i \<Rightarrow> if ph_destroy h then [Stopped i, Destroyed i] else []
      | None \<Rightarrow> []) @
     (case ph_dl_handle h of Some d \<Rightarrow> [Dlclose d] | None \<Rightarrow> [])"

text \<open>Handles are moved into a vector and moved again when it grows; \<open>objects\<close> are all the objects
  there are, in any state.\<close>

inductive handle_moves :: "plugin_handle list \<Rightarrow> plugin_handle list \<Rightarrow> bool" where
  No_move: "handle_moves hs hs"
| Move: "handle_moves hs hs' \<Longrightarrow> i < length hs' \<Longrightarrow>
    handle_moves hs (hs'[i := snd (move_handle (hs' ! i))] @ [fst (move_handle (hs' ! i))])"

section \<open>The Python library\<close>

definition lib_names :: "string list" where
  "lib_names = [''libpython3.so'', ''libpython3.10.so'', ''libpython3.11.so'', ''libpython3.12.so'', ''libpython3.13.so'']"

text \<open>The loop over the names: \<open>dl name\<close> is the message of a failed \<^verbatim>\<open>dlopen\<close>, \<open>None\<close> if
  it succeeds. The result is whether one opened, the last message, and the names tried.\<close>

fun try_names :: "(string \<Rightarrow> string option) \<Rightarrow> string list \<Rightarrow> string \<Rightarrow> bool \<times> string \<times> string list" where
  "try_names dl [] err = (False, err, [])"
| "try_names dl (n # ns) err =
     (case dl n of
        None \<Rightarrow> (True, err, [n])
      | Some e \<Rightarrow> let (ok, err', tried) = try_names dl ns e in (ok, err', n # tried))"

fun join_names :: "string list \<Rightarrow> string" where
  "join_names [] = []"
| "join_names [n] = n"
| "join_names (n # ns) = n @ '', '' @ join_names ns"

text \<open>\<open>loaded\<close> is the static flag. The result is the flag and the libraries tried, or the text of
  the exception.\<close>

definition load_library :: "(string \<Rightarrow> string option) \<Rightarrow> string option \<Rightarrow> bool \<Rightarrow> string + bool \<times> string list" where
  "load_library dl env_path loaded =
     (if loaded then Inr (True, [])
      else let (from_env, err, tried) =
             (case env_path of
                Some p \<Rightarrow> (case dl p of None \<Rightarrow> (True, [], [p]) | Some e \<Rightarrow> (False, e, [p]))
              | None \<Rightarrow> (False, [], [])) in
        if from_env then Inr (True, tried)
        else let (ok, err', tried') = try_names dl lib_names err in
          if ok then Inr (True, tried @ tried')
          else Inl (''Failed to load libpython: '' @ err' @ '' (tried: '' @ join_names lib_names @ '')''))"

text \<open>The constructor: \<open>initialized\<close> is \<^verbatim>\<open>Py_IsInitialized\<close> before, \<open>init_ok\<close> after
  \<^verbatim>\<open>Py_Initialize\<close>.\<close>

definition python_engine :: "(string \<Rightarrow> string option) \<Rightarrow> string option \<Rightarrow> bool \<Rightarrow> bool \<Rightarrow> bool \<Rightarrow> string + string list" where
  "python_engine dl env_path loaded initialized init_ok =
     (case load_library dl env_path loaded of
        Inl e \<Rightarrow> Inl e
      | Inr (_, tried) \<Rightarrow>
          if initialized then Inl ''PythonEngine: interpreter already initialised''
          else if \<not> init_ok then Inl ''PythonEngine: Py_Initialize() failed''
          else Inr tried)"

section \<open>The WASM engine\<close>

text \<open>The constructor: \<open>env_ok\<close> is whether \<^verbatim>\<open>m3_NewEnvironment\<close> gives an environment.\<close>

definition wasm_engine :: "bool \<Rightarrow> string + unit" where
  "wasm_engine env_ok = (if env_ok then Inr () else Inl ''WasmEngine: m3_NewEnvironment() failed'')"

section \<open>Scripts\<close>

text \<open>The constructor of \<^verbatim>\<open>WasmScript\<close>: whether the file opens and the engine gives a
  runtime, and the error of each call of the engine, if any. Besides the result it gives the
  runtimes that were created and not freed: the destructor does not run when the constructor
  throws.\<close>

record wasm_answers =
  wa_file :: bool
  wa_runtime :: bool
  wa_parse :: "string option"
  wa_load :: "string option"
  wa_link_time :: "string option"
  wa_link_log :: "string option"
  wa_find :: "string option"

definition link_failed :: "string option \<Rightarrow> bool" where
  "link_failed r = (case r of None \<Rightarrow> False | Some e \<Rightarrow> find_sub ''lookup failed'' e = None)"

definition wasm_script :: "string \<Rightarrow> wasm_answers \<Rightarrow> (string + unit) \<times> nat" where
  "wasm_script path wa =
     (if \<not> wa_file wa then (Inl (''WasmScript: cannot open '' @ path), 0)
      else if \<not> wa_runtime wa then (Inl ''WasmScript: m3_NewRuntime failed'', 0)
      else if wa_parse wa \<noteq> None then (Inl (''WasmScript: parse: '' @ the (wa_parse wa)), 1)
      else if wa_load wa \<noteq> None then (Inl (''WasmScript: load: '' @ the (wa_load wa)), 1)
      else if link_failed (wa_link_time wa) then (Inl (''link time_ns failed: '' @ the (wa_link_time wa)), 1)
      else if link_failed (wa_link_log wa) then (Inl (''link log failed: '' @ the (wa_link_log wa)), 1)
      else if wa_find wa \<noteq> None
      then (Inl (''WasmScript: '' @ path @ '' must export on_trigger: '' @ the (wa_find wa)), 1)
      else (Inr (), 1))"

text \<open>The constructor of \<^verbatim>\<open>PythonScript\<close>: whether the module \<^verbatim>\<open>importlib.util\<close> is
  there, it gives a specification for the file, the module runs without an exception, and it
  has a callable \<^verbatim>\<open>on_trigger\<close>.\<close>

record python_answers =
  pa_util :: bool
  pa_spec :: bool
  pa_exec :: bool
  pa_callable :: bool

definition python_script :: "string \<Rightarrow> python_answers \<Rightarrow> string + unit" where
  "python_script filepath pa =
     (if \<not> pa_util pa then Inl ''importlib.util missing''
      else if \<not> pa_spec pa then Inl (''Cannot load spec: '' @ filepath)
      else if \<not> pa_exec pa then Inl (''Error executing: '' @ filepath)
      else if \<not> pa_callable pa then Inl (filepath @ '' must define on_trigger()'')
      else Inr ())"

text \<open>A script without the imports \<^verbatim>\<open>time_ns\<close> and \<^verbatim>\<open>log\<close> loads all the same, and the
  runtime of one that does not load is never freed.\<close>

lemma wasm_script_loads:
  "wasm_script path wa = (Inr (), n) \<longleftrightarrow> n = 1 \<and> wa_file wa \<and> wa_runtime wa \<and> wa_parse wa = None \<and> wa_load wa = None \<and>
     \<not> link_failed (wa_link_time wa) \<and> \<not> link_failed (wa_link_log wa) \<and> wa_find wa = None"
  by (auto simp: wasm_script_def)

lemma wasm_script_leaks: "wasm_script path wa = (Inl e, n) \<Longrightarrow> n = (if wa_file wa \<and> wa_runtime wa then 1 else 0)"
  by (auto simp: wasm_script_def split: if_splits)

section \<open>The life of a plugin\<close>

text \<open>Of the objects that came from one handle exactly one still owns it.\<close>

definition one_owner :: "plugin_handle \<Rightarrow> plugin_handle list \<Rightarrow> bool" where
  "one_owner h hs \<longleftrightarrow> (\<exists>i < length hs. hs ! i = h \<and> (\<forall>j < length hs. j \<noteq> i \<longrightarrow> destroy_handle (hs ! j) = []))"

lemma destroy_moved: "destroy_handle (snd (move_handle h)) = []" "fst (move_handle h) = h"
  by (simp_all add: move_handle_def destroy_handle_def)

lemma moves_one_owner: "handle_moves [h] hs \<Longrightarrow> one_owner h hs"
proof (induction "[h]" hs rule: handle_moves.induct)
  case No_move
  then show ?case by (simp add: one_owner_def)
next
  case (Move hs' i)
  from Move(2) obtain k where k: "k < length hs'" "hs' ! k = h" "\<And>j. j < length hs' \<Longrightarrow> j \<noteq> k \<Longrightarrow> destroy_handle (hs' ! j) = []"
    by (auto simp: one_owner_def)
  let ?hs = "hs'[i := snd (move_handle (hs' ! i))] @ [fst (move_handle (hs' ! i))]"
  show ?case
  proof (cases "i = k")
    case True
    have "?hs ! length hs' = h" by (simp add: destroy_moved nth_append True k(2))
    moreover have "destroy_handle (?hs ! j) = []" if "j < length ?hs" "j \<noteq> length hs'" for j
      using that k True by (cases "j = k") (simp_all add: nth_append destroy_moved)
    ultimately show ?thesis unfolding one_owner_def by (intro exI [of _ "length hs'"]) simp
  next
    case False
    have "?hs ! k = h" using False k by (simp add: nth_append)
    moreover have "destroy_handle (?hs ! j) = []" if "j < length ?hs" "j \<noteq> k" for j
      using that k False Move(3)
      by (cases "j = length hs'"; cases "j = i") (simp_all add: nth_append destroy_moved)
    ultimately show ?thesis unfolding one_owner_def using k(1) by (intro exI [of _ k]) simp
  qed
qed

lemma one_owner_trace: "one_owner h hs \<Longrightarrow> concat (map destroy_handle hs) = destroy_handle h"
proof -
  assume "one_owner h hs"
  then obtain i where i: "i < length hs" "hs ! i = h" "\<And>j. j < length hs \<Longrightarrow> j \<noteq> i \<Longrightarrow> destroy_handle (hs ! j) = []"
    by (auto simp: one_owner_def)
  have "map destroy_handle (take i hs) = map (\<lambda>_. []) (take i hs)"
    "map destroy_handle (drop (Suc i) hs) = map (\<lambda>_. []) (drop (Suc i) hs)"
    using i(1,3) by (auto simp: in_set_conv_nth)
  moreover have "hs = take i hs @ h # drop (Suc i) hs" using id_take_nth_drop [OF i(1)] i(2) by simp
  then have "concat (map destroy_handle hs) = concat (map destroy_handle (take i hs)) @ destroy_handle h @
      concat (map destroy_handle (drop (Suc i) hs))"
    by (metis concat.simps(2) concat_append list.simps(9) map_append)
  moreover have "concat (map (\<lambda>_. []) xs) = ([] :: dl_action list)" for xs :: "plugin_handle list"
    by (induction xs) simp_all
  ultimately show ?thesis by (simp only: append_Nil append_Nil2)
qed

section \<open>Properties\<close>

text \<open>The life of a plugin. A library that opens but lacks a symbol is closed again, and of
  one that loads, however often its handle is moved, destroying all the objects left stops and
  destroys the instance once and then closes the library once.\<close>

theorem plugin_released_once:
  assumes "load_plugin files path = (Inr h, trace)" "handle_moves [h] hs"
  shows "trace = [Dlopen path, Created path] \<and> concat (map destroy_handle hs) =
    (if pf_instance (files path) then [Stopped path, Destroyed path] else []) @ [Dlclose path]"
  using one_owner_trace [OF moves_one_owner [OF assms(2)]] assms(1)
  by (auto simp: load_plugin_def Let_def destroy_handle_def split: option.splits if_splits)

theorem plugin_released_once_witness:
  "concat (map destroy_handle [\<lparr>ph_dl_handle = None, ph_instance = None, ph_destroy = True\<rparr>,
     \<lparr>ph_dl_handle = Some ''p'', ph_instance = Some ''p'', ph_destroy = True\<rparr>]) = [Stopped ''p'', Destroyed ''p'', Dlclose ''p'']"
proof -
  let ?h = "\<lparr>ph_dl_handle = Some ''p'', ph_instance = Some ''p'', ph_destroy = True\<rparr>"
  let ?files = "\<lambda>_. \<lparr>pf_open = None, pf_create = True, pf_destroy = True, pf_instance = True\<rparr>"
  have "handle_moves [?h] [\<lparr>ph_dl_handle = None, ph_instance = None, ph_destroy = True\<rparr>, ?h]"
    using handle_moves.Move [OF handle_moves.No_move, of 0 "[?h]"] by (simp add: move_handle_def)
  from plugin_released_once [OF _ this, of ?files "''p''"] show ?thesis by (simp add: load_plugin_def)
qed

lemma missing_symbols_closed:
  "load_plugin files path = (Inl (Missing_symbols p), trace) \<Longrightarrow> trace = [Dlopen path, Dlclose path]"
  by (auto simp: load_plugin_def Let_def split: option.splits if_splits)

text \<open>The library of the interpreter is found exactly when it was loaded before, the one of the
  environment opens or one of the names opens; the names after the first that opens are not
  tried.\<close>

lemma try_names_opens: "fst (try_names dl ns err) \<longleftrightarrow> (\<exists>n \<in> set ns. dl n = None)"
  by (induction dl ns err rule: try_names.induct) (auto split: option.splits prod.splits)

lemma try_names_first:
  "try_names dl ns err = (True, err', tried) \<Longrightarrow> \<exists>pre n rest. tried = pre @ [n] \<and> ns = tried @ rest \<and>
     dl n = None \<and> (\<forall>m \<in> set pre. dl m \<noteq> None)"
proof (induction dl ns err arbitrary: err' tried rule: try_names.induct)
  case (2 dl n ns err)
  show ?case
  proof (cases "dl n")
    case None
    with 2(2) show ?thesis by auto
  next
    case (Some e)
    with 2(2) obtain tried' where t: "try_names dl ns e = (True, err', tried')" "tried = n # tried'"
      by (auto split: prod.splits)
    from 2(1) [OF Some t(1)] obtain pre m rest where
      "tried' = pre @ [m]" "ns = tried' @ rest" "dl m = None" "\<forall>m \<in> set pre. dl m \<noteq> None" by blast
    with Some t(2) show ?thesis by (intro exI [of _ "n # pre"] exI [of _ m] exI [of _ rest]) simp
  qed
qed simp

lemma load_library_found:
  "\<not> isl (load_library dl env_path loaded) \<longleftrightarrow>
     loaded \<or> (\<exists>p. env_path = Some p \<and> dl p = None) \<or> (\<exists>n \<in> set lib_names. dl n = None)"
proof -
  have names: "isl (case try_names dl lib_names err of (ok, err', tried') \<Rightarrow>
      if ok then Inr (True, tried @ tried') else Inl (f err')) \<longleftrightarrow> \<not> (\<exists>n \<in> set lib_names. dl n = None)"
    for err tried and f :: "string \<Rightarrow> string"
    using try_names_opens [of dl lib_names err] by (cases "try_names dl lib_names err") auto
  show ?thesis
    by (cases loaded; cases env_path; cases "dl (the env_path)") (simp_all add: load_library_def names)
qed

end
