(* ===== verification/Reload.thy ===== *)
theory Reload
  imports Loading Pipeline_Laws
begin

text \<open>
  The reload monitor of \<^verbatim>\<open>server/main.cpp\<close> and the loop of \<^verbatim>\<open>main\<close>
  that acts on it. A round of the monitor works on the modification times and the configuration
  text at that moment; a restart on what the files of \<^verbatim>\<open>Loading\<close> then hold.
\<close>

section \<open>Modification times\<close>

text \<open>Nanoseconds to whole seconds, toward zero as \<^verbatim>\<open>duration_cast\<close> rounds.\<close>

definition to_time_t :: "int \<Rightarrow> int" where
  "to_time_t ns = (if 0 \<le> ns then ns div 10 ^ 9 else - ((- ns) div 10 ^ 9))"

text \<open>The time of the file on the file clock (\<open>None\<close>: the call throws) is moved to the system clock by
  reading both clocks, one after the other.\<close>

definition get_file_mtime :: "int option \<Rightarrow> int \<Rightarrow> int \<Rightarrow> int" where
  "get_file_mtime ftime file_now sys_now =
     (case ftime of Some f \<Rightarrow> to_time_t (f - file_now + sys_now) | None \<Rightarrow> 0)"

text \<open>Two readings agree when they fall into one second: a file written again within the second
  looks unchanged, and an unchanged file looks changed when the time between the two clock
  readings differs enough to cross a second.\<close>

lemma mtime_within_second:
  assumes "0 \<le> f - file_now + sys_now" "0 \<le> f' - file_now' + sys_now'"
  shows "get_file_mtime (Some f) file_now sys_now = get_file_mtime (Some f') file_now' sys_now' \<longleftrightarrow>
    (f - file_now + sys_now) div 10 ^ 9 = (f' - file_now' + sys_now') div 10 ^ 9"
  using assms by (simp add: get_file_mtime_def to_time_t_def)

lemma mtime_unchanged_file:
  "get_file_mtime (Some 1999999999) 0 0 \<noteq> get_file_mtime (Some 1999999999) 0 1"
  "get_file_mtime (Some 1000000000) 0 0 = get_file_mtime (Some 1999999999) 0 0"
  by (simp_all add: get_file_mtime_def to_time_t_def)

section \<open>The monitor\<close>

text \<open>The paths in the configuration, none when it does not parse.\<close>

definition get_plugin_paths :: "string \<Rightarrow> string option \<Rightarrow> string list" where
  "get_plugin_paths config_path content =
     (case parse config_path content of
        Inl _ \<Rightarrow> []
      | Inr cfg \<Rightarrow> filter (\<lambda>p. p \<noteq> []) (map (\<lambda>sec. section_get sec ''plugin'' []) (of_type cfg ''ingestor'')))"

record monitor =
  mo_config_path :: string
  mo_config_mtime :: int
  mo_plugin_mtimes :: "int umap"
  mo_requested :: bool

definition monitor_start :: "string \<Rightarrow> string option \<Rightarrow> (string \<Rightarrow> int) \<Rightarrow> monitor" where
  "monitor_start config_path content mtime =
     \<lparr>mo_config_path = config_path, mo_config_mtime = mtime config_path,
      mo_plugin_mtimes = foldl (\<lambda>m p. AList.update p (mtime p) m) [] (get_plugin_paths config_path content),
      mo_requested = False\<rparr>"

text \<open>The loop over the plugins: the first one that changed is noted and ends the loop.\<close>

fun check_plugins :: "(string \<Rightarrow> int) \<Rightarrow> int umap \<Rightarrow> (int umap \<times> bool)" where
  "check_plugins mtime [] = ([], False)"
| "check_plugins mtime ((path, t) # ps) =
     (if mtime path \<noteq> t then ((path, mtime path) # ps, True)
      else let (ps', changed) = check_plugins mtime ps in ((path, t) # ps', changed))"

definition refresh_plugins :: "(string \<Rightarrow> int) \<Rightarrow> string list \<Rightarrow> int umap \<Rightarrow> int umap" where
  "refresh_plugins mtime paths m =
     foldl (\<lambda>m p. if map_of m p = None then AList.update p (mtime p) m else m)
       (filter (\<lambda>(p, _). p \<in> set paths) m) paths"

definition monitor_round :: "string option \<Rightarrow> (string \<Rightarrow> int) \<Rightarrow> monitor \<Rightarrow> monitor" where
  "monitor_round content mtime mo =
     (if mtime (mo_config_path mo) \<noteq> mo_config_mtime mo
      then mo\<lparr>mo_requested := True, mo_config_mtime := mtime (mo_config_path mo),
              mo_plugin_mtimes := refresh_plugins mtime (get_plugin_paths (mo_config_path mo) content) (mo_plugin_mtimes mo)\<rparr>
      else let (ps, changed) = check_plugins mtime (mo_plugin_mtimes mo) in
           mo\<lparr>mo_plugin_mtimes := ps, mo_requested := mo_requested mo \<or> changed\<rparr>)"

section \<open>The main loop\<close>

text \<open>One wake-up of \<^verbatim>\<open>main\<close> while \<^verbatim>\<open>g_running\<close> holds: the pipeline is
  started again with what the environment \<open>env\<close> then gives. The result is whether the loop
  goes on, and the flag it leaves. \<open>Killed\<close>: the exception of \<^verbatim>\<open>start_pipeline\<close> meets
  the threads it has started.\<close>

datatype main_result = Kept | Reloaded config | Exit_bad_config | Exit_no_start | Killed | Undefined_main

definition main_round :: "'h pipeline_env \<Rightarrow> string option \<Rightarrow> monitor \<Rightarrow> main_result \<times> monitor" where
  "main_round env content mo =
     (if \<not> mo_requested mo then (Kept, mo)
      else let mo' = mo\<lparr>mo_requested := False\<rparr> in
        case parse (mo_config_path mo) content of
          Inl _ \<Rightarrow> (Exit_bad_config, mo')
        | Inr cfg \<Rightarrow>
            (case start_pipeline env cfg of
               Started _ \<Rightarrow> Reloaded cfg
             | No_ingestors \<Rightarrow> Exit_no_start
             | Terminated \<Rightarrow> Killed
             | Undefined_start \<Rightarrow> Undefined_main, mo'))"

section \<open>The program\<close>

text \<open>
  \<^verbatim>\<open>main\<close>: the engines are made outside any handler, so that their exceptions end the
  program; a configuration that does not parse or a pipeline that does not start is status 1;
  the loop then runs until a signal (the end of the list of rounds) or a failed reload, which
  both are status 0. A round is what the monitor finds, and what \<^verbatim>\<open>main\<close> then reads and
  what the plugins and engines answer. The status comes with the configuration that ran last.
\<close>

datatype main_exit = Terminated_by string | Status int "config option" | Undefined_exit

type_synonym 'h main_rounds = "(string option \<times> (string \<Rightarrow> int) \<times> string option \<times> 'h pipeline_env) list"

fun main_loop :: "'h main_rounds \<Rightarrow> config \<Rightarrow> monitor \<Rightarrow> main_exit" where
  "main_loop [] cfg mo = Status 0 (Some cfg)"
| "main_loop ((content, mtime, content', env) # rounds) cfg mo =
     (case main_round env content' (monitor_round content mtime mo) of
        (Kept, mo') \<Rightarrow> main_loop rounds cfg mo'
      | (Reloaded cfg', mo') \<Rightarrow> main_loop rounds cfg' mo'
      | (Killed, mo') \<Rightarrow> Terminated_by ''std::terminate''
      | (Undefined_main, mo') \<Rightarrow> Undefined_exit
      | (_, mo') \<Rightarrow> Status 0 (Some cfg))"

definition main_program ::
  "string + string list \<Rightarrow> string + unit \<Rightarrow> 'h pipeline_env \<Rightarrow> string \<Rightarrow> string option \<Rightarrow> monitor \<Rightarrow> 'h main_rounds \<Rightarrow> main_exit" where
  "main_program py_engine wasm env config_path content mo rounds =
     (case py_engine of
        Inl e \<Rightarrow> Terminated_by e
      | Inr _ \<Rightarrow>
          (case wasm of
             Inl e \<Rightarrow> Terminated_by e
           | Inr _ \<Rightarrow>
               (case parse config_path content of
                  Inl _ \<Rightarrow> Status 1 None
                | Inr cfg \<Rightarrow>
                    (case start_pipeline env cfg of
                       Started _ \<Rightarrow> main_loop rounds cfg mo
                     | No_ingestors \<Rightarrow> Status 1 None
                     | Terminated \<Rightarrow> Terminated_by ''std::terminate''
                     | Undefined_start \<Rightarrow> Undefined_exit))))"

section \<open>What a start finds\<close>

text \<open>The answers of the engines and of the loader for the files as they are at a start: the
  constructors of \<^verbatim>\<open>Loading\<close>. \<open>handle\<close> is what a script's file holds, \<open>starts\<close>
  whether a plugin's \<^verbatim>\<open>start\<close> returns.\<close>

definition loading_env :: "os_answers \<Rightarrow> (string \<Rightarrow> plugin_file) \<Rightarrow> (string \<Rightarrow> wasm_answers) \<Rightarrow>
    (string \<Rightarrow> python_answers) \<Rightarrow> (string \<Rightarrow> string \<Rightarrow> 'h) \<Rightarrow> (string \<Rightarrow> bool) \<Rightarrow> 'h pipeline_env" where
  "loading_env os files wasm py handle starts =
     \<lparr>pe_os = os,
      pe_python = (\<lambda>sid path. case python_script path (py path) of Inl _ \<Rightarrow> None | Inr _ \<Rightarrow> Some (handle sid path)),
      pe_wasm = (\<lambda>sid path. case fst (wasm_script path (wasm path)) of Inl _ \<Rightarrow> None | Inr _ \<Rightarrow> Some (handle sid path)),
      pe_plugin = (\<lambda>path. case fst (load_plugin files path) of
          Inl _ \<Rightarrow> Plugin_fails
        | Inr h \<Rightarrow> if ph_instance h = None then No_instance else if starts path then Plugin_starts else Plugin_fails)\<rparr>"

lemma load_plugins_missing:
  assumes "\<forall>sec \<in> set secs. \<exists>p i. field_ref sec ''plugin'' = Some p \<and> field_ref sec ''id'' = Some i \<and> pf_open (files p) \<noteq> None"
  shows "load_plugins (loading_env os files wasm py handle starts) secs = Some []"
  using assms by (induction secs) (auto simp: loading_env_def load_plugin_def Let_def)

section \<open>Detection\<close>

definition stale :: "(string \<Rightarrow> int) \<Rightarrow> int umap \<Rightarrow> (string \<times> int) list" where
  "stale mtime m = filter (\<lambda>(p, t). mtime p \<noteq> t) m"

lemma stale_simps [simp]: "stale mtime [] = []"
  "stale mtime ((p, t) # m) = (if mtime p \<noteq> t then (p, t) # stale mtime m else stale mtime m)"
  by (simp_all add: stale_def)

lemma check_plugins_keys: "map fst (fst (check_plugins mtime m)) = map fst m"
  by (induction m rule: check_plugins.induct) (auto split: prod.split)

lemma check_plugins_changed: "snd (check_plugins mtime m) \<longleftrightarrow> stale mtime m \<noteq> []"
  by (induction m rule: check_plugins.induct) (auto split: prod.split)

lemma check_plugins_stale: "stale mtime (fst (check_plugins mtime m)) = tl (stale mtime m)"
  by (induction m rule: check_plugins.induct) (auto split: prod.split)

lemma um_ok_refresh: "um_ok m \<Longrightarrow> um_ok (refresh_plugins mtime paths m)"
proof -
  assume m: "um_ok m"
  have "um_ok (foldl (\<lambda>m p. if map_of m p = None then AList.update p (mtime p) m else m) m' paths)" if "um_ok m'" for m'
    using that by (induction paths arbitrary: m') auto
  from this [OF um_ok_filter [OF m]] show ?thesis by (simp add: refresh_plugins_def case_prod_unfold)
qed

lemma refresh_keeps:
  assumes "um_ok m" "map_of m p = Some t" "p \<in> set paths"
  shows "map_of (refresh_plugins mtime paths m) p = Some t"
proof -
  have keep: "map_of (foldl (\<lambda>m p. if map_of m p = None then AList.update p (mtime p) m else m) m' qs) p = Some t"
    if "map_of m' p = Some t" for m' qs
    using that
  proof (induction qs arbitrary: m')
    case (Cons q qs)
    then have "map_of (if map_of m' q = None then AList.update q (mtime q) m' else m') p = Some t"
      by (auto simp: umap_simps)
    from Cons.IH [OF this] show ?case by simp
  qed simp
  have "(p, t) \<in> set (filter (\<lambda>(p, _). p \<in> set paths) m)" using assms by (auto dest: map_of_SomeD)
  then have "map_of (filter (\<lambda>(p, _). p \<in> set paths) m) p = Some t"
    by (rule map_of_mem [OF um_ok_filter [OF assms(1)], THEN iffD1])
  from keep [OF this] show ?thesis by (simp add: refresh_plugins_def)
qed

text \<open>Status 1 only tells of the first start; what fails after a reload ends with status 0 like a
  stop by a signal.\<close>

lemma main_loop_status: "main_loop rounds cfg mo = Status n c \<Longrightarrow> n = 0 \<and> c \<noteq> None"
proof (induction rounds cfg mo rule: main_loop.induct)
  case (2 content mtime content' env rounds cfg mo)
  obtain res mo' where r: "main_round env content' (monitor_round content mtime mo) = (res, mo')" by fastforce
  with 2 show ?case by (cases res) auto
qed auto

lemma main_status:
  "main_program (python_engine dl env_path loaded initialized init_ok) (wasm_engine env_ok) env path content mo rounds = Status n cfg \<Longrightarrow>
     (n = 0 \<and> cfg \<noteq> None) \<or> (n = 1 \<and> cfg = None)"
  by (auto simp: main_program_def dest!: main_loop_status split: sum.splits if_splits start_result.splits)

lemma start_no_ingestors:
  assumes "load_plugins env (of_type cfg ''ingestor'') = Some []" "\<forall>sec \<in> set (of_type cfg ''script''). \<not> dangling sec"
  shows "start_pipeline env cfg = (if \<exists>sec \<in> set (of_type cfg ''script''). usable env sec then Terminated else No_ingestors)"
  using add_scripts_result [where env = env and secs = "of_type cfg ''script''" and st = "wire env cfg"] assms
  by (auto simp: start_pipeline_def wire_def split: option.splits)

text \<open>Rounds of the monitor between which \<^verbatim>\<open>main\<close> takes the flag: what it finds.\<close>

fun reload_flags :: "string option \<Rightarrow> (string \<Rightarrow> int) \<Rightarrow> nat \<Rightarrow> monitor \<Rightarrow> bool list" where
  "reload_flags content mtime 0 mo = []"
| "reload_flags content mtime (Suc n) mo =
     (let mo' = monitor_round content mtime (mo\<lparr>mo_requested := False\<rparr>)
      in mo_requested mo' # reload_flags content mtime n mo')"

lemma map_less_upt: "map (\<lambda>i. i < k) [0..<Suc n] = (0 < k) # map (\<lambda>i. i < k - 1) [0..<n]"
  by (simp only: map_upt_Suc) (auto simp: less_diff_conv)

section \<open>Properties\<close>

text \<open>C27. Every changed plugin is noticed, one per round: when the configuration file is unchanged
  and \<open>k\<close> of the watched plugins have new modification times, exactly the next \<open>k\<close>
  rounds request a reload and no later one does. Plugins rebuilt together therefore restart
  the pipeline once each.\<close>

theorem reload_detects:
  assumes "mtime (mo_config_path mo) = mo_config_mtime mo"
  shows "reload_flags content mtime n mo =
    map (\<lambda>i. i < length (stale mtime (mo_plugin_mtimes mo))) [0..<n]"
  using assms
proof (induction n arbitrary: mo)
  case (Suc n)
  obtain ps changed where c: "check_plugins mtime (mo_plugin_mtimes mo) = (ps, changed)" by fastforce
  have s: "stale mtime ps = tl (stale mtime (mo_plugin_mtimes mo))"
    using check_plugins_stale [of mtime "mo_plugin_mtimes mo"] by (simp add: c)
  have f: "changed \<longleftrightarrow> 0 < length (stale mtime (mo_plugin_mtimes mo))"
    using check_plugins_changed [of mtime "mo_plugin_mtimes mo"] by (simp add: c)
  let ?mo = "mo\<lparr>mo_plugin_mtimes := ps, mo_requested := changed\<rparr>"
  have "reload_flags content mtime (Suc n) mo = changed # reload_flags content mtime n ?mo"
    using Suc.prems by (simp add: monitor_round_def c)
  also have "\<dots> = changed # map (\<lambda>i. i < length (stale mtime (mo_plugin_mtimes mo)) - 1) [0..<n]"
    using Suc.IH [of ?mo] Suc.prems by (simp add: s)
  finally show ?case unfolding map_less_upt f .
qed simp

theorem reload_detects_witness:
  "reload_flags None (\<lambda>p. 7) 3 \<lparr>mo_config_path = ''c'', mo_config_mtime = 7,
     mo_plugin_mtimes = [(''a'', 1), (''b'', 2)], mo_requested = False\<rparr> = [True, True, False]"
  by (subst reload_detects) (simp_all add: upt_rec)

text \<open>When a reload is requested while no ingestor can be loaded the program does not go on with
  the old pipeline and does not report an error. At the first start the same configuration and
  plugins give \<^verbatim>\<open>std::terminate\<close> or status 1.\<close>

lemma reload_without_ingestor:
  assumes "mo_requested (monitor_round content mtime mo)" "parse (mo_config_path mo) content' = Inr cfg"
    and "load_plugins env (of_type cfg ''ingestor'') = Some []"
    and "\<forall>sec \<in> set (of_type cfg ''script''). \<not> dangling sec"
  shows "main_loop ((content, mtime, content', env) # rounds) old mo =
      (if \<exists>sec \<in> set (of_type cfg ''script''). usable env sec then Terminated_by ''std::terminate'' else Status 0 (Some old)) \<and>
    main_program (Inr names) (Inr ()) env (mo_config_path mo) content' mo rounds =
      (if \<exists>sec \<in> set (of_type cfg ''script''). usable env sec then Terminated_by ''std::terminate'' else Status 1 None)"
proof -
  have path: "mo_config_path (monitor_round content mtime mo) = mo_config_path mo"
    by (simp add: monitor_round_def split: prod.split)
  show ?thesis using assms(1,2) start_no_ingestors [OF assms(3,4)]
    by (simp add: main_round_def main_program_def path)
qed

text \<open>C38. A plugin's file that goes away takes the running program with it. When the file of the
  only plugin is removed (as a build does before it writes the new one), the monitor's next round
  reads the time zero and requests a reload, and the reload finds no ingestor: if any script of the
  configuration loads, the program is killed by \<^verbatim>\<open>std::terminate\<close>, and if none
  does, it exits with the status 0 of a normal stop; it never goes on with the old pipeline.\<close>

theorem removed_plugin_ends_server:
  assumes "map_of (mo_plugin_mtimes mo) p = Some t" "t \<noteq> 0" "ftime p = None" "pf_open (files p) \<noteq> None"
    and "parse (mo_config_path mo) content' = Inr cfg"
    and "\<forall>sec \<in> set (of_type cfg ''ingestor''). field_ref sec ''plugin'' = Some p \<and> field_ref sec ''id'' \<noteq> None"
    and "\<forall>sec \<in> set (of_type cfg ''script''). \<not> dangling sec"
    and "env = loading_env os files wasm py handle starts"
  shows "main_loop ((content, \<lambda>q. get_file_mtime (ftime q) (file_now q) (sys_now q), content', env) # rounds) old mo =
    (if \<exists>sec \<in> set (of_type cfg ''script''). usable env sec then Terminated_by ''std::terminate'' else Status 0 (Some old))"
proof -
  let ?mtime = "\<lambda>q. get_file_mtime (ftime q) (file_now q) (sys_now q)"
  have "(p, t) \<in> set (stale ?mtime (mo_plugin_mtimes mo))"
    using assms(1-3) by (auto simp: stale_def get_file_mtime_def dest: map_of_SomeD)
  then have "snd (check_plugins ?mtime (mo_plugin_mtimes mo))" by (auto simp: check_plugins_changed)
  then have "mo_requested (monitor_round content ?mtime mo)"
    by (simp add: monitor_round_def split: prod.split) (metis snd_conv)
  moreover have "load_plugins env (of_type cfg ''ingestor'') = Some []"
    unfolding assms(8) by (rule load_plugins_missing) (use assms(4,6) in auto)
  ultimately show ?thesis by (rule reload_without_ingestor [THEN conjunct1, OF _ assms(5) _ assms(7)])
qed

definition example_text :: string where
  "example_text = ''[ingestor]'' @ [CHR 0x0A] @ ''id=i'' @ [CHR 0x0A] @ ''plugin=p'' @ [CHR 0x0A] @
     ''[script]'' @ [CHR 0x0A] @ ''id=f'' @ [CHR 0x0A] @ ''runtime=python'' @ [CHR 0x0A] @
     ''path=f.py'' @ [CHR 0x0A] @ ''trigger=s''"

definition example_loading :: "unit pipeline_env" where
  "example_loading = loading_env \<lparr>os_opens = (\<lambda>_. True), os_listens = (\<lambda>_ _. Listening)\<rparr>
     (\<lambda>_. \<lparr>pf_open = Some ''gone'', pf_create = True, pf_destroy = True, pf_instance = True\<rparr>)
     (\<lambda>_. \<lparr>wa_file = True, wa_runtime = True, wa_parse = None, wa_load = None, wa_link_time = None,
        wa_link_log = None, wa_find = None\<rparr>)
     (\<lambda>_. \<lparr>pa_util = True, pa_spec = True, pa_exec = True, pa_callable = True\<rparr>) (\<lambda>_ _. ()) (\<lambda>_. True)"

theorem removed_plugin_ends_server_witness:
  "main_loop [(None, \<lambda>q. get_file_mtime None 0 0, Some example_text, example_loading)] \<lparr>cfg_sections = []\<rparr>
     \<lparr>mo_config_path = ''c'', mo_config_mtime = 0, mo_plugin_mtimes = [(''p'', 1)], mo_requested = False\<rparr> =
   Terminated_by ''std::terminate''"
proof -
  let ?fields = "\<lambda>s. map (field_ref s) [''id'', ''runtime'', ''path'', ''trigger'']"
  let ?mo = "\<lparr>mo_config_path = ''c'', mo_config_mtime = 0, mo_plugin_mtimes = [(''p'', 1)], mo_requested = False\<rparr>"
  have "(case parse ''c'' (Some example_text) of Inl _ \<Rightarrow> False | Inr cfg \<Rightarrow>
      map (\<lambda>s. (field_ref s ''plugin'', field_ref s ''id'')) (of_type cfg ''ingestor'') = [(Some ''p'', Some ''i'')] \<and>
      map (\<lambda>s. (any_empty (?fields s), load_script example_loading s = None)) (of_type cfg ''script'') = [(Some False, False)])"
    by code_simp
  then obtain cfg where cfg: "parse ''c'' (Some example_text) = Inr cfg"
    "map (\<lambda>s. (field_ref s ''plugin'', field_ref s ''id'')) (of_type cfg ''ingestor'') = [(Some ''p'', Some ''i'')]"
    and "map (\<lambda>s. (any_empty (?fields s), load_script example_loading s = None)) (of_type cfg ''script'') = [(Some False, False)]"
    by (cases "parse ''c'' (Some example_text)") simp_all
  then obtain s where s: "of_type cfg ''script'' = [s]" "any_empty (?fields s) = Some False" "load_script example_loading s \<noteq> None"
    by (auto simp only: map_eq_Cons_conv prod.inject Nil_is_map_conv)
  have "\<forall>sec \<in> set (of_type cfg ''ingestor''). field_ref sec ''plugin'' = Some ''p'' \<and> field_ref sec ''id'' \<noteq> None"
    using cfg(2) by (auto simp: map_eq_Cons_conv)
  moreover have "\<forall>sec \<in> set (of_type cfg ''script''). \<not> dangling sec" using s(1,2) by (simp only: dangling_def) simp
  moreover have "\<exists>sec \<in> set (of_type cfg ''script''). usable example_loading sec"
    using s by (simp only: usable_def) simp
  moreover have "parse (mo_config_path ?mo) (Some example_text) = Inr cfg" using cfg(1) by simp
  ultimately show ?thesis
    using removed_plugin_ends_server [of ?mo "''p''" 1 "\<lambda>_. None" _ "Some example_text" cfg, OF _ _ _ _ _ _ _ example_loading_def,
      of None "\<lambda>_. 0" "\<lambda>_. 0" "[]" "\<lparr>cfg_sections = []\<rparr>"]
    by simp
qed

text \<open>A change of the configuration file hides a change of a plugin that is noticed at the same
  time only until the pipeline has been restarted: the plugin's recorded time is not
  refreshed, so the next round requests a second restart of the new pipeline.\<close>

theorem reload_twice:
  assumes "um_ok (mo_plugin_mtimes mo)" "mtime (mo_config_path mo) \<noteq> mo_config_mtime mo"
    and "parse (mo_config_path mo) content = Inr cfg" "start_pipeline env cfg = Started st"
    and "map_of (mo_plugin_mtimes mo) p = Some t" "mtime p \<noteq> t"
    and "p \<in> set (get_plugin_paths (mo_config_path mo) content)"
  shows "\<exists>mo'. main_round env content (monitor_round content mtime mo) = (Reloaded cfg, mo') \<and>
    \<not> mo_requested mo' \<and> mo_requested (monitor_round content mtime mo')"
proof -
  let ?m = "refresh_plugins mtime (get_plugin_paths (mo_config_path mo) content) (mo_plugin_mtimes mo)"
  let ?mo' = "mo\<lparr>mo_requested := False, mo_config_mtime := mtime (mo_config_path mo), mo_plugin_mtimes := ?m\<rparr>"
  have "map_of ?m p = Some t" by (rule refresh_keeps [OF assms(1,5,7)])
  then have "(p, t) \<in> set (stale mtime ?m)"
    using assms(6) by (auto simp: stale_def dest: map_of_SomeD)
  then have "snd (check_plugins mtime ?m)" by (auto simp: check_plugins_changed)
  then have "mo_requested (monitor_round content mtime ?mo')"
    by (simp add: monitor_round_def split: prod.split) (metis snd_conv)
  moreover have "main_round env content (monitor_round content mtime mo) = (Reloaded cfg, ?mo')"
    using assms(2-4) by (simp add: main_round_def monitor_round_def Let_def)
  ultimately show ?thesis by (intro exI [of _ ?mo']) simp
qed

theorem reload_twice_witness:
  "\<exists>cfg mo'. main_round example_env (Some (''[ingestor]'' @ [CHR 0x0A] @ ''id = a'' @ [CHR 0x0A] @ ''plugin = a''))
      (monitor_round (Some (''[ingestor]'' @ [CHR 0x0A] @ ''id = a'' @ [CHR 0x0A] @ ''plugin = a'')) (\<lambda>p. 7)
        \<lparr>mo_config_path = ''c'', mo_config_mtime = 1, mo_plugin_mtimes = [(''a'', 1)], mo_requested = False\<rparr>) =
    (Reloaded cfg, mo') \<and>
   mo_requested (monitor_round (Some (''[ingestor]'' @ [CHR 0x0A] @ ''id = a'' @ [CHR 0x0A] @ ''plugin = a'')) (\<lambda>p. 7) mo')"
proof -
  let ?content = "Some (''[ingestor]'' @ [CHR 0x0A] @ ''id = a'' @ [CHR 0x0A] @ ''plugin = a'')"
  let ?mo = "\<lparr>mo_config_path = ''c'', mo_config_mtime = 1, mo_plugin_mtimes = [(''a'', 1)], mo_requested = False\<rparr>"
  have "(case parse ''c'' ?content of Inl _ \<Rightarrow> False | Inr cfg \<Rightarrow> of_type cfg ''script'' = [] \<and>
      load_plugins example_env (of_type cfg ''ingestor'') = Some [(''a'', [])])" by code_simp
  then obtain cfg where cfg: "parse ''c'' ?content = Inr cfg" "of_type cfg ''script'' = []"
    "load_plugins example_env (of_type cfg ''ingestor'') = Some [(''a'', [])]" by (auto split: sum.splits)
  then obtain st where st: "start_pipeline example_env cfg = Started st" by (simp add: start_pipeline_def)
  have paths: "get_plugin_paths ''c'' ?content = [''a'']" by code_simp
  have "\<exists>mo'. main_round example_env ?content (monitor_round ?content (\<lambda>p. 7) ?mo) = (Reloaded cfg, mo') \<and>
      \<not> mo_requested mo' \<and> mo_requested (monitor_round ?content (\<lambda>p. 7) mo')"
    by (rule reload_twice [where p = "''a''" and t = 1]) (use cfg(1) st paths in \<open>simp_all add: um_ok_def\<close>)
  then show ?thesis by blast
qed

end
