(* ===== verification/Python_Marshal.thy ===== *)
theory Python_Marshal
  imports Window_Registry
begin

text \<open>
  The marshalling of \<^verbatim>\<open>executor/python/python_script.hpp\<close>: an event as a Python
  dictionary and back. The Python values are those the code asks about; a dictionary maps keys
  to values. What is undefined (a null pointer handed on) is \<open>None\<close>.
\<close>

section \<open>Values\<close>

text \<open>A \<^verbatim>\<open>str\<close> is given by its UTF-8 form, \<open>None\<close> when it has none (lone
  surrogates); integers are unbounded.\<close>

datatype py_value = Py_str "string option" | Py_int int | Py_bytes "u8 list" | Py_other

type_synonym py_dict = "string \<rightharpoonup> py_value"

text \<open>The decoder of the interpreter: which byte strings are UTF-8. It accepts at least ASCII.\<close>

definition is_ascii :: "string \<Rightarrow> bool" where
  "is_ascii s \<longleftrightarrow> list_all (\<lambda>c. (of_char c :: nat) < 128) s"

section \<open>An event as a dictionary\<close>

text \<open>\<^verbatim>\<open>PyUnicode_FromString\<close> returns a null pointer for a string that is not UTF-8,
  which \<^verbatim>\<open>PyDict_SetItemString\<close> does not accept.\<close>

definition event_to_pydict :: "(string \<Rightarrow> bool) \<Rightarrow> event \<Rightarrow> py_dict option" where
  "event_to_pydict utf8 ev =
     (case (stream_of ev, schema_of ev) of
        (Some sid, Some sch) \<Rightarrow>
          if utf8 sid \<and> utf8 sch
          then Some (Map.empty(''stream_id'' \<mapsto> Py_str (Some sid), ''schema_id'' \<mapsto> Py_str (Some sch),
            ''sequence'' \<mapsto> Py_int (uint (ev_sequence ev)), ''timestamp_ns'' \<mapsto> Py_int (uint (ev_timestamp_ns ev)),
            ''lineage_depth'' \<mapsto> Py_int (uint (ev_lineage_depth ev)), ''payload'' \<mapsto> Py_bytes (payload_of ev)))
          else None
      | _ \<Rightarrow> None)"

section \<open>A dictionary as an event\<close>

text \<open>\<^verbatim>\<open>strncpy(dst, s, max - 1)\<close> into an array of a new event.\<close>

definition get_str :: "py_dict \<Rightarrow> string \<Rightarrow> char list \<Rightarrow> nat \<Rightarrow> char list option" where
  "get_str d key dst mx =
     (case d key of
        Some (Py_str (Some s)) \<Rightarrow> Some (strncpy dst s (mx - 1))
      | Some (Py_str None) \<Rightarrow> None
      | _ \<Rightarrow> Some dst)"

text \<open>A negative integer or one that does not fit gives the error value of
  \<^verbatim>\<open>PyLong_AsUnsignedLongLong\<close>, all ones.\<close>

definition get_u64 :: "py_dict \<Rightarrow> string \<Rightarrow> u64" where
  "get_u64 d key =
     (case d key of
        Some (Py_int v) \<Rightarrow> if 0 \<le> v \<and> v < 2 ^ 64 then word_of_int v else UINT64_MAX
      | _ \<Rightarrow> 0)"

definition pydict_to_event :: "py_dict \<Rightarrow> event option" where
  "pydict_to_event d =
     (case (get_str d ''stream_id'' (ev_stream_id event_default) STREAM_ID_MAX,
            get_str d ''schema_id'' (ev_schema_id event_default) SCHEMA_ID_MAX) of
        (Some sid, Some sch) \<Rightarrow>
          (let ev = event_default\<lparr>ev_stream_id := sid, ev_schema_id := sch,
                      ev_sequence := get_u64 d ''sequence'', ev_timestamp_ns := get_u64 d ''timestamp_ns''\<rparr>
           in Some (case d ''payload'' of Some (Py_bytes p) \<Rightarrow> snd (set_payload p ev) | _ \<Rightarrow> ev))
      | _ \<Rightarrow> None)"

text \<open>The result of a script: the dictionaries in its list become events, other items are
  skipped; anything but a list emits nothing.\<close>

datatype py_result = Py_raised | Py_list "py_dict option list" | Py_not_list

fun pylist_to_events :: "py_dict option list \<Rightarrow> event list option" where
  "pylist_to_events [] = Some []"
| "pylist_to_events (None # items) = pylist_to_events items"
| "pylist_to_events (Some d # items) =
     (case pydict_to_event d of
        None \<Rightarrow> None
      | Some e \<Rightarrow> map_option (Cons e) (pylist_to_events items))"

definition python_output :: "py_result \<Rightarrow> event list option" where
  "python_output res = (case res of Py_list items \<Rightarrow> pylist_to_events items | _ \<Rightarrow> Some [])"

section \<open>The call\<close>

text \<open>The windows as a dictionary of lists. A name that is not UTF-8 makes the insertion fail and
  leaves an exception behind during the call; the model stops there.\<close>

fun py_events :: "(string \<Rightarrow> bool) \<Rightarrow> event list \<Rightarrow> py_dict list option" where
  "py_events utf8 [] = Some []"
| "py_events utf8 (ev # evs) =
     (case event_to_pydict utf8 ev of None \<Rightarrow> None | Some d \<Rightarrow> map_option (Cons d) (py_events utf8 evs))"

fun py_windows :: "(string \<Rightarrow> bool) \<Rightarrow> event list umap \<Rightarrow> py_dict list umap option" where
  "py_windows utf8 [] = Some []"
| "py_windows utf8 ((sid, events) # ws) =
     (case py_events utf8 events of
        None \<Rightarrow> None
      | Some list \<Rightarrow>
          if \<not> utf8 (c_str sid) then None
          else map_option (\<lambda>d. (c_str sid, list) # d) (py_windows utf8 ws))"

definition invoke_snapshot ::
  "(string \<Rightarrow> bool) \<Rightarrow> (py_dict \<Rightarrow> py_dict list umap \<Rightarrow> py_result) \<Rightarrow> snapshot_input \<Rightarrow> event list option" where
  "invoke_snapshot utf8 on_trigger input =
     (case event_to_pydict utf8 (si_trigger_event input) of
        None \<Rightarrow> None
      | Some py_trigger \<Rightarrow>
          (case py_windows utf8 (si_windows input) of
             None \<Rightarrow> None
           | Some windows \<Rightarrow> python_output (on_trigger py_trigger windows)))"

section \<open>Identifiers\<close>

lemma default_ids: "ev_stream_id event_default = replicate 32 NUL" "ev_schema_id event_default = replicate 16 NUL"
  by (simp_all add: event_default_def event_sizes)

text \<open>The copy into a zeroed array leaves its last byte, so the identifier ends in a NUL.\<close>

lemma strncpy_zeroed:
  "strncpy (replicate (Suc n) NUL) s n = take n (c_str s) @ replicate (Suc n - length (take n (c_str s))) NUL"
proof -
  have "strncpy (replicate (Suc n) NUL) s n = take n (c_str s) @ replicate (n - length (c_str s)) NUL @ [NUL]"
    unfolding strncpy_pad by (simp only: drop_replicate) simp
  also have "replicate (n - length (c_str s)) NUL @ [NUL] = replicate (Suc n - length (take n (c_str s))) NUL"
    by (cases "length (c_str s) \<le> n") (simp_all add: Suc_diff_le replicate_append_same)
  finally show ?thesis .
qed

lemma c_read_zeroed: "c_read (strncpy (replicate (Suc n) NUL) s n) = Some (take n (c_str s))"
  unfolding strncpy_zeroed by (rule c_read_padded) (auto simp: no_NUL_take)

lemma event_ok_pydict:
  assumes "pydict_to_event d = Some ev"
  shows "event_ok ev"
proof -
  have base: "event_ok (event_default\<lparr>ev_stream_id := sid, ev_schema_id := sch, ev_sequence := q, ev_timestamp_ns := t\<rparr>)"
    if "get_str d ''stream_id'' (ev_stream_id event_default) STREAM_ID_MAX = Some sid"
      "get_str d ''schema_id'' (ev_schema_id event_default) SCHEMA_ID_MAX = Some sch" for sid sch q t
  proof -
    have "length sid = 32 \<and> NUL \<in> set sid"
      using that(1) strncpy_zeroed [of 31] unfolding default_ids
      by (auto simp: get_str_def event_sizes split: option.splits py_value.splits)
    moreover have "length sch = 16 \<and> NUL \<in> set sch"
      using that(2) strncpy_zeroed [of 15] unfolding default_ids
      by (auto simp: get_str_def event_sizes split: option.splits py_value.splits)
    ultimately show ?thesis
      using event_ok_default by (simp add: event_ok_def event_shape_def event_sizes)
  qed
  from assms obtain sid sch where ids: "get_str d ''stream_id'' (ev_stream_id event_default) STREAM_ID_MAX = Some sid"
      "get_str d ''schema_id'' (ev_schema_id event_default) SCHEMA_ID_MAX = Some sch"
    by (auto simp: pydict_to_event_def split: option.splits)
  with assms base [OF ids] show ?thesis
    by (auto simp: pydict_to_event_def Let_def split: option.splits py_value.splits)
qed

lemma c_read_short: "length buf \<le> n \<Longrightarrow> c_read buf = Some s \<Longrightarrow> length s < n \<and> NUL \<notin> set s"
proof -
  assume "length buf \<le> n" and c: "c_read buf = Some s"
  from c have s: "NUL \<in> set buf" "s = takeWhile (\<lambda>c. c \<noteq> NUL) buf" by (auto simp: c_read_def split: if_splits)
  from split_list_first [OF s(1)] obtain xs ys where buf: "buf = xs @ NUL # ys" "NUL \<notin> set xs" by blast
  have "s = c_str buf" using c by (simp add: c_read_eq split: if_splits)
  then have "s = xs" using buf by (simp add: c_str_append c_str_simps)
  with buf \<open>length buf \<le> n\<close> show ?thesis by simp
qed

section \<open>Properties\<close>

text \<open>C28. An event through Python and back. For an event whose identifiers the interpreter can
  decode, a script that returns its trigger unchanged emits the same event, except for the
  lineage depth, which is given to the script but not read back: it is zero again.\<close>

theorem python_roundtrip:
  assumes "event_ok ev" "event_to_pydict utf8 ev = Some d"
    and "si_trigger_event input = ev" "py_windows utf8 (si_windows input) = Some ws"
  shows "\<exists>ev'. invoke_snapshot utf8 (\<lambda>trigger windows. Py_list [Some trigger]) input = Some [ev'] \<and> event_ok ev' \<and>
    stream_of ev' = stream_of ev \<and> schema_of ev' = schema_of ev \<and> ev_sequence ev' = ev_sequence ev \<and>
    ev_timestamp_ns ev' = ev_timestamp_ns ev \<and> payload_of ev' = payload_of ev \<and> ev_lineage_depth ev' = 0"
proof -
  from assms(2) obtain sid sch where ids: "stream_of ev = Some sid" "schema_of ev = Some sch"
    and d: "d = Map.empty(''stream_id'' \<mapsto> Py_str (Some sid), ''schema_id'' \<mapsto> Py_str (Some sch),
            ''sequence'' \<mapsto> Py_int (uint (ev_sequence ev)), ''timestamp_ns'' \<mapsto> Py_int (uint (ev_timestamp_ns ev)),
            ''lineage_depth'' \<mapsto> Py_int (uint (ev_lineage_depth ev)), ''payload'' \<mapsto> Py_bytes (payload_of ev))"
    by (auto simp: event_to_pydict_def split: option.splits if_splits)
  have "length (ev_stream_id ev) \<le> 32" "length (ev_schema_id ev) \<le> 16" and
    fits: "length (payload_of ev) \<le> PAYLOAD_MAX"
    using assms(1) by (simp_all add: event_ok_def event_shape_def event_sizes payload_of_def)
  then have sid: "take 31 (c_str sid) = sid" and sch: "take 15 (c_str sch) = sch"
    using ids c_read_short [of "ev_stream_id ev" 32 sid] c_read_short [of "ev_schema_id ev" 16 sch]
    by (auto simp: stream_of_def schema_of_def c_str_id)
  let ?sid = "strncpy (replicate 32 NUL) sid 31" and ?sch = "strncpy (replicate 16 NUL) sch 15"
  let ?base = "event_default\<lparr>ev_stream_id := ?sid, ev_schema_id := ?sch, ev_sequence := ev_sequence ev,
      ev_timestamp_ns := ev_timestamp_ns ev\<rparr>"
  have u: "0 \<le> uint (x :: u64) \<and> uint x < 18446744073709551616" for x using uint_bounded [of x] by simp
  have e: "pydict_to_event d = Some (snd (set_payload (payload_of ev) ?base))"
    by (simp add: pydict_to_event_def d get_str_def get_u64_def default_ids u event_sizes)
  have "stream_of (snd (set_payload (payload_of ev) ?base)) = Some sid"
    using c_read_zeroed [of 31 sid] by (simp add: stream_of_def sid)
  moreover have "schema_of (snd (set_payload (payload_of ev) ?base)) = Some sch"
    using c_read_zeroed [of 15 sch] by (simp add: schema_of_def sch)
  moreover have "payload_of (snd (set_payload (payload_of ev) ?base)) = payload_of ev"
    by (rule payload_of_set_payload [OF fits])
  moreover have "ev_lineage_depth ?base = 0" by (simp add: event_default_def)
  ultimately show ?thesis
    using e event_ok_pydict [OF e] ids assms(2-4) by (simp add: python_output_def invoke_snapshot_def)
qed

theorem python_roundtrip_witness:
  "\<exists>ev'. invoke_snapshot is_ascii (\<lambda>trigger windows. Py_list [Some trigger])
       \<lparr>si_trigger_event = snd (set_payload [1] (set_stream ''s'' (event_default\<lparr>ev_lineage_depth := 3\<rparr>))), si_windows = []\<rparr> =
       Some [ev'] \<and> payload_of ev' = [1] \<and> ev_lineage_depth ev' = 0"
proof -
  let ?e0 = "event_default\<lparr>ev_lineage_depth := 3\<rparr>"
  let ?ev = "snd (set_payload [1] (set_stream ''s'' ?e0))"
  have ok0: "event_ok ?e0" using event_ok_default by (simp add: event_ok_def event_shape_def)
  then have ok: "event_ok ?ev" by simp
  have sh: "event_shape ?e0" using ok0 by (simp add: event_ok_def)
  have "stream_of ?ev = Some ''s''"
    using stream_of_set_stream [OF sh, of "''s''"] by (simp add: stream_of_def c_str_simps)
  moreover have "schema_of ?ev = Some []"
    by (simp add: schema_of_def c_read_def) (simp add: event_default_def SCHEMA_ID_MAX_def)
  moreover have "is_ascii ''s''" "is_ascii []" by (simp_all add: is_ascii_def)
  ultimately obtain d where d: "event_to_pydict is_ascii ?ev = Some d" by (simp add: event_to_pydict_def)
  have "payload_of ?ev = [1]" by (simp add: payload_of_set_payload PAYLOAD_MAX_def)
  with python_roundtrip [OF ok d, of "\<lparr>si_trigger_event = ?ev, si_windows = []\<rparr>" "[]"] show ?thesis by auto
qed

end
