(* ===== verification/Python_Calls.thy ===== *)
theory Python_Calls
  imports Python_Marshal Loading
begin

text \<open>
  What \<^verbatim>\<open>executor/python/python_script.hpp\<close> and \<^verbatim>\<open>python_engine.hpp\<close> ask of the
  interpreter, as rows of calls: who holds the interpreter's lock, and which references the
  program has been given and has not released. The values are those of \<^verbatim>\<open>Python_Marshal\<close>.
\<close>

section \<open>Calls\<close>

text \<open>\<open>New_ref\<close> returns a new reference, \<open>Give_ref\<close> hands one over to the callee, \<open>Drop_ref\<close>
  releases one; \<open>Use\<close> is any other call on objects.\<close>

datatype py_call = Initialize | Save_thread | Restore_thread | Finalize | Gil_ensure | Gil_release
  | New_ref | Give_ref | Drop_ref | Use

text \<open>The interpreter is not running, or runs and its lock is held at some depth. Everything but the
  start and the taking of the lock needs the lock.\<close>

datatype interpreter = Down | Up nat

fun interp_step :: "interpreter \<Rightarrow> py_call \<Rightarrow> interpreter option" where
  "interp_step Down Initialize = Some (Up 1)"
| "interp_step Down _ = None"
| "interp_step (Up n) Initialize = None"
| "interp_step (Up n) Gil_ensure = Some (Up (Suc n))"
| "interp_step (Up n) Restore_thread = (if n = 0 then Some (Up 1) else None)"
| "interp_step (Up n) Save_thread = (if n = 1 then Some (Up 0) else None)"
| "interp_step (Up n) Finalize = (if n = 1 then Some Down else None)"
| "interp_step (Up n) Gil_release = (if n = 0 then None else Some (Up (n - 1)))"
| "interp_step (Up n) _ = (if n = 0 then None else Some (Up n))"

fun interp_run :: "interpreter \<Rightarrow> py_call list \<Rightarrow> interpreter option" where
  "interp_run s [] = Some s"
| "interp_run s (c # cs) = (case interp_step s c of None \<Rightarrow> None | Some s' \<Rightarrow> interp_run s' cs)"

definition held :: "py_call list \<Rightarrow> int" where
  "held cs = (\<Sum>c \<leftarrow> cs. case c of New_ref \<Rightarrow> 1 | Give_ref \<Rightarrow> -1 | Drop_ref \<Rightarrow> -1 | _ \<Rightarrow> 0)"

section \<open>Marshalling\<close>

text \<open>The dictionary, and each of its six values with its insertion, which takes a reference of
  its own.\<close>

definition event_calls :: "py_call list" where
  "event_calls = New_ref # concat (replicate 6 [New_ref, Use])"

definition get_str_calls :: "py_dict \<Rightarrow> string \<Rightarrow> py_call list" where
  "get_str_calls d key = Use # (case d key of Some (Py_str _) \<Rightarrow> [Use] | _ \<Rightarrow> [])"

definition get_u64_calls :: "py_dict \<Rightarrow> string \<Rightarrow> py_call list" where
  "get_u64_calls d key = Use # (case d key of Some (Py_int _) \<Rightarrow> [Use] | _ \<Rightarrow> [])"

definition pydict_calls :: "py_dict \<Rightarrow> py_call list" where
  "pydict_calls d = get_str_calls d ''stream_id'' @ get_str_calls d ''schema_id'' @
     get_u64_calls d ''sequence'' @ get_u64_calls d ''timestamp_ns'' @ [Use] @
     (case d ''payload'' of Some (Py_bytes _) \<Rightarrow> [Use, Use] | _ \<Rightarrow> [])"

section \<open>An invocation\<close>

text \<open>The list of a window takes over the dictionaries; the dictionary of windows does not take over
  the list.\<close>

definition window_calls :: "event list \<Rightarrow> py_call list" where
  "window_calls events = New_ref # concat (map (\<lambda>_. event_calls @ [Give_ref]) events) @ [Use, Drop_ref]"

text \<open>The call of the script, the release of its two arguments, and what is done with the result.\<close>

definition result_calls :: "py_result \<Rightarrow> py_call list" where
  "result_calls res =
     (case res of
        Py_raised \<Rightarrow> [Use, Drop_ref, Drop_ref, Use]
      | Py_not_list \<Rightarrow> [New_ref, Drop_ref, Drop_ref, Drop_ref]
      | Py_list items \<Rightarrow> [New_ref, Drop_ref, Drop_ref] @
          concat (map (\<lambda>item. case item of None \<Rightarrow> [] | Some d \<Rightarrow> pydict_calls d) items) @ [Drop_ref])"

text \<open>The guard takes the lock first and gives it back on every way out. \<open>None\<close> where
  \<open>invoke_snapshot\<close> is undefined.\<close>

definition invoke_calls ::
  "(string \<Rightarrow> bool) \<Rightarrow> (py_dict \<Rightarrow> py_dict list umap \<Rightarrow> py_result) \<Rightarrow> snapshot_input \<Rightarrow> py_call list option" where
  "invoke_calls utf8 on_trigger input =
     (case (event_to_pydict utf8 (si_trigger_event input), py_windows utf8 (si_windows input)) of
        (Some py_trigger, Some windows) \<Rightarrow>
          (case python_output (on_trigger py_trigger windows) of
             None \<Rightarrow> None
           | Some _ \<Rightarrow> Some ([Gil_ensure] @ event_calls @ [New_ref] @
               concat (map (\<lambda>(sid, events). window_calls events) (si_windows input)) @
               result_calls (on_trigger py_trigger windows) @ [Gil_release]))
      | _ \<Rightarrow> None)"

section \<open>The life of a script\<close>

text \<open>The constructor, by what the interpreter answers: \<open>spec_null\<close> is whether a missing
  specification is a null pointer rather than \<^verbatim>\<open>None\<close>, \<open>attr_null\<close> whether there is no
  attribute \<^verbatim>\<open>on_trigger\<close> at all. A constructor that throws releases the lock, and
  what it has stored in its fields stays.\<close>

definition construct_calls :: "python_answers \<Rightarrow> bool \<Rightarrow> bool \<Rightarrow> py_call list" where
  "construct_calls pa spec_null attr_null =
     [Gil_ensure] @
     (if \<not> pa_util pa then [Use, Use]
      else [New_ref, New_ref] @
        (if \<not> pa_spec pa then (if spec_null then [Use, Drop_ref, Drop_ref] else [New_ref, Drop_ref, Drop_ref, Drop_ref])
         else [New_ref, Drop_ref, Drop_ref, New_ref, New_ref, New_ref, Drop_ref, Drop_ref, New_ref, New_ref] @
           (if \<not> pa_exec pa then [Use, Drop_ref, Drop_ref, Drop_ref, Use, Use]
            else [New_ref, Drop_ref, Drop_ref, Drop_ref, Drop_ref, Use] @
              (if pa_callable pa then [New_ref, Use] else if attr_null then [Use] else [New_ref, Use])))) @
     [Gil_release]"

definition destroy_calls :: "py_call list" where
  "destroy_calls = [Gil_ensure, Drop_ref, Drop_ref, Gil_release]"

section \<open>The engine\<close>

definition engine_calls :: "py_call list" where
  "engine_calls = [Initialize, Save_thread]"

definition engine_end_calls :: "py_call list" where
  "engine_end_calls = [Restore_thread, Finalize]"

text \<open>\<^verbatim>\<open>sys.path\<close> is borrowed.\<close>

definition add_to_path_calls :: "py_call list" where
  "add_to_path_calls = [Gil_ensure, Use, New_ref, Use, Drop_ref, Gil_release]"

section \<open>Rows of calls\<close>

lemma interp_run_append:
  "interp_run s (cs @ cs') = (case interp_run s cs of None \<Rightarrow> None | Some s' \<Rightarrow> interp_run s' cs')"
  by (induction cs arbitrary: s) (simp_all split: option.split)

lemma held_simps [simp]: "held [] = 0" "held (cs @ cs') = held cs + held cs'"
  "held (New_ref # cs) = 1 + held cs" "held (Give_ref # cs) = held cs - 1" "held (Drop_ref # cs) = held cs - 1"
  "held (Use # cs) = held cs" "held (Gil_ensure # cs) = held cs" "held (Gil_release # cs) = held cs"
  "held (Initialize # cs) = held cs" "held (Save_thread # cs) = held cs" "held (Restore_thread # cs) = held cs"
  "held (Finalize # cs) = held cs"
  by (simp_all add: held_def)

text \<open>Calls on objects only: they need the lock and leave it as it is.\<close>

definition object_calls :: "py_call list \<Rightarrow> bool" where
  "object_calls cs \<longleftrightarrow> set cs \<subseteq> {New_ref, Give_ref, Drop_ref, Use}"

lemma object_calls_simps [simp]: "object_calls []" "object_calls (c # cs) \<longleftrightarrow> c \<in> {New_ref, Give_ref, Drop_ref, Use} \<and> object_calls cs"
  "object_calls (cs @ cs') \<longleftrightarrow> object_calls cs \<and> object_calls cs'"
  "object_calls (concat css) \<longleftrightarrow> (\<forall>cs \<in> set css. object_calls cs)"
  by (auto simp: object_calls_def)

lemma object_calls_run: "object_calls cs \<Longrightarrow> interp_run (Up (Suc n)) cs = Some (Up (Suc n))"
  by (induction cs) auto

text \<open>A guarded section: the lock is taken, objects are used, the lock is given back.\<close>

lemma guarded_run: "object_calls cs \<Longrightarrow> interp_run (Up n) ([Gil_ensure] @ cs @ [Gil_release]) = Some (Up n)"
  by (simp add: interp_run_append object_calls_run)

lemma event_calls_facts [simp]: "object_calls event_calls" "held event_calls = 7"
  by (simp_all add: event_calls_def numeral_eq_Suc)

lemma get_calls_facts [simp]: "object_calls (get_str_calls d key)" "held (get_str_calls d key) = 0"
  "object_calls (get_u64_calls d key)" "held (get_u64_calls d key) = 0"
  by (simp_all add: get_str_calls_def get_u64_calls_def split: option.split py_value.split)

lemma pydict_calls_facts [simp]: "object_calls (pydict_calls d)" "held (pydict_calls d) = 0"
  by (simp_all add: pydict_calls_def split: option.split py_value.split)

lemma window_calls_facts [simp]: "object_calls (window_calls events)" "held (window_calls events) = 6 * int (length events)"
proof -
  show "object_calls (window_calls events)" by (simp add: window_calls_def)
  have "held (concat (map (\<lambda>_. event_calls @ [Give_ref]) events)) = 6 * int (length events)"
    by (induction events) simp_all
  then show "held (window_calls events) = 6 * int (length events)" by (simp add: window_calls_def)
qed

lemma result_calls_facts [simp]: "object_calls (result_calls res)" "held (result_calls res) = -2"
proof -
  let ?item = "\<lambda>item. case item of None \<Rightarrow> [] | Some d \<Rightarrow> pydict_calls d"
  have i: "object_calls (?item item) \<and> held (?item item) = 0" for item by (cases item) simp_all
  then have h: "held (concat (map ?item items)) = 0" for items by (induction items) simp_all
  show "object_calls (result_calls res)" "held (result_calls res) = -2"
    using i h by (simp_all add: result_calls_def split: py_result.split)
qed

text \<open>The events an invocation is given.\<close>

definition events_given :: "snapshot_input \<Rightarrow> nat" where
  "events_given input = 1 + sum_list (map (\<lambda>(sid, events). length events) (si_windows input))"

lemma held_windows: "held (concat (map (\<lambda>(sid, events). window_calls events) ws)) =
    6 * int (sum_list (map (\<lambda>(sid, events). length events) ws))"
  by (induction ws) (auto simp: algebra_simps)

lemma invoke_calls_facts:
  assumes "invoke_calls utf8 on_trigger input = Some cs"
  shows "interp_run (Up n) cs = Some (Up n)" "held cs = 6 * int (events_given input)"
proof -
  let ?ws = "concat (map (\<lambda>(sid, events). window_calls events) (si_windows input))"
  from assms obtain res where cs: "cs = [Gil_ensure] @ (event_calls @ [New_ref] @ ?ws @ result_calls res) @ [Gil_release]"
    by (auto simp: invoke_calls_def split: option.splits)
  have "object_calls ?ws" by auto
  then show "interp_run (Up n) cs = Some (Up n)" unfolding cs by (intro guarded_run) simp
  show "held cs = 6 * int (events_given input)" by (simp add: cs held_windows events_given_def)
qed

lemma invoke_calls_defined:
  "invoke_calls utf8 on_trigger input = None \<longleftrightarrow> invoke_snapshot utf8 on_trigger input = None"
  by (simp add: invoke_calls_def invoke_snapshot_def split: option.split)

lemma construct_calls_facts:
  "interp_run (Up n) (construct_calls pa spec_null attr_null) = Some (Up n)"
  "held (construct_calls pa spec_null attr_null) =
     (if pa_util pa \<and> pa_spec pa then if pa_exec pa \<and> (pa_callable pa \<or> \<not> attr_null) then 2 else 1 else 0)"
proof -
  show "interp_run (Up n) (construct_calls pa spec_null attr_null) = Some (Up n)"
    unfolding construct_calls_def by (rule guarded_run) simp
  show "held (construct_calls pa spec_null attr_null) =
      (if pa_util pa \<and> pa_spec pa then if pa_exec pa \<and> (pa_callable pa \<or> \<not> attr_null) then 2 else 1 else 0)"
    by (simp add: construct_calls_def)
qed

text \<open>A constructor that throws after the module was made leaks it.\<close>

lemma construct_leaks:
  "python_script path pa = Inl e \<Longrightarrow> pa_util pa \<Longrightarrow> pa_spec pa \<Longrightarrow> 0 < held (construct_calls pa spec_null attr_null)"
  by (simp add: construct_calls_facts)

section \<open>Property\<close>

text \<open>C36. The interpreter is used only while it runs and its lock is held, and references are lost with
  every event. From the start of the engine over its search path, the life of a script with any
  number of invocations, whatever they return or raise, to the engine's end no call is out of
  place and the lock is free at the end of each part; the references never released are six
  for each event that was handed to the script, as trigger or in a window.\<close>

theorem python_calls_guarded:
  assumes "python_script path pa = Inr ()"
    and "list_all2 (\<lambda>(on_trigger, input) cs. invoke_calls utf8 on_trigger input = Some cs) rounds css"
    and "calls = construct_calls pa spec_null attr_null @ concat css @ destroy_calls"
  shows "interp_run Down (engine_calls @ add_to_path_calls @ calls @ engine_end_calls) = Some Down \<and>
    held (engine_calls @ add_to_path_calls @ calls @ engine_end_calls) =
      6 * int (sum_list (map (\<lambda>(on_trigger, input). events_given input) rounds))"
proof -
  have "interp_run (Up 0) (concat css) = Some (Up 0) \<and>
      held (concat css) = 6 * int (sum_list (map (\<lambda>(on_trigger, input). events_given input) rounds))"
    using assms(2)
  proof (induction rounds arbitrary: css)
    case (Cons r rounds)
    then show ?case by (auto simp: list_all2_Cons1 interp_run_append invoke_calls_facts)
  qed simp
  moreover have "pa_util pa \<and> pa_spec pa \<and> pa_exec pa \<and> pa_callable pa"
    using assms(1) by (simp add: python_script_def split: if_splits)
  ultimately show ?thesis
    by (simp add: assms(3) engine_calls_def engine_end_calls_def add_to_path_calls_def destroy_calls_def
        interp_run_append construct_calls_facts)
qed

theorem python_calls_guarded_witness:
  "\<exists>cs. invoke_calls is_ascii (\<lambda>_ _. Py_raised) \<lparr>si_trigger_event = event_default, si_windows = []\<rparr> = Some cs \<and>
     interp_run Down (engine_calls @ add_to_path_calls @
       (construct_calls \<lparr>pa_util = True, pa_spec = True, pa_exec = True, pa_callable = True\<rparr> False False @ concat [cs] @
        destroy_calls) @ engine_end_calls) = Some Down"
proof -
  let ?input = "\<lparr>si_trigger_event = event_default, si_windows = []\<rparr>"
  let ?pa = "\<lparr>pa_util = True, pa_spec = True, pa_exec = True, pa_callable = True\<rparr>"
  have "stream_of event_default = Some []" "schema_of event_default = Some []"
    by (simp_all add: stream_of_def schema_of_def c_read_def default_ids)
  then obtain d where "event_to_pydict is_ascii event_default = Some d"
    by (simp add: event_to_pydict_def is_ascii_def)
  then obtain cs where cs: "invoke_calls is_ascii (\<lambda>_ _. Py_raised) ?input = Some cs"
    by (simp add: invoke_calls_def python_output_def)
  have pa: "python_script [] ?pa = Inr ()" by (simp add: python_script_def)
  have r: "list_all2 (\<lambda>(on_trigger, input) cs. invoke_calls is_ascii on_trigger input = Some cs)
      [(\<lambda>_ _. Py_raised, ?input)] [cs]" using cs by simp
  from python_calls_guarded [OF pa r refl, of False False] cs show ?thesis by blast
qed

end
