(* ===== verification/Passthrough.thy ===== *)
theory Passthrough
  imports Wasm_Laws "HOL-Library.Monad_Syntax"
begin

text \<open>
  The sample script \<^verbatim>\<open>examples/scripts/passthrough.c\<close>: its byte codec, its
  \<^verbatim>\<open>on_trigger\<close>, which copies the trigger event to the stream \<open>wasm_processed\<close>, and
  what the host makes of it. The linear memory is a list of bytes; an access outside it traps,
  the value \<open>None\<close>. String literals are taken as constants.
\<close>

section \<open>The codec\<close>

definition c_r64 :: "u8 list \<Rightarrow> u64" where
  "c_r64 p = ((((((ucast (p ! 0) OR push_bit 8 (ucast (p ! 1))) OR push_bit 16 (ucast (p ! 2))) OR
     push_bit 24 (ucast (p ! 3))) OR push_bit 32 (ucast (p ! 4))) OR push_bit 40 (ucast (p ! 5))) OR
     push_bit 48 (ucast (p ! 6))) OR push_bit 56 (ucast (p ! 7))"

definition c_r32 :: "u8 list \<Rightarrow> u32" where
  "c_r32 p = ((ucast (p ! 0) OR push_bit 8 (ucast (p ! 1))) OR push_bit 16 (ucast (p ! 2))) OR
     push_bit 24 (ucast (p ! 3))"

definition c_r16 :: "u8 list \<Rightarrow> u16" where
  "c_r16 p = ucast (ucast (p ! 0) OR push_bit 8 (ucast (p ! 1)) :: u32)"

definition c_w64 :: "u64 \<Rightarrow> u8 list" where
  "c_w64 v = put_le 8 v"

definition c_w32 :: "u32 \<Rightarrow> u8 list" where
  "c_w32 v = put_le 4 v"

definition c_w16 :: "u16 \<Rightarrow> u8 list" where
  "c_w16 v = [ucast (v AND 255), ucast (drop_bit 8 v AND 255)]"

section \<open>The memory\<close>

definition mem_load :: "u8 list \<Rightarrow> nat \<Rightarrow> nat \<Rightarrow> u8 list option" where
  "mem_load mem p n = (if p + n \<le> length mem then Some (take n (drop p mem)) else None)"

definition mem_store :: "nat \<Rightarrow> u8 list \<Rightarrow> u8 list \<Rightarrow> u8 list option" where
  "mem_store p bs mem =
     (if p + length bs \<le> length mem then Some (take p mem @ bs @ drop (p + length bs) mem) else None)"

text \<open>The copy goes byte by byte, so that a copy over itself behaves as in the code.\<close>

fun mc :: "nat \<Rightarrow> nat \<Rightarrow> nat \<Rightarrow> u8 list \<Rightarrow> u8 list option" where
  "mc d s 0 mem = Some mem"
| "mc d s (Suc n) mem = do { x \<leftarrow> mem_load mem s 1; mem \<leftarrow> mem_store d x mem; mc (Suc d) (Suc s) n mem }"

text \<open>A literal is copied into a field of \<open>n\<close> bytes and the rest of the field zeroed.\<close>

definition put_name :: "nat \<Rightarrow> string \<Rightarrow> nat \<Rightarrow> u8 list \<Rightarrow> u8 list option" where
  "put_name p name n mem = do {
     mem \<leftarrow> mem_store p (bytes_of name) mem;
     mem_store (p + length name) (replicate (n - length name) 0) mem }"

section \<open>The handler\<close>

text \<open>\<open>now\<close> is what \<^verbatim>\<open>host_time_ns\<close> returns; the latency computed from it is not
  used. The result is \<^verbatim>\<open>int\<close> as the host reads it, so that \<open>-1\<close> is all ones.\<close>

definition on_trigger :: "u64 \<Rightarrow> u32 \<Rightarrow> u32 \<Rightarrow> u32 \<Rightarrow> u32 \<Rightarrow> u8 list \<Rightarrow> (u32 \<times> u8 list) option" where
  "on_trigger now in_ptr in_len out_ptr out_max mem =
     (let inp = unat in_ptr; out = unat out_ptr;
          stream_id = inp + 22; schema_id = stream_id + STREAM_ID_MAX; payload = schema_id + SCHEMA_ID_MAX in
      do {
        ts \<leftarrow> map_option c_r64 (mem_load mem inp 8);
        seq \<leftarrow> map_option c_r64 (mem_load mem (inp + 8) 8);
        lineage \<leftarrow> map_option c_r32 (mem_load mem (inp + 16) 4);
        plen \<leftarrow> map_option c_r16 (mem_load mem (inp + 20) 2);
        if unat plen > PAYLOAD_MAX then Some (-1, mem)
        else (let header_size = 4 + 8 + 8 + 4 + 2;
                  total_needed = header_size + STREAM_ID_MAX + SCHEMA_ID_MAX + unat plen in
          if unat out_max < total_needed then Some (-1, mem)
          else do {
            payload_ts \<leftarrow> (if 8 \<le> plen then map_option c_r64 (mem_load mem payload 8) else Some 0);
            let latency_ns = now - payload_ts;
            mem \<leftarrow> mem_store out (c_w32 1) mem;
            mem \<leftarrow> mem_store (out + 4) (c_w64 ts) mem;
            mem \<leftarrow> mem_store (out + 12) (c_w64 seq) mem;
            mem \<leftarrow> mem_store (out + 20) (c_w32 lineage) mem;
            mem \<leftarrow> mem_store (out + 24) (c_w16 plen) mem;
            mem \<leftarrow> put_name (out + 26) ''wasm_processed'' STREAM_ID_MAX mem;
            mem \<leftarrow> put_name (out + 26 + STREAM_ID_MAX) ''wasm_v1'' SCHEMA_ID_MAX mem;
            mem \<leftarrow> mc (out + 26 + STREAM_ID_MAX + SCHEMA_ID_MAX) payload (unat plen) mem;
            Some (of_nat (26 + STREAM_ID_MAX + SCHEMA_ID_MAX + unat plen), mem)
          })
      })"

section \<open>The codec agrees with the host's\<close>

lemma c_r64_eq: "reads_le 8 p (c_r64 p)"
  using reads_le_foldl [of 8 p, where 'a = 64] by (simp add: c_r64_def numeral_eq_Suc)

lemma reads_le_unique:
  "8 * n = LENGTH('a) \<Longrightarrow> reads_le n p v \<Longrightarrow> reads_le n p w \<Longrightarrow> v = (w :: 'a::len word)"
  by (rule bit_word_eqI) (simp add: reads_le_def)

lemma codec_eqs: "c_r64 = r64" "c_r32 = r32" "c_r16 = r16" "c_w64 = w64_ptr" "c_w32 = w32_ptr" "c_w16 = w16_ptr"
proof -
  show "c_r64 = r64"
    by (rule ext, rule reads_le_unique [OF _ c_r64_eq]) (simp_all add: r64_def reads_le_down)
  show "c_w16 = w16_ptr" using w16_eq by (intro ext) (simp add: c_w16_def w16_def)
  show "c_r32 = r32" "c_r16 = r16" "c_w64 = w64_ptr" "c_w32 = w32_ptr"
    by (intro ext, simp add: c_r32_def r32_def c_r16_def r16_def c_w64_def w64_ptr_def c_w32_def w32_ptr_eq)+
qed

text \<open>The sample script and the host agree on the bytes of an integer: whatever the buffer,
  the script's three readers compute what the host's readers compute, and its writers write
  what the host's writers write, although the one side is written as loops and the other
  written out.\<close>

theorem script_codec_agrees:
  "c_r64 p = r64 p \<and> c_r32 p = r32 p \<and> c_r16 p = r16 p \<and>
   c_w64 v = w64_ptr v \<and> c_w32 x = w32_ptr x \<and> c_w16 y = w16_ptr y"
  by (simp add: codec_eqs)

section \<open>Runs of the handler\<close>

lemma length_c_codec [simp]: "length (c_w64 v) = 8" "length (c_w32 x) = 4" "length (c_w16 y) = 2"
  by (simp_all add: c_w64_def c_w32_def c_w16_def)

text \<open>Stores that follow each other are one store.\<close>

lemma store_then:
  assumes "q = p + length a"
  shows "Option.bind (mem_store p a mem) (\<lambda>m. Option.bind (mem_store q b m) f) =
    Option.bind (mem_store p (a @ b) mem) f"
  using assms by (simp add: mem_store_def ac_simps)

lemma store_store: "Option.bind (mem_store p a mem) (mem_store (p + length a) b) = mem_store p (a @ b) mem"
  using store_then [of "p + length a" p a mem b Some] by simp

lemma load_store:
  "mem_store p bs mem = Some m \<Longrightarrow> s + n \<le> p \<Longrightarrow> take n (drop s m) = take n (drop s mem)"
  by (auto simp: mem_store_def take_drop min_def split: if_splits)

lemma mc_disjoint:
  "s + n \<le> d \<Longrightarrow> d + n \<le> length mem \<Longrightarrow> mc d s n mem = mem_store d (take n (drop s mem)) mem"
proof (induction n arbitrary: d s mem)
  case 0
  then show ?case by (simp add: mem_store_def)
next
  case (Suc n)
  let ?x = "take 1 (drop s mem)"
  have x: "length ?x = 1" "mem_load mem s 1 = Some ?x" using Suc.prems by (simp_all add: mem_load_def)
  obtain m where m: "mem_store d ?x mem = Some m" using Suc.prems x by (simp add: mem_store_def)
  then have len: "length m = length mem" using Suc.prems x by (auto simp: mem_store_def split: if_splits)
  have "take n (drop (Suc s) m) = take n (drop (Suc s) mem)" by (rule load_store [OF m]) (use Suc.prems in simp)
  with Suc.IH [of "Suc s" "Suc d" m] Suc.prems len
  have "mc (Suc d) (Suc s) n m = mem_store (Suc d) (take n (drop (Suc s) mem)) m" by simp
  also have "\<dots> = mem_store d (?x @ take n (drop (Suc s) mem)) mem"
    using store_store [of d ?x mem "take n (drop (Suc s) mem)"] by (simp only: m bind.bind_lunit x) simp
  also have "?x @ take n (drop (Suc s) mem) = take (Suc n) (drop s mem)"
    using take_add [of 1 n "drop s mem"] by simp
  finally show ?case by (simp only: mc.simps x m bind.bind_lunit)
qed

text \<open>The event the script makes of its trigger.\<close>

definition processed :: "event \<Rightarrow> event" where
  "processed e = e\<lparr>ev_stream_id := ''wasm_processed'' @ replicate 18 NUL, ev_schema_id := ''wasm_v1'' @ replicate 9 NUL\<rparr>"

lemma processed_ok:
  assumes "event_ok e"
  shows "event_ok (processed e)" "payload_of (processed e) = payload_of e"
    "bytes_of (''wasm_processed'') @ replicate (32 - length ''wasm_processed'') 0 = bytes_of (ev_stream_id (processed e))"
    "bytes_of (''wasm_v1'') @ replicate (16 - length ''wasm_v1'') 0 = bytes_of (ev_schema_id (processed e))"
proof -
  have "byte_of_char NUL = 0" by (simp add: byte_of_char_def)
  then show "bytes_of (''wasm_processed'') @ replicate (32 - length ''wasm_processed'') 0 = bytes_of (ev_stream_id (processed e))"
    "bytes_of (''wasm_v1'') @ replicate (16 - length ''wasm_v1'') 0 = bytes_of (ev_schema_id (processed e))"
    by (simp_all add: processed_def bytes_of_def)
  show "event_ok (processed e)" "payload_of (processed e) = payload_of e"
    using assms by (simp_all add: processed_def event_ok_def event_shape_def event_sizes payload_of_def)
qed

lemma load_fields:
  assumes "event_ok e"
  shows "mem_load (wev_ptr e @ rest) 0 8 = Some (w64_ptr (ev_timestamp_ns e))"
    "mem_load (wev_ptr e @ rest) 8 8 = Some (w64_ptr (ev_sequence e))"
    "mem_load (wev_ptr e @ rest) 16 4 = Some (w32_ptr (ev_lineage_depth e))"
    "mem_load (wev_ptr e @ rest) 20 2 = Some (w16_ptr (ev_payload_size e))"
    "take (unat (ev_payload_size e)) (drop 70 (wev_ptr e @ rest)) = payload_of e"
  using wev_ptr_eq [OF assms] by (simp_all add: mem_load_def wev_head_def)

lemma on_trigger_result:
  assumes ok: "event_ok e" and mem: "mem = wev_ptr e @ rest"
    and room: "length (wev_ptr e) \<le> unat outp" "unat outp + 4 + length (wev_ptr e) \<le> length mem"
    and max: "4 + length (wev_ptr e) \<le> unat out_max"
  shows "on_trigger now 0 n outp out_max mem =
    map_option (Pair (of_nat (4 + length (wev_ptr e)))) (mem_store (unat outp) (w32_ptr 1 @ wev_ptr (processed e)) mem)"
proof -
  let ?sz = "unat (ev_payload_size e)"
  note w = wev_ptr_eq [OF ok] and len = length_wev_ptr [OF ok]
  note loads = load_fields [OF ok, of rest, folded mem]
  have ts: "\<exists>t. (if 8 \<le> ev_payload_size e then map_option r64 (mem_load mem 70 8) else Some 0) = Some t"
    using room len by (simp add: mem_load_def word_le_nat_alt)
  let ?head = "w32_ptr 1 @ w64_ptr (ev_timestamp_ns e) @ w64_ptr (ev_sequence e) @ w32_ptr (ev_lineage_depth e) @
    w16_ptr (ev_payload_size e) @ bytes_of (ev_stream_id (processed e)) @ bytes_of (ev_schema_id (processed e))"
  have head: "length ?head = 74" "?head @ payload_of e = w32_ptr 1 @ wev_ptr (processed e)"
    using wev_ptr_eq [OF processed_ok(1) [OF ok]]
    by (simp_all add: wev_head_def processed_ok(2) [OF ok]) (simp_all add: processed_def)
  obtain m where m: "mem_store (unat outp) ?head mem = Some m" using room len head by (simp add: mem_store_def)
  then have lm: "length m = length mem" using room len head(1) by (auto simp: mem_store_def split: if_splits)
  have "take ?sz (drop 70 m) = payload_of e"
    using load_store [OF m, of 70 ?sz] room len loads(5) by simp
  with mc_disjoint [of 70 ?sz "unat outp + 74" m] room len lm
  have mc: "mc (unat outp + 74) 70 ?sz m = mem_store (unat outp + 74) (payload_of e) m" by simp
  obtain t where t: "(if 8 \<le> ev_payload_size e then map_option r64 (mem_load mem 70 8) else Some 0) = Some t"
    using ts by blast
  have cond: "\<not> PAYLOAD_MAX < ?sz" "\<not> unat out_max < 4 + 8 + 8 + 4 + 2 + 32 + 16 + ?sz"
    using w(5) max len by simp_all
  have names: "bytes_of (ev_stream_id (processed e)) = bytes_of ''wasm_processed'' @ replicate 18 0"
    "bytes_of (ev_schema_id (processed e)) = bytes_of ''wasm_v1'' @ replicate 9 0"
    using processed_ok(3,4) [OF ok] by simp_all
  have "on_trigger now 0 n outp out_max mem = Option.bind (mem_store (unat outp) ?head mem)
      (\<lambda>m. Option.bind (mc (unat outp + 74) 70 ?sz m) (\<lambda>m. Some (of_nat (74 + ?sz), m)))"
    using cond t
    by (cases "8 \<le> ev_payload_size e")
      (auto simp: on_trigger_def codec_eqs put_name_def loads wasm64.get_put_alone wasm32.get_put_alone
        wasm16.get_put_alone event_sizes store_then Let_def names ac_simps)
  also have "\<dots> = map_option (Pair (of_nat (74 + ?sz))) (mem_store (unat outp + 74) (payload_of e) m)"
    by (cases "mem_store (unat outp + 74) (payload_of e) m") (simp_all add: m mc)
  also have "mem_store (unat outp + 74) (payload_of e) m = mem_store (unat outp) (?head @ payload_of e) mem"
    using store_store [of "unat outp" ?head mem "payload_of e"] by (simp only: m bind.bind_lunit head(1))
  finally show ?thesis by (simp only: head(2) len add.assoc [symmetric]) simp
qed

section \<open>The script in the host\<close>

text \<open>The memory after the script has run on an input that fits, and what the host reads there.\<close>

lemma passthrough_call:
  fixes now :: u64
  assumes "event_ok (zi_trigger_event input)" "IO_BUF_SIZE * 2 \<le> length mem"
    and "length (input_bytes reg input) \<le> IO_BUF_SIZE"
  obtains w mem' where
    "on_trigger now 0 (of_nat (length (input_bytes reg input))) (of_nat IO_BUF_SIZE) (of_nat IO_BUF_SIZE)
       (input_bytes reg input @ drop (length (input_bytes reg input)) mem) = Some (w, mem')"
    "w \<noteq> 0" "unat w \<le> IO_BUF_SIZE" "length mem' = length mem"
    "drop IO_BUF_SIZE mem' = w32_ptr 1 @ wev_ptr (processed (zi_trigger_event input)) @
       drop (IO_BUF_SIZE + (4 + length (wev_ptr (zi_trigger_event input)))) mem"
    "parse_output (drop IO_BUF_SIZE mem') = Some [with_payload
       (take (unat (ev_payload_size (zi_trigger_event input)))
         (drop 16 (payload_of (zi_trigger_event input) @
           drop (IO_BUF_SIZE + (4 + length (wev_ptr (zi_trigger_event input)))) mem)))
       (processed (zi_trigger_event input))]"
proof -
  let ?e = "zi_trigger_event input" and ?bytes = "input_bytes reg input"
  let ?m0 = "?bytes @ drop (length ?bytes) mem"
  let ?n = "length (wev_ptr ?e)" and ?rest = "drop (IO_BUF_SIZE + (4 + length (wev_ptr ?e))) mem"
  have n: "?n = 70 + unat (ev_payload_size ?e)" "?n \<le> 326" "length (wev_ptr (processed ?e)) = ?n"
    using length_wev_ptr [OF assms(1)] wev_ptr_eq(5) [OF assms(1)] length_wev_ptr [OF processed_ok(1) [OF assms(1)]]
    by (simp_all add: event_sizes processed_def)
  have buf: "unat (of_nat IO_BUF_SIZE :: u32) = IO_BUF_SIZE" "IO_BUF_SIZE = 65536"
    by (simp_all add: IO_BUF_SIZE_def)
  have m0: "?m0 = wev_ptr ?e @ drop ?n ?m0" "length ?m0 = length mem"
    using assms(2,3) buf by (simp_all add: input_bytes_def)
  obtain w :: u32 where w: "w = of_nat (4 + ?n)" "unat w = 4 + ?n"
    using n(2) by (simp only: unat_of_nat mod_less) simp
  let ?out = "w32_ptr 1 @ wev_ptr (processed ?e)"
  let ?mem' = "take IO_BUF_SIZE ?m0 @ ?out @ drop (IO_BUF_SIZE + (4 + ?n)) ?m0"
  have fits: "IO_BUF_SIZE + length ?out \<le> length ?m0" using assms(2) n buf m0(2) by simp
  have run: "on_trigger now 0 (of_nat (length ?bytes)) (of_nat IO_BUF_SIZE) (of_nat IO_BUF_SIZE) ?m0 = Some (w, ?mem')"
    unfolding w(1)
    by (subst on_trigger_result [OF assms(1) m0(1)]) (use buf n assms(2) m0(2) fits in \<open>simp_all add: mem_store_def\<close>)
  have d: "drop IO_BUF_SIZE ?mem' = ?out @ ?rest"
    using assms(2,3) buf by simp
  have "parse_output (?out @ ?rest) = Some (displaced [processed ?e] ?rest)"
    using parse_out_wev [of "[processed ?e]" ?rest] processed_ok(1) [OF assms(1)] assms(2) n buf
    by (simp add: parse_output_def wasm32.get_put)
  then have out: "parse_output (drop IO_BUF_SIZE ?mem') = Some [with_payload
      (take (unat (ev_payload_size ?e)) (drop 16 (payload_of ?e @ ?rest))) (processed ?e)]"
    unfolding d by (simp add: processed_ok(2) [OF assms(1)]) (simp add: processed_def)
  have w': "w \<noteq> 0" "unat w \<le> IO_BUF_SIZE" using w n(2) buf by (auto simp: unat_eq_0 [symmetric])
  have len: "length ?mem' = length mem" using fits m0(2) assms(2,3) n buf by simp
  have d': "drop IO_BUF_SIZE ?mem' = w32_ptr 1 @ wev_ptr (processed ?e) @ ?rest" using d by simp
  show thesis by (rule that [OF run w' len d' out])
qed

text \<open>What the sample script does in the pipeline. Called by the host on a trigger event that
  fits the buffer with its windows, the script emits one event with the trigger's time,
  sequence number and depth, the stream \<open>wasm_processed\<close> and the schema \<open>wasm_v1\<close>; its payload
  is not the trigger's but that without its first 16 bytes, filled up with what the memory
  held after the output, because the host reads the payload 16 bytes too far.\<close>

theorem passthrough_in_host:
  fixes now :: u64
  defines "call \<equiv> \<lambda>m n. on_trigger now 0 n (of_nat IO_BUF_SIZE) (of_nat IO_BUF_SIZE) m"
  assumes "event_ok (zi_trigger_event input)" "IO_BUF_SIZE * 2 \<le> length mem"
    and "length (input_bytes reg input) \<le> IO_BUF_SIZE"
  shows "invoke_zero_copy call (Some mem) reg input = Some [with_payload
    (take (unat (ev_payload_size (zi_trigger_event input)))
      (drop 16 (payload_of (zi_trigger_event input) @
        drop (IO_BUF_SIZE + (4 + length (wev_ptr (zi_trigger_event input)))) mem)))
    (processed (zi_trigger_event input))]"
proof -
  obtain w mem' where "call (input_bytes reg input @ drop (length (input_bytes reg input)) mem)
      (of_nat (length (input_bytes reg input))) = Some (w, mem')" "w \<noteq> 0" "unat w \<le> IO_BUF_SIZE" "length mem' = length mem"
    "parse_output (drop IO_BUF_SIZE mem') = Some [with_payload
       (take (unat (ev_payload_size (zi_trigger_event input)))
         (drop 16 (payload_of (zi_trigger_event input) @
           drop (IO_BUF_SIZE + (4 + length (wev_ptr (zi_trigger_event input)))) mem)))
       (processed (zi_trigger_event input))]"
    unfolding call_def by (rule passthrough_call [OF assms(2-4)]) blast
  then show ?thesis using assms(3,4) by (simp add: invoke_zero_copy_def Let_def)
qed

theorem passthrough_in_host_witness:
  "invoke_zero_copy (\<lambda>m n. on_trigger 5 0 n (of_nat IO_BUF_SIZE) (of_nat IO_BUF_SIZE) m)
     (Some (replicate (IO_BUF_SIZE * 2) 0)) registry_new \<lparr>zi_trigger_event = sevens_event, zi_windows = []\<rparr> =
     Some [with_payload [0, 0] (processed sevens_event)]"
proof -
  have ok: "event_ok sevens_event" by (simp add: sevens_event_def event_ok_default)
  have pl: "payload_of sevens_event = [1, 2]" by (simp add: sevens_event_def payload_of_set_payload PAYLOAD_MAX_def)
  have sz: "ev_payload_size sevens_event = 2" by (simp add: sevens_event_def set_payload_def PAYLOAD_MAX_def)
  have len: "length (wev_ptr sevens_event) = 72" by (simp add: length_wev_ptr [OF ok] sz)
  have two: "replicate 2 (0 :: u8) = [0, 0]" by (simp add: numeral_2_eq_2)
  show ?thesis
    using passthrough_in_host [of "\<lparr>zi_trigger_event = sevens_event, zi_windows = []\<rparr>" "replicate (IO_BUF_SIZE * 2) 0" registry_new 5]
    by (simp add: ok pl sz len input_bytes_def IO_BUF_SIZE_def two)
qed

end
