(* ===== verification/Wasm_Host.thy ===== *)
theory Wasm_Host
  imports Passthrough Python_Marshal
begin

text \<open>
  The script objects of \<^verbatim>\<open>executor/i_script.hpp\<close> as the pipeline calls them, the
  functions a WASM script can call in the host, and a WASM script over many invocations: its
  memory stays, so that what one event leaves there is there for the next.
\<close>

section \<open>Functions of the host\<close>

text \<open>Nanoseconds since the epoch, as the clock counts them.\<close>

definition host_time_ns :: "int \<Rightarrow> u64" where
  "host_time_ns now = of_int now"

text \<open>The argument is an offset into the script's memory; the line is read up to a NUL, wherever it
  is: without one before the end of the memory the read runs over it, \<open>None\<close>.\<close>

definition host_log :: "u8 list \<Rightarrow> u32 \<Rightarrow> string \<Rightarrow> string option" where
  "host_log mem ptr cout =
     map_option (\<lambda>str. cout @ ''[wasm] '' @ str @ [CHR 0x0A]) (c_read (chars_of (drop (unat ptr) mem)))"

lemma host_log_runs_over: "NUL \<notin> set (chars_of (drop (unat ptr) mem)) \<Longrightarrow> host_log mem ptr cout = None"
  by (simp add: host_log_def c_read_def)

section \<open>An invocation\<close>

text \<open>What the interpreter does with the exported function: its result, nothing for a trap, and
  the memory afterwards.\<close>

type_synonym wasm_fn = "u8 list \<Rightarrow> u32 \<Rightarrow> u32 option \<times> u8 list"

definition invoke_in_memory ::
  "wasm_fn \<Rightarrow> u8 list option \<Rightarrow> registry \<Rightarrow> zero_copy_input \<Rightarrow> (event list \<times> u8 list option) option" where
  "invoke_in_memory call memory reg input =
     (case memory of
        None \<Rightarrow> Some ([], None)
      | Some mem \<Rightarrow>
          if length mem < IO_BUF_SIZE * 2 then Some ([], Some mem)
          else let bytes = input_bytes reg input; mem1 = bytes @ drop (length bytes) mem in
            if length bytes > length mem then None
            else if length bytes > IO_BUF_SIZE then Some ([], Some mem1)
            else (case call mem1 (of_nat (length bytes)) of
                    (None, mem2) \<Rightarrow> Some ([], Some mem2)
                  | (Some written, mem2) \<Rightarrow>
                      if written = 0 \<or> unat written > IO_BUF_SIZE then Some ([], Some mem2)
                      else if length mem2 \<noteq> length mem then None
                      else map_option (\<lambda>evs. (evs, Some mem2)) (parse_output (drop IO_BUF_SIZE mem2))))"

text \<open>Its events are those of \<open>invoke_zero_copy\<close>.\<close>

definition returning :: "wasm_fn \<Rightarrow> u8 list \<Rightarrow> u32 \<Rightarrow> (u32 \<times> u8 list) option" where
  "returning call mem n = (case call mem n of (None, mem') \<Rightarrow> None | (Some w, mem') \<Rightarrow> Some (w, mem'))"

lemma invoke_in_memory_events:
  "map_option fst (invoke_in_memory call memory reg input) = invoke_zero_copy (returning call) memory reg input"
proof (cases memory)
  case None
  then show ?thesis by (simp add: invoke_in_memory_def invoke_zero_copy_def)
next
  case (Some mem)
  let ?b = "input_bytes reg input"
  obtain res mem2 where c: "call (?b @ drop (length ?b) mem) (of_nat (length ?b)) = (res, mem2)" by fastforce
  show ?thesis
    by (cases res; cases "parse_output (drop IO_BUF_SIZE mem2)")
      (simp_all add: invoke_in_memory_def invoke_zero_copy_def returning_def Let_def Some c)
qed

section \<open>Script objects\<close>

text \<open>A script of either kind. What the interpreters hold is a parameter: the exported WASM function
  with its memory, or the Python callable with the interpreter's idea of UTF-8.\<close>

record wasm_object =
  wm_id :: string
  wm_fn :: wasm_fn
  wm_memory :: "u8 list option"

record python_object =
  py_id :: string
  py_utf8 :: "string \<Rightarrow> bool"
  py_on_trigger :: "py_dict \<Rightarrow> py_dict list umap \<Rightarrow> py_result"

datatype script_object = Wasm_script wasm_object | Python_script python_object

fun script_id :: "script_object \<Rightarrow> string" where
  "script_id (Wasm_script w) = wm_id w"
| "script_id (Python_script p) = py_id p"

fun script_runtime :: "script_object \<Rightarrow> string" where
  "script_runtime (Wasm_script w) = ''wasm''"
| "script_runtime (Python_script p) = ''python''"

fun object_mode :: "script_object \<Rightarrow> script_mode" where
  "object_mode (Wasm_script w) = ZeroCopy"
| "object_mode (Python_script p) = Snapshot"

text \<open>The virtual calls. The class of WASM scripts overrides both methods, the one that it does not
  use with an empty result; that of Python scripts leaves \<^verbatim>\<open>invoke_zero_copy\<close> as in the
  interface, which gives the same.\<close>

fun call_zero_copy :: "registry \<Rightarrow> zero_copy_input \<Rightarrow> script_object \<Rightarrow> (event list \<times> script_object) option" where
  "call_zero_copy reg input (Wasm_script w) =
     map_option (\<lambda>(evs, mem). (evs, Wasm_script (w\<lparr>wm_memory := mem\<rparr>)))
       (invoke_in_memory (wm_fn w) (wm_memory w) reg input)"
| "call_zero_copy reg input (Python_script p) = Some ([], Python_script p)"

fun call_snapshot :: "snapshot_input \<Rightarrow> script_object \<Rightarrow> (event list \<times> script_object) option" where
  "call_snapshot input (Wasm_script w) = Some ([], Wasm_script w)"
| "call_snapshot input (Python_script p) =
     map_option (\<lambda>evs. (evs, Python_script p)) (invoke_snapshot (py_utf8 p) (py_on_trigger p) input)"

section \<open>Many invocations\<close>

text \<open>One round after the other on the same memory. The function may differ from round to round, as
  its answers depend on the clock.\<close>

fun wasm_run ::
  "(wasm_fn \<times> registry \<times> zero_copy_input) list \<Rightarrow> u8 list option \<Rightarrow> (event list list \<times> u8 list option) option" where
  "wasm_run [] memory = Some ([], memory)"
| "wasm_run ((call, reg, input) # rounds) memory =
     (case invoke_in_memory call memory reg input of
        None \<Rightarrow> None
      | Some (evs, memory') \<Rightarrow> map_option (\<lambda>(outs, m). (evs # outs, m)) (wasm_run rounds memory'))"

text \<open>A function that runs the sample script at some time; what it does on a trap is open.\<close>

definition runs_sample :: "wasm_fn \<Rightarrow> bool" where
  "runs_sample call \<longleftrightarrow> (\<exists>now. \<forall>mem n w mem'.
     on_trigger now 0 n (of_nat IO_BUF_SIZE) (of_nat IO_BUF_SIZE) mem = Some (w, mem') \<longrightarrow> call mem n = (Some w, mem'))"

text \<open>What the sample script emits for a row of events, where \<open>behind\<close> is what the memory holds
  from the place of the payload on: each payload overwrites the front of it and is read from its
  byte 16 on.\<close>

fun carried :: "u8 list \<Rightarrow> event list \<Rightarrow> event list" where
  "carried behind [] = []"
| "carried behind (e # es) =
     (let n = unat (ev_payload_size e); behind' = payload_of e @ drop n behind
      in with_payload (take n (drop 16 behind')) (processed e) # carried behind' es)"

lemma length_carried [simp]: "length (carried behind es) = length es"
  by (induction es arbitrary: behind) (simp_all add: Let_def)

lemma payload_carried:
  assumes "event_ok e" "n = unat (ev_payload_size e)" "n + 16 \<le> length behind"
  shows "payload_of (with_payload (take n (drop 16 behind)) (processed e)) = take n (drop 16 behind)"
  using assms by (simp add: payload_of_def with_payload_def processed_def)

lemma carried_leaks:
  assumes "Suc i < length es" "\<forall>e \<in> set es. event_ok e"
    and "16 \<le> ev_payload_size (es ! Suc i)" "unat (ev_payload_size (es ! Suc i)) + 16 \<le> unat (ev_payload_size (es ! i))"
  shows "payload_of (carried behind es ! Suc i) = drop 16 (payload_of (es ! Suc i)) @
    take 16 (drop (unat (ev_payload_size (es ! Suc i))) (payload_of (es ! i)))"
  using assms
proof (induction i arbitrary: behind es)
  case 0
  then obtain e1 e2 es' where es: "es = e1 # e2 # es'" by (cases es rule: remdups_adj.cases) simp_all
  let ?n = "unat (ev_payload_size e2)"
  have ok: "event_ok e1" "event_ok e2" using 0 by (simp_all add: es)
  have len: "length (payload_of e1) = unat (ev_payload_size e1)" "length (payload_of e2) = ?n"
    using wev_ptr_eq(4) ok by blast+
  have n: "16 \<le> ?n" "?n + 16 \<le> unat (ev_payload_size e1)" using 0 by (simp_all add: es word_le_nat_alt)
  show ?case
    using payload_carried [OF ok(2) refl, of "payload_of e2 @ drop ?n (payload_of e1 @ drop (unat (ev_payload_size e1)) behind)"] n len
    by (simp add: es Let_def)
next
  case (Suc i)
  then obtain e es' where es: "es = e # es'" by (cases es) simp_all
  with Suc show ?case by (simp add: Let_def)
qed

text \<open>Short events: the bytes that come back are never written.\<close>

lemma carried_short:
  assumes "\<forall>e \<in> set es. event_ok e \<and> ev_payload_size e \<le> 16"
  shows "carried behind es = map (\<lambda>e. with_payload (take (unat (ev_payload_size e)) (drop 16 behind)) (processed e)) es"
  using assms
proof (induction es arbitrary: behind)
  case (Cons e es)
  let ?n = "unat (ev_payload_size e)"
  have "length (payload_of e) = ?n" "?n \<le> 16" using Cons.prems wev_ptr_eq(4) [of e] by (simp_all add: word_le_nat_alt)
  then have "drop 16 (payload_of e @ drop ?n behind) = drop 16 behind" by simp
  with Cons show ?case by (simp add: Let_def del: drop_append)
qed simp

lemma sample_round:
  assumes "runs_sample call" "event_ok (zi_trigger_event input)" "IO_BUF_SIZE * 2 \<le> length mem"
    and "length (input_bytes reg input) \<le> IO_BUF_SIZE"
  obtains mem' where "invoke_in_memory call (Some mem) reg input = Some (carried (drop (IO_BUF_SIZE + 74) mem) [zi_trigger_event input], Some mem')"
    "length mem' = length mem"
    "drop (IO_BUF_SIZE + 74) mem' = payload_of (zi_trigger_event input) @
       drop (unat (ev_payload_size (zi_trigger_event input))) (drop (IO_BUF_SIZE + 74) mem)"
proof -
  let ?e = "zi_trigger_event input"
  from assms(1) obtain now where now: "\<And>mem n w mem'. on_trigger now 0 n (of_nat IO_BUF_SIZE) (of_nat IO_BUF_SIZE) mem = Some (w, mem') \<Longrightarrow>
    call mem n = (Some w, mem')" by (auto simp: runs_sample_def)
  have len: "length (wev_ptr ?e) = 70 + unat (ev_payload_size ?e)" by (rule length_wev_ptr [OF assms(2)])
  obtain w mem' where p: "on_trigger now 0 (of_nat (length (input_bytes reg input))) (of_nat IO_BUF_SIZE) (of_nat IO_BUF_SIZE)
       (input_bytes reg input @ drop (length (input_bytes reg input)) mem) = Some (w, mem')"
    "w \<noteq> 0" "unat w \<le> IO_BUF_SIZE" "length mem' = length mem"
    "drop IO_BUF_SIZE mem' = w32_ptr 1 @ wev_ptr (processed ?e) @ drop (IO_BUF_SIZE + (4 + length (wev_ptr ?e))) mem"
    "parse_output (drop IO_BUF_SIZE mem') = Some [with_payload (take (unat (ev_payload_size ?e))
       (drop 16 (payload_of ?e @ drop (IO_BUF_SIZE + (4 + length (wev_ptr ?e))) mem))) (processed ?e)]"
    by (rule passthrough_call [OF assms(2-4)])
  have "drop (IO_BUF_SIZE + 74) mem' = drop 74 (drop IO_BUF_SIZE mem')" by (simp add: add.commute)
  also have "\<dots> = payload_of ?e @ drop (unat (ev_payload_size ?e)) (drop (IO_BUF_SIZE + 74) mem)"
    unfolding p(5) using wev_ptr_eq [OF processed_ok(1) [OF assms(2)]] processed_ok(2) [OF assms(2)]
    by (simp add: len ac_simps)
  finally have d: "drop (IO_BUF_SIZE + 74) mem' = \<dots>" .
  have "invoke_in_memory call (Some mem) reg input = Some (carried (drop (IO_BUF_SIZE + 74) mem) [?e], Some mem')"
    using assms(3,4) p(2-4,6) by (simp add: invoke_in_memory_def Let_def now [OF p(1)] len ac_simps)
  with d p(4) show thesis by (intro that)
qed

section \<open>Property\<close>

text \<open>C35. What the sample script hands on over any number of rounds. Its memory stays from round to
  round, and the host reads each payload 16 bytes too far: the payload of an emitted event is the
  end of the trigger's payload followed by what an earlier, longer event left in the memory. So
  when an event of at least 16 bytes follows one that is at least 16 bytes longer, its copy ends
  with 16 bytes of the earlier event.\<close>

theorem sample_carries_payloads:
  assumes "\<forall>(call, reg, input) \<in> set rounds. runs_sample call \<and> event_ok (zi_trigger_event input) \<and>
       length (input_bytes reg input) \<le> IO_BUF_SIZE"
    and "IO_BUF_SIZE * 2 \<le> length mem" "evs = map (\<lambda>(call, reg, input). zi_trigger_event input) rounds"
  shows "\<exists>outs mem'. wasm_run rounds (Some mem) = Some (map (\<lambda>e. [e]) outs, Some mem') \<and>
    outs = carried (drop (IO_BUF_SIZE + 74) mem) evs \<and>
    (\<forall>i. Suc i < length evs \<and> 16 \<le> ev_payload_size (evs ! Suc i) \<and>
       unat (ev_payload_size (evs ! Suc i)) + 16 \<le> unat (ev_payload_size (evs ! i)) \<longrightarrow>
       payload_of (outs ! Suc i) = drop 16 (payload_of (evs ! Suc i)) @
         take 16 (drop (unat (ev_payload_size (evs ! Suc i))) (payload_of (evs ! i))))"
proof -
  have ok: "\<forall>e \<in> set evs. event_ok e" using assms(1,3) by auto
  have "\<exists>mem'. wasm_run rounds (Some mem) = Some (map (\<lambda>e. [e]) (carried (drop (IO_BUF_SIZE + 74) mem) evs), Some mem')"
    using assms
  proof (induction rounds arbitrary: mem evs)
    case (Cons round rounds)
    obtain call reg input where r: "round = (call, reg, input)" by (metis prod_cases3)
    with Cons.prems have "runs_sample call" "event_ok (zi_trigger_event input)" "length (input_bytes reg input) \<le> IO_BUF_SIZE"
      by auto
    then obtain mem1 where m: "invoke_in_memory call (Some mem) reg input =
        Some (carried (drop (IO_BUF_SIZE + 74) mem) [zi_trigger_event input], Some mem1)" "length mem1 = length mem"
      "drop (IO_BUF_SIZE + 74) mem1 = payload_of (zi_trigger_event input) @
        drop (unat (ev_payload_size (zi_trigger_event input))) (drop (IO_BUF_SIZE + 74) mem)"
      using sample_round Cons.prems(2) by blast
    from Cons.IH [of mem1, OF _ _ refl] Cons.prems m(2) obtain mem' where
      "wasm_run rounds (Some mem1) = Some (map (\<lambda>e. [e]) (carried (drop (IO_BUF_SIZE + 74) mem1)
         (map (\<lambda>(call, reg, input). zi_trigger_event input) rounds)), Some mem')" by auto
    with Cons.prems(3) m(1,3) show ?case by (simp add: r Let_def)
  qed simp
  with carried_leaks [OF _ ok] show ?thesis by blast
qed

definition sample_fn :: wasm_fn where
  "sample_fn mem n = (case on_trigger 5 0 n (of_nat IO_BUF_SIZE) (of_nat IO_BUF_SIZE) mem of
     None \<Rightarrow> (None, mem) | Some (w, mem') \<Rightarrow> (Some w, mem'))"

definition filled_event :: "nat \<Rightarrow> u8 \<Rightarrow> event" where
  "filled_event n b = snd (set_payload (replicate n b) event_default)"

lemma filled_event:
  assumes "n \<le> 256"
  shows "event_ok (filled_event n b)" "payload_of (filled_event n b) = replicate n b"
    "unat (ev_payload_size (filled_event n b)) = n"
proof -
  show "event_ok (filled_event n b)" "payload_of (filled_event n b) = replicate n b"
    using assms by (simp_all add: filled_event_def event_ok_default payload_of_set_payload PAYLOAD_MAX_def)
  show "unat (ev_payload_size (filled_event n b)) = n"
    using assms by (simp add: filled_event_def set_payload_def PAYLOAD_MAX_def unat_of_nat)
qed

theorem sample_carries_payloads_witness:
  "\<exists>outs mem'. wasm_run [(sample_fn, registry_new, \<lparr>zi_trigger_event = filled_event 40 7, zi_windows = []\<rparr>),
       (sample_fn, registry_new, \<lparr>zi_trigger_event = filled_event 20 1, zi_windows = []\<rparr>)]
       (Some (replicate (IO_BUF_SIZE * 2) 0)) = Some (map (\<lambda>e. [e]) outs, Some mem') \<and>
     payload_of (outs ! 1) = replicate 4 1 @ replicate 16 7"
proof -
  let ?rounds = "[(sample_fn, registry_new, \<lparr>zi_trigger_event = filled_event 40 7, zi_windows = []\<rparr>),
    (sample_fn, registry_new, \<lparr>zi_trigger_event = filled_event 20 1, zi_windows = []\<rparr>)]"
  let ?evs = "[filled_event 40 7, filled_event 20 1]"
  have s: "runs_sample sample_fn" unfolding runs_sample_def by (rule exI [of _ 5]) (simp add: sample_fn_def)
  note f = filled_event [of 40 7] filled_event [of 20 1]
  have len: "length (input_bytes registry_new \<lparr>zi_trigger_event = filled_event n b, zi_windows = []\<rparr>) \<le> IO_BUF_SIZE"
    if "n \<le> 256" for n b
    using filled_event [OF that] that by (simp add: input_bytes_def length_wev_ptr IO_BUF_SIZE_def)
  have fit: "\<forall>(call, reg, input) \<in> set ?rounds. runs_sample call \<and> event_ok (zi_trigger_event input) \<and>
      length (input_bytes reg input) \<le> IO_BUF_SIZE"
    using s f len by simp
  have "16 \<le> ev_payload_size (filled_event 20 1)" using f by (simp add: word_le_nat_alt)
  then have i: "Suc 0 < length ?evs \<and> 16 \<le> ev_payload_size (?evs ! Suc 0) \<and>
      unat (ev_payload_size (?evs ! Suc 0)) + 16 \<le> unat (ev_payload_size (?evs ! 0))" using f by simp
  have m: "IO_BUF_SIZE * 2 \<le> length (replicate (IO_BUF_SIZE * 2) (0 :: u8))" by simp
  have e: "?evs = map (\<lambda>(call, reg, input). zi_trigger_event input) ?rounds" by simp
  from sample_carries_payloads [OF fit m e] i obtain outs mem' where
    "wasm_run ?rounds (Some (replicate (IO_BUF_SIZE * 2) 0)) = Some (map (\<lambda>e. [e]) outs, Some mem')"
    "payload_of (outs ! Suc 0) = drop 16 (payload_of (?evs ! Suc 0)) @
       take 16 (drop (unat (ev_payload_size (?evs ! Suc 0))) (payload_of (?evs ! 0)))"
    by blast
  then show ?thesis using f by (intro exI conjI) (assumption, simp)
qed

end
