(* ===== verification/Ring_Buffer_Test.thy ===== *)
theory Ring_Buffer_Test
  imports Bytes Event Ring_Buffer
begin

text \<open>
  \<^verbatim>\<open>tests/test_ring_buffer.cpp\<close>: the assertions of the repository's own test, stated of
  the model and evaluated. An \<^verbatim>\<open>uint64_t\<close> in memory is written as on the machines the
  code is for, low byte first.
\<close>

definition test_event :: "u64 \<Rightarrow> event" where
  "test_event n = set_stream ''test'' (event_default\<lparr>ev_sequence := n\<rparr>)"

definition test_ring :: bool where
  "test_ring =
     (case ring_new event_default 16 of
        None \<Rightarrow> False
      | Some ring \<Rightarrow>
          ring_head ring = 0 \<and>
          (let ring = snd (ring_write ring (test_event 42)) in
             ring_head ring = 1 \<and>
             (case ring_read ring 0 of
                None \<Rightarrow> False
              | Some got \<Rightarrow> ev_sequence got = 42 \<and> stream_is ''test'' got) \<and>
             (let ring = foldl (\<lambda>r i. snd (ring_write r (test_event (of_nat (i + 42))))) ring [1..<10];
                  view = ring_view_default\<lparr>rv_begin_seq := 0, rv_end_seq := ring_head ring\<rparr>
              in view_size view = 10 \<and>
                 (case view_at ring view 0 of
                    None \<Rightarrow> False
                  | Some ev \<Rightarrow> ev_sequence ev = 42 + 9))))"

definition test_payload :: bool where
  "test_payload =
     (let pev = set_stream ''test'' event_default; val = 0xDEADBEEFCAFEBABE :: u64;
          (ok, pev) = set_payload (w64_ptr val) pev
      in ok \<and> ev_payload_size pev = 8 \<and> r64 (take 8 (ev_payload pev)) = val \<and>
         \<not> fst (set_payload (replicate 257 0) pev))"

lemma test_ring_passes: test_ring
  by code_simp

lemma test_payload_passes: test_payload
  by code_simp

end
