(* ===== verification/Passthrough_Log.thy ===== *)
theory Passthrough_Log
  imports CText
begin

text \<open>
  The logging helpers of \<^verbatim>\<open>examples/scripts/passthrough.c\<close>: text is appended to a
  static buffer of 256 characters that is kept a C string. An index runs past no array as long
  as it stays below 255, which is the invariant proved here.
\<close>

section \<open>The helpers\<close>

record log_state =
  log_buf :: string
  log_idx :: nat

text \<open>Static storage starts as zeros.\<close>

definition log_start :: log_state where
  "log_start = \<lparr>log_buf = replicate 256 NUL, log_idx = 0\<rparr>"

definition reset_log :: "log_state \<Rightarrow> log_state" where
  "reset_log st = st\<lparr>log_idx := 0, log_buf := (log_buf st)[0 := NUL]\<rparr>"

definition put_char :: "char \<Rightarrow> log_state \<Rightarrow> log_state" where
  "put_char c st = st\<lparr>log_buf := (log_buf st)[log_idx st := c], log_idx := log_idx st + 1\<rparr>"

definition end_text :: "log_state \<Rightarrow> log_state" where
  "end_text st = st\<lparr>log_buf := (log_buf st)[log_idx st := NUL]\<rparr>"

fun append_loop :: "string \<Rightarrow> log_state \<Rightarrow> log_state" where
  "append_loop [] st = st"
| "append_loop (c # cs) st = (if c \<noteq> NUL \<and> log_idx st < 254 then append_loop cs (put_char c st) else st)"

definition append_s :: "string \<Rightarrow> log_state \<Rightarrow> log_state" where
  "append_s s st = end_text (append_loop s st)"

text \<open>The digits as they are stored in \<^verbatim>\<open>temp\<close>, lowest first.\<close>

function temp_digits :: "u64 \<Rightarrow> string" where
  "temp_digits num = (if num > 0 then digit_char (unat (num mod 10)) # temp_digits (num div 10) else [])"
  by auto
termination
  by (relation "measure unat") (auto simp: unat_div word_gt_0 unat_gt_0)

fun push_loop :: "string \<Rightarrow> log_state \<Rightarrow> log_state" where
  "push_loop [] st = st"
| "push_loop (c # cs) st = (if log_idx st < 254 then push_loop cs (put_char c st) else st)"

definition append_u :: "u64 \<Rightarrow> log_state \<Rightarrow> log_state" where
  "append_u num st = (if num = 0 then append_s ''0'' st else end_text (push_loop (rev (temp_digits num)) st))"

text \<open>The caller's array has at least \<open>max_len\<close> bytes.\<close>

definition append_stream_id :: "u8 list \<Rightarrow> nat \<Rightarrow> log_state \<Rightarrow> log_state" where
  "append_stream_id sid max_len st = end_text (append_loop (chars_of (take max_len sid)) st)"

definition append_frac3 :: "u64 \<Rightarrow> log_state \<Rightarrow> log_state" where
  "append_frac3 num st =
     (if log_idx st < 251
      then end_text (put_char (digit_char (unat (num mod 10)))
             (put_char (digit_char (unat (num div 10 mod 10)))
               (put_char (digit_char (unat (num div 100 mod 10))) st)))
      else st)"

section \<open>The text in the buffer\<close>

definition log_text :: "log_state \<Rightarrow> string" where
  "log_text st = take (log_idx st) (log_buf st)"

definition log_ok :: "log_state \<Rightarrow> bool" where
  "log_ok st \<longleftrightarrow> length (log_buf st) = 256 \<and> log_idx st \<le> 254 \<and> log_buf st ! log_idx st = NUL \<and> NUL \<notin> set (log_text st)"

text \<open>In the middle of an append the text has no end yet.\<close>

definition log_open :: "log_state \<Rightarrow> string \<Rightarrow> bool" where
  "log_open st t \<longleftrightarrow> length (log_buf st) = 256 \<and> log_text st = t \<and> length t = log_idx st \<and> log_idx st \<le> 254 \<and> NUL \<notin> set t"

lemma log_open_ok: "log_ok st \<Longrightarrow> log_open st (log_text st)"
  by (simp add: log_ok_def log_open_def log_text_def)

lemma end_text_ok: "log_open st t \<Longrightarrow> log_ok (end_text st) \<and> log_text (end_text st) = t"
  by (simp add: log_ok_def log_open_def log_text_def end_text_def)

lemma put_char_open:
  "log_open st t \<Longrightarrow> log_idx st < 254 \<Longrightarrow> c \<noteq> NUL \<Longrightarrow> log_open (put_char c st) (t @ [c])"
  by (simp add: log_open_def log_text_def put_char_def take_Suc_conv_app_nth)

lemma append_loop_open: "log_open st t \<Longrightarrow> log_open (append_loop s st) (take 254 (t @ c_str s))"
proof (induction s st arbitrary: t rule: append_loop.induct)
  case (1 st)
  then show ?case by (simp add: c_str_simps log_open_def)
next
  case (2 c cs st)
  show ?case
  proof (cases "c \<noteq> NUL \<and> log_idx st < 254")
    case True
    then have "log_open (put_char c st) (t @ [c])" using put_char_open [OF 2(2)] by simp
    from 2(1) [OF True this] True show ?thesis by (simp add: c_str_simps)
  next
    case False
    with 2(2) show ?thesis by (auto simp: c_str_simps log_open_def)
  qed
qed

lemma push_loop_append: "NUL \<notin> set s \<Longrightarrow> push_loop s st = append_loop s st"
  by (induction s arbitrary: st) auto

lemma digit_char_not_NUL: "d < 10 \<Longrightarrow> digit_char d \<noteq> NUL"
  using digit_char [of d] by (auto simp: is_digit_def)

lemma temp_digits_show: "num \<noteq> 0 \<Longrightarrow> rev (temp_digits num) = show_nat (unat num)"
proof (induction num rule: temp_digits.induct)
  case (1 num)
  then have n: "num > 0" by (simp add: word_gt_0)
  have u: "unat (num mod 10) = unat num mod 10" "unat (num div 10) = unat num div 10"
    by (simp_all add: unat_mod unat_div)
  show ?case
  proof (cases "num div 10 = 0")
    case True
    then have "unat num div 10 = 0" using u(2) by simp
    then have "unat num < 10" by simp
    with n True u show ?thesis by (subst temp_digits.simps) (simp add: show_nat.simps)
  next
    case False
    then have "unat num div 10 \<noteq> 0" using u(2) by (metis unat_eq_0)
    then have "\<not> unat num < 10" by simp
    with 1(1) [OF n False] n u show ?thesis
      by (subst temp_digits.simps, subst show_nat.simps) simp
  qed
qed

lemma show_nat_no_NUL: "NUL \<notin> set (show_nat n)"
  by (rule not_digit_show_nat) (simp add: is_digit_def)

lemma c_read_log: "log_ok st \<Longrightarrow> c_read (log_buf st) = Some (log_text st)"
proof -
  assume ok: "log_ok st"
  then have e: "log_buf st = log_text st @ NUL # drop (Suc (log_idx st)) (log_buf st)"
    using id_take_nth_drop [of "log_idx st" "log_buf st"] by (simp add: log_ok_def log_text_def)
  have "NUL \<notin> set (log_text st)" using ok by (simp add: log_ok_def)
  then have "c_read (log_text st @ NUL # rest) = Some (log_text st)" for rest
    by (simp add: c_read_eq c_str_append c_str_simps)
  from this [of "drop (Suc (log_idx st)) (log_buf st)"] show ?thesis by (simp only: e [symmetric])
qed

lemma append_s_ok: "log_ok st \<Longrightarrow> log_ok (append_s s st) \<and> log_text (append_s s st) = take 254 (log_text st @ c_str s)"
  using end_text_ok [OF append_loop_open [OF log_open_ok]] by (simp add: append_s_def)

lemma ascii_digits: "char_of (48 :: nat) = CHR ''0''" "char_of (49 :: nat) = CHR ''1''"
  "char_of (50 :: nat) = CHR ''2''" "char_of (52 :: nat) = CHR ''4''"
  by code_simp+

lemma append_u_eq: "append_u num st = append_s (show_nat (unat num)) st"
proof (cases "num = 0")
  case True
  then show ?thesis by (simp add: append_u_def show_nat.simps digit_char_def ascii_digits)
next
  case False
  then show ?thesis
    using push_loop_append [OF show_nat_no_NUL] temp_digits_show [OF False]
    by (simp add: append_u_def append_s_def del: temp_digits.simps)
qed

lemma append_frac3_ok:
  assumes ok: "log_ok st"
  shows "log_ok (append_frac3 num st)" "log_text (append_frac3 num st) = (if length (log_text st) < 251
      then log_text st @ map (\<lambda>k. digit_char (unat num div k mod 10)) [100, 10, 1] else log_text st)"
proof -
  have len: "length (log_text st) = log_idx st" using ok by (simp add: log_ok_def log_text_def)
  have "log_ok (append_frac3 num st) \<and> log_text (append_frac3 num st) =
      log_text st @ map (\<lambda>k. digit_char (unat num div k mod 10)) [100, 10, 1]" if i: "log_idx st < 251"
  proof -
    let ?d = "\<lambda>k. digit_char (unat num div k mod 10)"
    have u: "unat (num div 100 mod 10) = unat num div 100 mod 10" "unat (num div 10 mod 10) = unat num div 10 mod 10"
      "unat (num mod 10) = unat num div 1 mod 10"
      by (simp_all add: unat_mod unat_div)
    have nz: "?d k \<noteq> NUL" for k by (rule digit_char_not_NUL) simp
    let ?s1 = "put_char (?d 100) st" let ?s2 = "put_char (?d 10) ?s1" let ?s3 = "put_char (?d 1) ?s2"
    have idx: "log_idx ?s1 < 254" "log_idx ?s2 < 254" using i by (simp_all add: put_char_def)
    have "log_open ?s1 (log_text st @ [?d 100])" using put_char_open [OF log_open_ok [OF ok] _ nz] i by simp
    from put_char_open [OF put_char_open [OF this idx(1) nz] idx(2) nz]
    have "log_open ?s3 (((log_text st @ [?d 100]) @ [?d 10]) @ [?d 1])" .
    from end_text_ok [OF this] show ?thesis using i by (simp only: append_frac3_def u if_True) simp
  qed
  with len ok show "log_ok (append_frac3 num st)" "log_text (append_frac3 num st) = (if length (log_text st) < 251
      then log_text st @ map (\<lambda>k. digit_char (unat num div k mod 10)) [100, 10, 1] else log_text st)"
    by (auto simp: append_frac3_def)
qed

lemma log_start_ok: "log_ok log_start" "log_text log_start = []"
  by (simp_all add: log_ok_def log_start_def log_text_def)

section \<open>Properties\<close>

text \<open>The log buffer is always a C string of at most 254 characters, whatever is appended:
  a text or an identifier is appended up to its NUL, a number in decimal, each cut off at 254
  characters in all; three digits of a fraction are appended when they fit.\<close>

theorem log_appends:
  assumes "log_ok st"
  shows "c_read (log_buf st) = Some (log_text st) \<and> log_ok (reset_log st) \<and> log_text (reset_log st) = [] \<and>
    log_ok (append_s s st) \<and> log_text (append_s s st) = take 254 (log_text st @ c_str s) \<and>
    log_ok (append_u num st) \<and> log_text (append_u num st) = take 254 (log_text st @ show_nat (unat num)) \<and>
    log_ok (append_stream_id sid n st) \<and>
    log_text (append_stream_id sid n st) = take 254 (log_text st @ c_str (chars_of (take n sid))) \<and>
    log_ok (append_frac3 num st) \<and>
    log_text (append_frac3 num st) = (if length (log_text st) < 251
      then log_text st @ map (\<lambda>k. digit_char (unat num div k mod 10)) [100, 10, 1] else log_text st)"
proof -
  have "log_ok (reset_log st) \<and> log_text (reset_log st) = []"
    using assms by (simp add: log_ok_def reset_log_def log_text_def)
  moreover have "c_str (show_nat k) = show_nat k" for k by (rule c_str_id [OF show_nat_no_NUL])
  moreover have "append_stream_id sid n st = append_s (chars_of (take n sid)) st"
    by (simp add: append_stream_id_def append_s_def)
  ultimately show ?thesis
    using c_read_log [OF assms] append_s_ok [OF assms] append_frac3_ok [OF assms, of num]
    by (simp only: append_u_eq simp_thms)
qed

theorem log_appends_witness:
  "log_text (append_u 1024 log_start) = ''1024''"
  using log_appends [OF log_start_ok(1), of "[]" 1024 "[]" 0]
  by (simp add: log_start_ok show_nat.simps digit_char_def ascii_digits)

end
