(* ===== verification/Script_Events.thy ===== *)
theory Script_Events
  imports Wasm_Laws Python_Marshal Chunking
begin

text \<open>
  What the events that enter the pipeline look like, by where they come from: the decoders of
  \<^verbatim>\<open>wasm_script.hpp\<close> and \<^verbatim>\<open>python_script.hpp\<close> and the telemetry packers of
  \<^verbatim>\<open>server/main.cpp\<close>. An event is typed when its arrays have their lengths and the
  payload size is within the array; it is well formed when its identifiers are also C strings.
\<close>

definition event_typed :: "event \<Rightarrow> bool" where
  "event_typed e \<longleftrightarrow> event_shape e \<and> unat (ev_payload_size e) \<le> PAYLOAD_MAX"

lemma rev_event_typed: "rev_event p = Some e \<Longrightarrow> event_typed e"
  by (auto simp: rev_event_def Let_def event_typed_def event_shape_def event_sizes split: if_splits)

lemma parse_out_typed: "parse_out n p = Some evs \<Longrightarrow> list_all event_typed evs"
  by (induction n p arbitrary: evs rule: parse_out.induct)
    (auto simp: rev_event_typed split: option.splits)

lemma pylist_to_events_ok: "pylist_to_events items = Some evs \<Longrightarrow> list_all event_ok evs"
  by (induction items arbitrary: evs rule: pylist_to_events.induct)
    (auto simp: event_ok_pydict split: option.splits)

lemma metric_event_ok: "metric_event schema now ch = Some e \<Longrightarrow> event_ok e"
  by (cases "length ch \<le> PAYLOAD_MAX")
    (auto simp: metric_event_fits metric_event_too_large metric_base_ok)

text \<open>An output with one event whose stream identifier fills its array.\<close>

definition unterminated_output :: "u8 list" where
  "unterminated_output = w32_ptr 1 @ replicate 22 0 @ replicate 32 120 @ replicate 32 0"

lemma unterminated_result:
  "\<exists>e. parse_output unterminated_output = Some [e] \<and> stream_of e = None"
proof -
  let ?p = "replicate 22 (0 :: u8) @ replicate 32 120 @ replicate 32 0"
  have parts: "drop 8 (drop 8 ?p) = drop 16 ?p" "drop 4 (drop 16 ?p) = drop 20 ?p" "drop 2 (drop 20 ?p) = drop 22 ?p"
    "take 32 (drop 22 ?p) = replicate 32 120" "drop 32 (drop 22 ?p) = replicate 32 0"
    by simp_all
  have size: "r16 (drop 20 ?p) = 0" by (simp add: r16_def nth_append)
  obtain e where e: "rev_event ?p = Some e" "ev_stream_id e = chars_of (replicate 32 120)"
    unfolding rev_event_def Let_def event_sizes parts size by simp
  have "char_of_byte 120 \<noteq> NUL" by code_simp
  then have "NUL \<notin> set (chars_of (replicate 32 120))" by (auto simp: chars_of_def)
  then have "stream_of e = None" by (simp add: stream_of_def c_read_def e(2))
  moreover have "parse_output unterminated_output = Some [e]"
    using parse_out.simps(2) [of 0 ?p] e(1) by (simp add: parse_output_def unterminated_output_def wasm32.get_put)
  ultimately show ?thesis by blast
qed



end
