(* ===== verification/Dashboard_Text.thy ===== *)
theory Dashboard_Text
  imports Dashboard
begin

text \<open>
  What the telemetry endpoint of \<^verbatim>\<open>publisher/endpoints.hpp\<close> prints: the dashboard
  with a table of streams and a table of scripts. Texts are byte strings in UTF-8, so that a
  field width counts bytes. The microseconds of the script table are IEEE doubles in the code;
  here they are the exact dyadic numbers those doubles stand for.
\<close>

section \<open>Fields\<close>

definition pad_right :: "nat \<Rightarrow> string \<Rightarrow> string" where
  "pad_right w s = s @ replicate (w - length s) (CHR '' '')"

definition pad_left :: "nat \<Rightarrow> string \<Rightarrow> string" where
  "pad_left w s = replicate (w - length s) (CHR '' '') @ s"

abbreviation LF :: string where
  "LF \<equiv> [CHR 0x0A]"

definition RULE :: string where
  "RULE = replicate 65 (CHR ''-'') @ LF"

section \<open>Doubles\<close>

text \<open>Rounding to nearest, ties to even, of the quotient of two naturals.\<close>

definition nearest :: "nat \<Rightarrow> nat \<Rightarrow> nat" where
  "nearest a b =
     (let q = a div b; r = a mod b in if 2 * r < b \<or> (2 * r = b \<and> even q) then q else q + 1)"

fun bit_length :: "nat \<Rightarrow> nat" where
  "bit_length n = (if n = 0 then 0 else Suc (bit_length (n div 2)))"

declare bit_length.simps [simp del]

text \<open>The conversion of an unsigned integer to a double of 53 bits.\<close>

definition to_double :: "nat \<Rightarrow> nat" where
  "to_double n = (let e = bit_length n - 53 in nearest n (2 ^ e) * 2 ^ e)"

text \<open>Division of such a number by \<^verbatim>\<open>1000.0\<close>: the double nearest to the quotient, as
  a numerator and a denominator that is a power of two.\<close>

definition div_1000 :: "nat \<Rightarrow> nat \<times> nat" where
  "div_1000 x =
     (let b = bit_length (x * 2 ^ 62 div 1000) in
      if b \<le> 115 then (nearest (x * 2 ^ (115 - b)) 1000, 2 ^ (115 - b))
      else (nearest x (1000 * 2 ^ (b - 115)) * 2 ^ (b - 115), 1))"

text \<open>\<^verbatim>\<open>std::fixed << std::setprecision(2)\<close>.\<close>

definition hundredths :: "nat \<times> nat \<Rightarrow> nat" where
  "hundredths = (\<lambda>(a, b). nearest (100 * a) b)"

definition show_fixed2 :: "nat \<times> nat \<Rightarrow> string" where
  "show_fixed2 d =
     (let h = hundredths d in show_nat (h div 100) @ ''.'' @ [digit_char (h div 10 mod 10), digit_char (h mod 10)])"

definition micros :: "u64 \<Rightarrow> u64 \<Rightarrow> nat \<times> nat" where
  "micros count ns = (if count > 0 then div_1000 (to_double (unat ns)) else (0, 1))"

section \<open>The stream table\<close>

definition stream_sep :: "char \<Rightarrow> char \<Rightarrow> char \<Rightarrow> char \<Rightarrow> string" where
  "stream_sep left mid right fill =
     [left] @ replicate (32 + 2) fill @ [mid] @ replicate (12 + 2) fill @ [right] @ LF"

definition stream_row :: "string \<Rightarrow> string \<Rightarrow> string" where
  "stream_row sid count = ''| '' @ pad_right 32 sid @ '' | '' @ pad_left 12 count @ '' |'' @ LF"

definition print_stream_group :: "stream_group \<Rightarrow> string" where
  "print_stream_group g =
     LF @ ''  >> STREAM METRICS  (timestamp: '' @ show_nat (unat (sg_timestamp_ns g)) @ '' ns)'' @ LF @ RULE @
     ''  total events (in) : '' @ show_nat (unat (sg_total_events g)) @ LF @
     ''  total emitted     : '' @ show_nat (unat (sg_total_emitted g)) @ LF @
     ''  drops             : '' @ show_nat (unat (sg_drops g)) @ LF @ RULE @
     (if sg_entries g = [] then ''  (no per-stream activity)'' @ LF
      else let sep = stream_sep (CHR ''+'') (CHR ''+'') (CHR ''+'') (CHR ''-'') in
        sep @ stream_row ''Stream ID'' ''Count'' @ sep @
        concat (map (\<lambda>(sid, count). stream_row sid (show_nat (unat count))) (sg_entries g)) @ sep)"

section \<open>The script table\<close>

definition script_sep :: "char \<Rightarrow> char \<Rightarrow> char \<Rightarrow> char \<Rightarrow> char \<Rightarrow> char \<Rightarrow> char \<Rightarrow> string" where
  "script_sep left mid1 mid2 mid3 mid4 right fill =
     [left] @ replicate (32 + 2) fill @ [mid1] @ replicate (10 + 2) fill @ [mid2] @ replicate (10 + 2) fill @
     [mid3] @ replicate (10 + 2) fill @ [mid4] @ replicate (10 + 2) fill @ [right] @ LF"

definition script_row_text :: "string \<Rightarrow> string \<Rightarrow> string \<Rightarrow> string \<Rightarrow> string \<Rightarrow> string" where
  "script_row_text sid count avg mn mx =
     ''| '' @ pad_right 32 sid @ '' | '' @ pad_left 10 count @ '' | '' @ pad_left 10 avg @ '' | '' @
     pad_left 10 mn @ '' | '' @ pad_left 10 mx @ '' |'' @ LF"

definition script_entry_text :: "script_row \<Rightarrow> string" where
  "script_entry_text e =
     (let us = (\<lambda>ns. show_fixed2 (micros (sr_count e) ns)) in
      script_row_text (sr_id e) (show_nat (unat (sr_count e))) (us (sr_avg e)) (us (sr_min e)) (us (sr_max e)))"

definition micro_unit :: string where
  "micro_unit = '' ('' @ [CHR 0xC2, CHR 0xB5] @ ''s)''"

definition print_script_group :: "script_group \<Rightarrow> string" where
  "print_script_group g =
     LF @ ''  >> SCRIPT METRICS  (timestamp: '' @ show_nat (unat (cg_timestamp_ns g)) @ '' ns)'' @ LF @ RULE @
     (if cg_entries g = [] then ''  (no script activity)'' @ LF
      else let plus = CHR ''+''; sep = script_sep plus plus plus plus plus plus (CHR ''-'') in
        sep @ script_row_text ''Script ID'' ''Calls'' (''Avg'' @ micro_unit) (''Min'' @ micro_unit) (''Max'' @ micro_unit) @
        sep @ concat (map script_entry_text (cg_entries g)) @ sep)"

section \<open>The screen\<close>

definition banner :: string where
  "banner = ''+'' @ replicate 60 (CHR ''-'') @ ''+'' @ LF"

text \<open>The text for one entry of \<open>db_screens\<close>.\<close>

definition screen_text :: "stream_group option \<times> script_group option \<Rightarrow> string" where
  "screen_text = (\<lambda>(latest_stream, latest_script).
     [CHR 0x1B] @ ''[2J'' @ [CHR 0x1B] @ ''[H'' @ banner @
     ''|                 MAWMAW Telemetry Dashboard                  |'' @ LF @ banner @
     (case latest_stream of Some g \<Rightarrow> print_stream_group g | None \<Rightarrow> ''  (no stream metrics yet)'' @ LF) @
     (case latest_script of Some g \<Rightarrow> print_script_group g | None \<Rightarrow> ''  (no script metrics yet)'' @ LF))"

section \<open>Precision\<close>

text \<open>The line of the title is one character wider than the lines around it.\<close>

lemma title_too_wide:
  "\<exists>clear title rest. screen_text g = clear @ banner @ title @ banner @ rest \<and> length title = Suc (length banner)"
proof -
  let ?title = "''|                 MAWMAW Telemetry Dashboard                  |'' @ LF"
  have "\<exists>rest. screen_text g = ([CHR 0x1B] @ ''[2J'' @ [CHR 0x1B] @ ''[H'') @ banner @ ?title @ banner @ rest"
    by (cases g) (simp add: screen_text_def)
  moreover have "length ?title = Suc (length banner)" by (simp add: banner_def)
  ultimately show ?thesis by blast
qed

lemma nearest_close: "0 < b \<Longrightarrow> \<bar>2 * int b * int (nearest a b) - 2 * int a\<bar> \<le> int b"
proof -
  assume b: "0 < b"
  have a: "int a = int b * int (a div b) + int (a mod b)" by (simp flip: of_nat_mult of_nat_add)
  have r: "int (a mod b) < int b" using b by simp
  show ?thesis
  proof (cases "2 * (a mod b) < b \<or> (2 * (a mod b) = b \<and> even (a div b))")
    case True
    then have n: "nearest a b = a div b" by (simp add: nearest_def)
    have "2 * int (a mod b) \<le> int b" using True by auto
    then show ?thesis unfolding n using a by (simp add: algebra_simps)
  next
    case False
    then have n: "nearest a b = a div b + 1" unfolding nearest_def Let_def by (simp only: if_False)
    have "int b \<le> 2 * int (a mod b)" using False by auto
    then show ?thesis unfolding n using a r by (simp add: algebra_simps)
  qed
qed

lemma nearest_1: "nearest a (Suc 0) = a"
  by (simp add: nearest_def)

lemma bit_length_bounds: "n < 2 ^ bit_length n" "0 < n \<Longrightarrow> 2 ^ (bit_length n - 1) \<le> n"
proof (induction n rule: bit_length.induct)
  case (1 n)
  { case 1
    show ?case
    proof (cases "n = 0")
      case False
      with "1.IH" have "n div 2 < 2 ^ bit_length (n div 2)" by blast
      then have "n < 2 * 2 ^ bit_length (n div 2)" by linarith
      with False show ?thesis by (subst bit_length.simps) simp
    qed (simp add: bit_length.simps)
  next
    case 2
    show ?case
    proof (cases "n div 2 = 0")
      case True
      then have "bit_length n = 1" using 2 by (simp add: bit_length.simps)
      then show ?thesis using 2 by simp
    next
      case False
      then have "2 ^ (bit_length (n div 2) - 1) \<le> n div 2" "bit_length (n div 2) \<noteq> 0"
        using "1.IH"(2) 2 by (auto simp: bit_length.simps [of "n div 2"])
      then have "2 ^ bit_length (n div 2) \<le> n" by (cases "bit_length (n div 2)") auto
      then show ?thesis using 2 by (simp add: bit_length.simps [of n])
    qed }
qed

lemma bit_length_le:
  assumes "n < 2 ^ k"
  shows "bit_length n \<le> k"
proof (cases "n = 0")
  case False
  then have "2 ^ (bit_length n - 1) < (2 :: nat) ^ k" using bit_length_bounds(2) [of n] assms by linarith
  then show ?thesis by simp
qed (simp add: bit_length.simps)

lemma to_double_exact: "n < 2 ^ 53 \<Longrightarrow> to_double n = n"
  using bit_length_le [of n 53] nearest_1 by (simp add: to_double_def)

lemma hundredths_close:
  assumes "x < 2 ^ 53"
  shows "\<bar>10 * int (hundredths (div_1000 x)) - int x\<bar> \<le> 5"
proof -
  let ?b = "bit_length (x * 2 ^ 62 div 1000)"
  have "x * 2 ^ 62 div 1000 < 2 ^ 106" using assms by simp
  then have b: "?b \<le> 106" by (rule bit_length_le)
  define d where "d = (2 :: nat) ^ (115 - ?b)"
  have "(2 :: nat) ^ 9 \<le> d" unfolding d_def using b by (intro power_increasing) simp_all
  then have d: "500 < int d" "0 < d" by simp_all
  define a where "a = nearest (x * d) 1000"
  have e: "div_1000 x = (a, d)" using b by (simp add: div_1000_def Let_def a_def d_def)
  define h where "h = hundredths (div_1000 x)"
  have h: "h = nearest (100 * a) d" by (simp add: h_def e hundredths_def)
  have 1: "\<bar>2000 * int a - 2 * (int x * int d)\<bar> \<le> 1000"
    using nearest_close [of 1000 "x * d"] by (simp add: a_def)
  have 2: "\<bar>2 * (int d * int h) - 200 * int a\<bar> \<le> int d"
    using nearest_close [OF d(2), of "100 * a"] by (simp add: h algebra_simps)
  define p q where "p = int d * int h" and "q = int x * int d"
  from 1 2 have "20 * p - 2 * q \<le> 10 * int d + 1000" "- (10 * int d + 1000) \<le> 20 * p - 2 * q"
    unfolding p_def [symmetric] q_def [symmetric] by linarith+
  with d have "10 * p - q < 6 * int d" "- 6 * int d < 10 * p - q" by linarith+
  then have "int d * (10 * int h - int x) < int d * 6" "int d * - 6 < int d * (10 * int h - int x)"
    by (simp_all add: p_def q_def algebra_simps)
  then have "10 * int h - int x < 6" "- 6 < 10 * int h - int x"
    using d(2) by (simp_all only: mult_less_cancel_left_pos of_nat_0_less_iff)
  then show ?thesis unfolding h_def by linarith
qed

section \<open>Reading the stream table\<close>

definition strip_right :: "string \<Rightarrow> string" where
  "strip_right s = rev (dropWhile (\<lambda>c. c = CHR '' '') (rev s))"

definition read_stream_row :: "string \<Rightarrow> string \<times> nat" where
  "read_stream_row line =
     (strip_right (take 32 (drop 2 line)), dec_val (dropWhile (\<lambda>c. c = CHR '' '') (take 12 (drop 37 line))))"

text \<open>The rows of a table are the lines from the tenth on, one for each entry.\<close>

definition read_stream_table :: "nat \<Rightarrow> string \<Rightarrow> (string \<times> nat) list" where
  "read_stream_table n text = map read_stream_row (take n (drop 10 (getline_split (CHR 0x0A) text)))"

lemma strip_right_pad:
  assumes "s = [] \<or> last s \<noteq> CHR '' ''"
  shows "strip_right (s @ replicate k (CHR '' '')) = s"
proof -
  have "dropWhile (\<lambda>c. c = CHR '' '') (replicate k (CHR '' '') @ rev s) = rev s"
    using assms by (subst dropWhile_append2) (auto simp: dropWhile_eq_self_iff hd_rev)
  then show ?thesis by (simp add: strip_right_def)
qed

lemma dropWhile_pad_left:
  assumes "CHR '' '' \<notin> set s"
  shows "dropWhile (\<lambda>c. c = CHR '' '') (pad_left w s) = s"
proof -
  have "dropWhile (\<lambda>c. c = CHR '' '') s = s" using assms by (cases s) auto
  then show ?thesis unfolding pad_left_def by (subst dropWhile_append2) auto
qed

definition row_ok :: "string \<times> u64 \<Rightarrow> bool" where
  "row_ok = (\<lambda>(sid, count). length sid \<le> 32 \<and> (sid = [] \<or> last sid \<noteq> CHR '' '') \<and> CHR 0x0A \<notin> set sid \<and>
     unat count < 10 ^ 12)"

lemma read_stream_row:
  assumes "row_ok (sid, count)"
  shows "read_stream_row (stream_row sid (show_nat (unat count))) = (sid, unat count)"
    "length (stream_row sid (show_nat (unat count))) = 52"
    "\<exists>line. stream_row sid (show_nat (unat count)) = line @ LF \<and> CHR 0x0A \<notin> set line"
proof -
  have len: "length sid \<le> 32" "length (show_nat (unat count)) \<le> 12" and sid: "sid = [] \<or> last sid \<noteq> CHR '' ''"
    using assms length_show_nat [of "unat count" 11] by (auto simp: row_ok_def)
  have pads: "length (pad_right 32 sid) = 32" "length (pad_left 12 (show_nat (unat count))) = 12"
    using len by (simp_all add: pad_right_def pad_left_def)
  have chars: "CHR '' '' \<notin> set (show_nat (unat count))" "CHR 0x0A \<notin> set (show_nat (unat count))"
    by (simp_all add: not_digit_show_nat is_digit_def)
  show "read_stream_row (stream_row sid (show_nat (unat count))) = (sid, unat count)"
    using pads strip_right_pad [OF sid] dropWhile_pad_left [OF chars(1)]
    by (simp add: read_stream_row_def stream_row_def dec_val_show_nat) (simp add: pad_right_def)
  show "length (stream_row sid (show_nat (unat count))) = 52" using pads by (simp add: stream_row_def)
  have "CHR 0x0A \<notin> set (''| '' @ pad_right 32 sid @ '' | '' @ pad_left 12 (show_nat (unat count)) @ '' |'')"
    using assms chars by (auto simp: pad_right_def pad_left_def row_ok_def)
  then show "\<exists>line. stream_row sid (show_nat (unat count)) = line @ LF \<and> CHR 0x0A \<notin> set line"
    by (intro exI [of _ "''| '' @ pad_right 32 sid @ '' | '' @ pad_left 12 (show_nat (unat count)) @ '' |''"])
      (simp add: stream_row_def)
qed

section \<open>Properties\<close>

lemma rows_read:
  assumes "\<forall>e \<in> set es. row_ok e"
  shows "map read_stream_row (take (length es) (getline_split (CHR 0x0A)
      (concat (map (\<lambda>(sid, count). stream_row sid (show_nat (unat count))) es) @ rest))) =
    map (\<lambda>(sid, count). (sid, unat count)) es"
  using assms
proof (induction es)
  case (Cons e es)
  obtain sid count where e: "e = (sid, count)" by (cases e)
  with Cons.prems have ok: "row_ok (sid, count)" by simp
  from read_stream_row(3) [OF ok] obtain line where
    line: "stream_row sid (show_nat (unat count)) = line @ LF" "CHR 0x0A \<notin> set line" by blast
  have "read_stream_row line = read_stream_row (line @ LF)"
    using read_stream_row(2) [OF ok] by (simp add: read_stream_row_def line(1))
  then have r: "read_stream_row line = (sid, unat count)" using read_stream_row(1) [OF ok] by (simp add: line(1))
  have "getline_split (CHR 0x0A) ((line @ LF) @ concat (map (\<lambda>(sid, count). stream_row sid (show_nat (unat count))) es) @ rest) =
      line # getline_split (CHR 0x0A) (concat (map (\<lambda>(sid, count). stream_row sid (show_nat (unat count))) es) @ rest)"
    using getline_split_item [OF line(2)] by simp
  with Cons r show ?case by (simp add: e line(1))
qed simp

lemma read_printed_table:
  assumes "sg_entries g \<noteq> []" "\<forall>e \<in> set (sg_entries g). row_ok e"
  shows "read_stream_table (length (sg_entries g)) (print_stream_group g) =
    map (\<lambda>(sid, count). (sid, unat count)) (sg_entries g)"
proof -
  let ?rows = "concat (map (\<lambda>(sid, count). stream_row sid (show_nat (unat count))) (sg_entries g))"
  let ?sep = "CHR ''+'' # replicate 34 (CHR ''-'') @ CHR ''+'' # replicate 14 (CHR ''-'') @ ''+''"
  let ?head = "[[], ''  >> STREAM METRICS  (timestamp: '' @ show_nat (unat (sg_timestamp_ns g)) @ '' ns)'',
    replicate 65 (CHR ''-''), ''  total events (in) : '' @ show_nat (unat (sg_total_events g)),
    ''  total emitted     : '' @ show_nat (unat (sg_total_emitted g)),
    ''  drops             : '' @ show_nat (unat (sg_drops g)), replicate 65 (CHR ''-''), ?sep,
    ''| '' @ pad_right 32 ''Stream ID'' @ '' | '' @ pad_left 12 ''Count'' @ '' |'', ?sep]"
  have digits: "CHR 0x0A \<notin> set (show_nat n)" for n by (rule not_digit_show_nat) (simp add: is_digit_def)
  then have head: "\<forall>s \<in> set ?head. CHR 0x0A \<notin> set s" by (simp add: pad_right_def pad_left_def)
  have "print_stream_group g = concat (map (\<lambda>s. s @ LF) ?head) @ ?rows @ ?sep @ LF"
    using assms(1) by (simp add: print_stream_group_def RULE_def stream_sep_def stream_row_def)
  with getline_split_append [OF head, of "?rows @ ?sep @ LF"]
  have "drop 10 (getline_split (CHR 0x0A) (print_stream_group g)) = getline_split (CHR 0x0A) (?rows @ ?sep @ LF)"
    by simp
  then show ?thesis
    unfolding read_stream_table_def by (simp only: rows_read [OF assms(2)])
qed

text \<open>The stream table can be read back. Of a report whose stream names fit their column (no
  more than 32 bytes, no trailing space or line feed) and whose counts have at most twelve
  digits, every row of the printed table is as wide as its rules, and the lines of the table
  give back exactly the names and counts, in order.\<close>

theorem stream_table_readable:
  assumes "sg_entries g \<noteq> []" "\<forall>e \<in> set (sg_entries g). row_ok e"
  shows "read_stream_table (length (sg_entries g)) (print_stream_group g) =
      map (\<lambda>(sid, count). (sid, unat count)) (sg_entries g) \<and>
    (\<forall>(sid, count) \<in> set (sg_entries g).
      length (stream_row sid (show_nat (unat count))) = length (stream_sep l m r f))"
proof -
  have "length (stream_sep l m r f) = 52" by (simp add: stream_sep_def)
  with read_printed_table [OF assms] assms(2) show ?thesis by (auto simp: read_stream_row(2))
qed

text \<open>The microseconds of the script table. A time below 2^53 nanoseconds (104 days) is shown
  with two decimals, and what is shown is off by at most half a hundredth of a microsecond,
  although the code divides and rounds in binary.\<close>

theorem micros_precise:
  assumes "0 < count" "unat ns < 2 ^ 53"
  shows "dec_val (filter is_digit (show_fixed2 (micros count ns))) = hundredths (micros count ns) \<and>
    \<bar>10 * int (hundredths (micros count ns)) - int (unat ns)\<bar> \<le> 5"
proof -
  define h where "h = hundredths (micros count ns)"
  have "show_fixed2 (micros count ns) = show_nat (h div 100) @ ''.'' @ [digit_char (h div 10 mod 10), digit_char (h mod 10)]"
    by (simp add: show_fixed2_def h_def Let_def)
  moreover have "filter is_digit (show_nat (h div 100)) = show_nat (h div 100)"
    using show_nat_digits by (simp add: filter_id_conv list_all_iff)
  ultimately have "dec_val (filter is_digit (show_fixed2 (micros count ns))) = 10 * (10 * (h div 100) + h div 10 mod 10) + h mod 10"
    by (simp add: digit_char dec_val_show_nat [unfolded dec_val_def] dec_val_def) (simp add: is_digit_def)
  also have "\<dots> = h"
    using mult_div_mod_eq [of 10 "h div 10"] mult_div_mod_eq [of 10 h] by (simp add: div_mult2_eq [symmetric])
  finally show ?thesis
    using assms hundredths_close [of "unat ns"] by (simp add: h_def micros_def to_double_exact)
qed

text \<open>A report of two streams, and a time of 1234567 nanoseconds.\<close>

definition example_group :: stream_group where
  "example_group = \<lparr>sg_timestamp_ns = 5, sg_total_events = 12, sg_total_emitted = 0, sg_drops = 0, sg_chunk_count = 1,
     sg_received = [True], sg_entries = [(''trades'', 10), (''quotes'', 2)]\<rparr>"

theorem stream_table_readable_witness:
  "read_stream_table 2 (print_stream_group example_group) = [(''trades'', 10), (''quotes'', 2)]"
proof -
  have es: "sg_entries example_group = [(''trades'', 10), (''quotes'', 2)]" by (simp add: example_group_def)
  then have n: "length (sg_entries example_group) = 2" by simp
  have ok: "\<forall>e \<in> set (sg_entries example_group). row_ok e" by (simp add: es row_ok_def)
  from stream_table_readable [OF _ ok] have "read_stream_table 2 (print_stream_group example_group) =
      map (\<lambda>(sid, count). (sid, unat count)) (sg_entries example_group)"
    unfolding n by (simp add: es)
  then show ?thesis by (simp add: es)
qed

theorem micros_precise_witness:
  "\<bar>10 * int (hundredths (micros 1 1234567)) - 1234567\<bar> \<le> 5"
  using micros_precise [of 1 1234567] by simp

end
