(* ===== verification/Telemetry_Screen.thy ===== *)
theory Telemetry_Screen
  imports Telemetry_Runs Stream_Router Endpoints Dashboard_Text
begin

text \<open>
  A report from end to end: the counters of the telemetry, packed by \<^verbatim>\<open>emit_metrics\<close>, routed
  as events through the router and the publisher to the telemetry endpoint, reassembled and
  printed. The router has to name the endpoint for the stream \<^verbatim>\<open>telemetry\<close>, which is up to
  the configuration.
\<close>

section \<open>The wiring of a report\<close>

text \<open>The stream \<^verbatim>\<open>telemetry\<close> is routed to the dashboard \<open>d\<close> alone, and no ring exists.\<close>

definition telemetry_wired :: "string \<Rightarrow> dashboard \<Rightarrow> (endpoint, 'd) core \<Rightarrow> bool" where
  "telemetry_wired eid d c \<longleftrightarrow>
     map_of (rt_route_table (co_router c)) ''telemetry'' = Some [eid] \<and>
     map_of (rt_handlers (co_router c)) eid = None \<and> rt_publisher (co_router c) \<and>
     map_of (pb_endpoints (co_publisher c)) eid = Some (Telemetry_endpoint d) \<and>
     wr_rings (co_registry c) = []"

definition set_dashboard :: "string \<Rightarrow> dashboard \<Rightarrow> (endpoint, 'd) core \<Rightarrow> (endpoint, 'd) core" where
  "set_dashboard eid d c = c\<lparr>co_publisher := (co_publisher c)\<lparr>pb_endpoints :=
     AList.update eid (Telemetry_endpoint d) (pb_endpoints (co_publisher c))\<rparr>\<rparr>"

lemma set_dashboard_fields [simp]:
  "co_router (set_dashboard eid d c) = co_router c" "co_registry (set_dashboard eid d c) = co_registry c"
  "co_telemetry (set_dashboard eid d c) = co_telemetry c"
  "telemetry_wired eid d (c\<lparr>co_telemetry := tel\<rparr>) = telemetry_wired eid d c"
  "(set_dashboard eid d c)\<lparr>co_telemetry := tel\<rparr> = set_dashboard eid d (c\<lparr>co_telemetry := tel\<rparr>)"
  by (simp_all add: set_dashboard_def telemetry_wired_def)

lemma wired_set_dashboard: "telemetry_wired eid d c \<Longrightarrow> telemetry_wired eid d' (set_dashboard eid d' c)"
  by (simp add: telemetry_wired_def) (simp add: set_dashboard_def umap_simps)

lemma AList_update_twice: "AList.update k y (AList.update k x m) = AList.update k y m"
  by (induction m) auto

lemma AList_update_same: "map_of m k = Some x \<Longrightarrow> AList.update k x m = m"
  by (induction m) auto

lemma set_dashboard_twice: "set_dashboard eid d' (set_dashboard eid d c) = set_dashboard eid d' c"
  by (simp add: set_dashboard_def AList_update_twice)

lemma set_dashboard_same: "telemetry_wired eid d c \<Longrightarrow> set_dashboard eid d c = c"
  by (simp add: set_dashboard_def telemetry_wired_def AList_update_same)

section \<open>Routing a report\<close>

lemma own_stream_not_counted: "record_event ''telemetry'' tel = tel" "record_emitted ''telemetry'' tel = tel"
  by (simp_all add: record_event_def record_emitted_def telemetry_stream_def)

lemma route_metric:
  assumes w: "telemetry_wired eid d c" and s: "stream_of ev = Some ''telemetry''"
  shows "route (endpoint_publish sends) ev c = map_option (\<lambda>d'. set_dashboard eid d' c) (dashboard_publish ev d)"
proof -
  have p: "push ev (co_registry c) tel = Some (0, co_registry c, tel)" for tel
    using w s by (simp add: push_def telemetry_wired_def)
  have t: "(if rt_telemetry (co_router c) then record_event ''telemetry'' (co_telemetry c) else co_telemetry c) =
      co_telemetry c" by (simp add: own_stream_not_counted)
  have "c\<lparr>co_registry := co_registry c, co_telemetry := co_telemetry c\<rparr> = c" by simp
  then have r: "route (endpoint_publish sends) ev c = deliver_all (endpoint_publish sends) ev ''telemetry'' [eid] c"
    using w by (simp add: route_def s p t telemetry_wired_def)
  have e: "emitted_one ev (co_publisher c) (co_telemetry c) = Some (co_telemetry c)"
    by (simp add: emitted_one_def s own_stream_not_counted)
  show ?thesis
    using w by (cases "dashboard_publish ev d")
      (simp_all add: r deliver_def publish_to_def has_endpoint_def telemetry_wired_def e set_dashboard_def)
qed

lemma route_all_metric:
  assumes "telemetry_wired eid d c" "\<forall>ev \<in> set evs. stream_of ev = Some ''telemetry''"
  shows "route_all (endpoint_publish sends) evs c = map_option (\<lambda>d'. set_dashboard eid d' c) (dashboard_feed evs d)"
  using assms
proof (induction evs arbitrary: c d)
  case Nil
  then show ?case by (simp add: set_dashboard_same)
next
  case (Cons ev evs)
  show ?case
  proof (cases "dashboard_publish ev d")
    case None
    with Cons.prems route_metric [OF Cons.prems(1), of ev] show ?thesis by simp
  next
    case (Some d')
    with Cons.prems route_metric [OF Cons.prems(1), of ev] Cons.IH [OF wired_set_dashboard [OF Cons.prems(1)]]
    show ?thesis by (simp add: set_dashboard_twice)
  qed
qed

lemma report_events_stream: "ev \<in> set (report_events schema now chunks) \<Longrightarrow> stream_of ev = Some ''telemetry''"
proof -
  assume "ev \<in> set (report_events schema now chunks)"
  then obtain ch where "metric_event schema now ch = Some ev"
    by (auto simp: report_events_def map_filter_def)
  then have "ev = snd (set_payload ch (metric_base schema now))"
    by (cases "length ch \<le> PAYLOAD_MAX") (simp_all add: metric_event_fits metric_event_too_large)
  then have "ev_stream_id ev = ev_stream_id (metric_base schema now)" by simp
  then show ?thesis
    using metric_base_ok [of schema now] metric_stream [of schema now]
    by (simp add: stream_of_def c_read_eq event_ok_def)
qed

section \<open>Properties\<close>

lemma pack_stream_reports:
  assumes "report_entries tel \<noteq> []"
  shows "pack_stream_metrics ts tel = (True, stream_chunks ts (total_count (tm_event_counts tel))
      (total_count (tm_emitted_counts tel)) (tm_drops tel) (report_entries tel),
    tel\<lparr>tm_event_counts := zero_counts (tm_event_counts tel),
        tm_emitted_counts := zero_counts (tm_emitted_counts tel), tm_drops := 0\<rparr>)"
  using assms by (simp add: pack_stream_metrics_def report_entries_def Let_def total_count_snapshot)

definition ran_scripts :: "telemetry \<Rightarrow> (string \<times> script_stats) list" where
  "ran_scripts tel = filter (\<lambda>(sid, st). ss_count st > 0) (tm_script_stats tel)"

lemma pack_script_reports:
  "pack_script_metrics now now tel =
     (ran_scripts tel \<noteq> [], if ran_scripts tel = [] then [] else script_chunks now (ran_scripts tel),
      tel\<lparr>tm_script_stats := map (\<lambda>(sid, st). (sid, script_stats_init)) (tm_script_stats tel)\<rparr>)"
  by (simp add: pack_script_metrics_def ran_scripts_def Let_def)

text \<open>C30. A telemetry tick reaches the screen. When the telemetry stream is routed to a dashboard that
  is not in the middle of a report of this time and something was counted, one round of
  \<^verbatim>\<open>emit_metrics\<close> runs through the router and the publisher without counting itself,
  leaves all counters at zero, and makes the dashboard print: reading the printed table gives,
  for every stream that was counted, its events and emissions. The script statistics of the
  round, if any script ran, are on a second screen beside the same table.\<close>

theorem tick_reaches_screen:
  fixes c :: "(endpoint, 'd) core"
  defines "tel \<equiv> co_telemetry c"
  assumes wired: "telemetry_wired eid d c"
    and tel: "telemetry_ok tel" "tm_enabled tel" "report_entries tel \<noteq> []"
    and idle: "stream_idle now d" "script_idle now d"
    and bounds: "length (tm_event_counts tel) + length (tm_emitted_counts tel) \<le> 1275" "length (tm_script_stats tel) \<le> 765"
    and rows: "\<forall>e \<in> set (report_entries tel). row_ok (shown_stream e)"
  shows "\<exists>c' d' g. emit_tick (endpoint_publish sends) now c = Some c' \<and> telemetry_wired eid d' c' \<and>
    db_screens d' = db_screens d @ [(Some g, db_latest_script d)] @
      (if ran_scripts tel = [] then [] else [(Some g, db_latest_script d')]) \<and>
    read_stream_table (length (report_entries tel)) (print_stream_group g) =
      map (\<lambda>(s, n). (take 31 (c_str s), unat n)) (report_entries tel) \<and>
    (\<forall>s. count_at (report_entries tel) s = count_at (tm_event_counts tel) s + count_at (tm_emitted_counts tel) s) \<and>
    (ran_scripts tel \<noteq> [] \<longrightarrow> (\<exists>h. db_latest_script d' = Some h \<and> cg_entries h = map shown_script (ran_scripts tel))) \<and>
    total_count (tm_event_counts (co_telemetry c')) = 0 \<and> total_count (tm_emitted_counts (co_telemetry c')) = 0 \<and>
    tm_drops (co_telemetry c') = 0 \<and> ran_scripts (co_telemetry c') = []"
proof -
  let ?es = "report_entries tel" and ?sc = "ran_scripts tel"
  let ?te = "total_count (tm_event_counts tel)" and ?tm = "total_count (tm_emitted_counts tel)"
  define tel1 where "tel1 = tel\<lparr>tm_event_counts := zero_counts (tm_event_counts tel),
    tm_emitted_counts := zero_counts (tm_emitted_counts tel), tm_drops := 0\<rparr>"
  define tel2 where "tel2 = tel1\<lparr>tm_script_stats := map (\<lambda>(sid, st). (sid, script_stats_init)) (tm_script_stats tel)\<rparr>"
  define d1 where "d1 = stream_report_done now ?te ?tm (tm_drops tel) ?es d"
  define d2 where "d2 = (if ?sc = [] then d1 else script_report_done now ?sc d1)"
  define c1 where "c1 = set_dashboard eid d1 (c\<lparr>co_telemetry := tel2\<rparr>)"
  have len: "length ?es \<le> 1275" "length ?sc \<le> 765"
    using report_entries_length [OF tel(1)] bounds
    by (simp, simp add: ran_scripts_def le_trans [OF length_filter_le])
  have feed1: "dashboard_feed (report_events ''streams_v1'' now (stream_chunks now ?te ?tm (tm_drops tel) ?es)) d = Some d1"
    unfolding d1_def by (rule feed_stream_report [OF len(1) idle(1)])
  have w1: "telemetry_wired eid d1 c1" unfolding c1_def by (rule wired_set_dashboard) (use wired in simp)
  have "script_idle now d1" using idle(2) by (simp add: d1_def stream_report_done_def render_def script_idle_def)
  then have feed2: "?sc \<noteq> [] \<Longrightarrow>
      dashboard_feed (report_events ''scripts_v1'' now (script_chunks now ?sc)) d1 = Some (script_report_done now ?sc d1)"
    using feed_script_report [OF _ len(2)] by blast
  have ran: "ran_scripts tel1 = ?sc" "tm_script_stats tel1 = tm_script_stats tel"
    by (simp_all add: ran_scripts_def tel1_def)
  note pack = pack_stream_reports [OF tel(3), of now, folded tel1_def]
    and pack' = pack_script_reports [of now tel1, unfolded ran, folded tel2_def]
  have "telemetry_wired eid d (c\<lparr>co_telemetry := tel1\<rparr>)" using wired by simp
  from route_all_metric [OF this, of "report_events ''streams_v1'' now (stream_chunks now ?te ?tm (tm_drops tel) ?es)" sends]
  have r1: "route_all (endpoint_publish sends) (List.map_filter (metric_event ''streams_v1'' now)
      (stream_chunks now ?te ?tm (tm_drops tel) ?es)) (c\<lparr>co_telemetry := tel1\<rparr>) =
      Some (set_dashboard eid d1 (c\<lparr>co_telemetry := tel1\<rparr>))"
    using report_events_stream by (simp add: feed1 report_events_def [symmetric])
  have "?sc \<noteq> [] \<Longrightarrow> route_all (endpoint_publish sends) (List.map_filter (metric_event ''scripts_v1'' now)
      (script_chunks now ?sc)) c1 = Some (set_dashboard eid d2 c1)"
    using route_all_metric [OF w1, of "report_events ''scripts_v1'' now (script_chunks now ?sc)" sends]
      report_events_stream by (simp add: feed2 report_events_def [symmetric] d2_def)
  moreover have "?sc = [] \<Longrightarrow> set_dashboard eid d2 c1 = c1" using set_dashboard_same [OF w1] by (simp add: d2_def)
  ultimately have "emit_tick (endpoint_publish sends) now c = Some (set_dashboard eid d2 c1)"
    using tel(2) unfolding emit_tick_def tel_def [symmetric] pack
    by (auto simp: r1 pack' c1_def [symmetric])
  moreover have "telemetry_wired eid d2 (set_dashboard eid d2 c1)" by (rule wired_set_dashboard [OF w1])
  moreover have "co_telemetry (set_dashboard eid d2 c1) = tel2" by (simp add: c1_def)
  moreover have "ran_scripts tel2 = []" by (auto simp: ran_scripts_def tel2_def script_stats_init_def filter_empty_conv)
  moreover obtain g where g: "db_latest_stream d1 = Some g" "sg_entries g = map shown_stream ?es"
    using stream_report_done_shows(1) [OF d1_def [symmetric]] by simp
  moreover have "db_screens d1 = db_screens d @ [(Some g, db_latest_script d)]" "db_latest_script d1 = db_latest_script d"
    using g(1) by (simp_all add: d1_def stream_report_done_def render_def)
  moreover have "?sc \<noteq> [] \<Longrightarrow> db_screens d2 = db_screens d1 @ [(Some g, db_latest_script d2)]"
    using g(1) by (simp add: d2_def script_report_done_def render_def)
  moreover have "?sc \<noteq> [] \<Longrightarrow> \<exists>h. db_latest_script d2 = Some h \<and> cg_entries h = map shown_script ?sc"
    using script_report_done_shows(1) [OF refl, of now ?sc d1] by (simp add: d2_def)
  moreover have "read_stream_table (length ?es) (print_stream_group g) = map (\<lambda>(s, n). (take 31 (c_str s), unat n)) ?es"
    using read_printed_table [of g] tel(3) rows by (simp add: g(2) shown_stream_def comp_def case_prod_unfold)
  ultimately show ?thesis
    using report_entries_ok(2) [OF tel(1)]
    by (intro exI [of _ "set_dashboard eid d2 c1"] exI [of _ d2] exI [of _ g])
      (simp add: tel2_def tel1_def d2_def)
qed

text \<open>A dashboard alone, and one event of one stream.\<close>

definition example_core :: "(endpoint, 'd) core" where
  "example_core =
     \<lparr>co_router = set_publisher True (set_routes [(''telemetry'', [''t''])] router_new),
      co_registry = registry_new,
      co_publisher = add_endpoint endpoint_name (Telemetry_endpoint (dashboard_new ''t'')) publisher_new,
      co_telemetry = record_event ''a'' (set_enabled True telemetry_new)\<rparr>"

theorem tick_reaches_screen_witness:
  "\<exists>(c' :: (endpoint, nat) core) d' g. emit_tick (endpoint_publish (\<lambda>_. [])) 7 example_core = Some c' \<and>
    telemetry_wired ''t'' d' c' \<and> db_screens d' = [(Some g, None)] \<and> read_stream_table 1 (print_stream_group g) = [(''a'', 1)]"
proof -
  let ?c = "example_core :: (endpoint, nat) core" and ?d = "dashboard_new ''t''"
  have w: "telemetry_wired ''t'' ?d ?c"
    by (simp add: telemetry_wired_def example_core_def set_publisher_def set_routes_def router_new_def registry_new_def
        add_endpoint_def publisher_new_def dashboard_new_def)
  have t: "co_telemetry ?c = \<lparr>tm_enabled = True, tm_running = False, tm_event_counts = [(''a'', 1)],
      tm_emitted_counts = [], tm_drops = 0, tm_script_stats = []\<rparr>"
    by (simp add: example_core_def record_event_def set_enabled_def telemetry_new_def telemetry_stream_def bump_def)
  have es: "report_entries (co_telemetry ?c) = [(''a'', 1)]"
    by (simp add: t report_entries_def snapshot_counts_def add_counts_def)
  have i: "stream_idle 7 ?d" "script_idle 7 ?d" by (simp_all add: stream_idle_def script_idle_def dashboard_new_def)
  have ok: "telemetry_ok (co_telemetry ?c)" by (simp add: t telemetry_ok_def um_ok_def)
  have rows: "\<forall>e \<in> set (report_entries (co_telemetry ?c)). row_ok (shown_stream e)"
    by (simp add: es shown_stream_def row_ok_def c_str_simps)
  have r: "ran_scripts (co_telemetry ?c) = []" by (simp add: t ran_scripts_def)
  have s: "db_screens ?d = []" "db_latest_script ?d = None" by (simp_all add: dashboard_new_def)
  from tick_reaches_screen [OF w ok _ _ i _ _ rows, of "\<lambda>_. []"] show ?thesis
    unfolding es r s by (simp add: t c_str_simps) blast
qed

end
