(* ===== verification/Ws_Connections.thy ===== *)
theory Ws_Connections
  imports WebSocket_Laws
begin

text \<open>
  The connections of the WebSocket endpoint of \<^verbatim>\<open>publisher/websocket_endpoint.hpp\<close> over
  time: the accepting thread, one detached thread per connection, the publishing thread and the
  destructor, interleaved at the sections they run under the mutex of the client list. File
  descriptors are numbers that the operating system gives out again once they are closed.
\<close>

section \<open>The steps\<close>

text \<open>A connection's thread: in the handshake, serving, past its loop, or ended.\<close>

datatype conn_pc = Handshaking | Serving | Leaving | Gone

record ws_conf =
  wc_ep :: ws_endpoint
  wc_alive :: bool
  wc_open :: "int set"
  wc_threads :: "(int \<times> conn_pc) list"

definition ws_start :: "string \<Rightarrow> ws_conf" where
  "ws_start eid = \<lparr>wc_ep = \<lparr>ws_id = eid, ws_running = True, ws_clients = [], ws_sent = []\<rparr>, wc_alive = True,
     wc_open = {}, wc_threads = []\<rparr>"

text \<open>A step that reads or changes the endpoint needs it to be alive; a thread for which it is not
  has undefined behaviour and no step.\<close>

inductive ws_step :: "ws_conf \<Rightarrow> ws_conf \<Rightarrow> bool" where
  Accept: "wc_alive c \<Longrightarrow> fd \<notin> wc_open c \<Longrightarrow>
    ws_step c (c\<lparr>wc_open := insert fd (wc_open c), wc_threads := wc_threads c @ [(fd, Handshaking)]\<rparr>)"
| Refuse: "i < length (wc_threads c) \<Longrightarrow> wc_threads c ! i = (fd, Handshaking) \<Longrightarrow>
    parse_ws_key input = [] \<or> \<not> send_ok \<Longrightarrow>
    ws_step c (c\<lparr>wc_open := wc_open c - {fd}, wc_threads := (wc_threads c)[i := (fd, Gone)]\<rparr>)"
| Connect: "wc_alive c \<Longrightarrow> i < length (wc_threads c) \<Longrightarrow> wc_threads c ! i = (fd, Handshaking) \<Longrightarrow>
    parse_ws_key input \<noteq> [] \<Longrightarrow>
    ws_step c (c\<lparr>wc_ep := snd (ws_connect fd input True (wc_ep c)), wc_threads := (wc_threads c)[i := (fd, Serving)]\<rparr>)"
| Publish: "wc_alive c \<Longrightarrow> ws_publish results ev (wc_ep c) = Some ep \<Longrightarrow>
    ws_step c (c\<lparr>wc_ep := ep, wc_open := wc_open c - (set (ws_clients (wc_ep c)) - set (ws_clients ep))\<rparr>)"
| Served: "wc_alive c \<Longrightarrow> i < length (wc_threads c) \<Longrightarrow> wc_threads c ! i = (fd, Serving) \<Longrightarrow>
    ws_step c (c\<lparr>wc_threads := (wc_threads c)[i := (fd, Leaving)]\<rparr>)"
| Leave: "wc_alive c \<Longrightarrow> i < length (wc_threads c) \<Longrightarrow> wc_threads c ! i = (fd, Leaving) \<Longrightarrow>
    ws_step c (c\<lparr>wc_ep := ws_disconnect fd (wc_ep c),
                 wc_open := (if fd \<in> set (ws_clients (wc_ep c)) then wc_open c - {fd} else wc_open c),
                 wc_threads := (wc_threads c)[i := (fd, Gone)]\<rparr>)"
| Destroy: "wc_alive c \<Longrightarrow>
    ws_step c (c\<lparr>wc_alive := False, wc_open := wc_open c - set (ws_clients (wc_ep c)),
                 wc_ep := (wc_ep c)\<lparr>ws_running := False\<rparr>\<rparr>)"

inductive ws_reachable :: "ws_conf \<Rightarrow> ws_conf \<Rightarrow> bool" for c0 where
  First: "ws_reachable c0 c0"
| Next: "ws_reachable c0 c \<Longrightarrow> ws_step c c' \<Longrightarrow> ws_reachable c0 c'"

section \<open>The invariant\<close>

text \<open>A descriptor in the handshake is open, not yet a client, and nobody else's handshake.\<close>

definition handshakes_ok :: "ws_conf \<Rightarrow> bool" where
  "handshakes_ok c \<longleftrightarrow> (\<forall>i < length (wc_threads c). \<forall>fd. wc_threads c ! i = (fd, Handshaking) \<longrightarrow>
     fd \<in> wc_open c \<and> fd \<notin> set (ws_clients (wc_ep c)) \<and>
     (\<forall>j < length (wc_threads c). j \<noteq> i \<longrightarrow> wc_threads c ! j \<noteq> (fd, Handshaking)))"

definition clients_ok :: "ws_conf \<Rightarrow> bool" where
  "clients_ok c \<longleftrightarrow> distinct (ws_clients (wc_ep c)) \<and> set (ws_clients (wc_ep c)) \<subseteq> wc_open c"

definition conns_inv :: "ws_conf \<Rightarrow> bool" where
  "conns_inv c \<longleftrightarrow> (wc_alive c \<longrightarrow> clients_ok c \<and> handshakes_ok c)"

lemma conns_inv_start: "conns_inv (ws_start eid)"
  by (simp add: conns_inv_def ws_start_def clients_ok_def handshakes_ok_def)

lemma publish_clients:
  assumes "ws_publish results ev ep = Some ep'"
  shows "\<exists>P. ws_clients ep' = filter P (ws_clients ep)"
  using assms by (auto simp: ws_publish_def split: option.splits dest!: ws_broadcast_result(1))

lemma handshake_facts:
  assumes "handshakes_ok c" "i < length (wc_threads c)" "wc_threads c ! i = (fd, Handshaking)"
  shows "fd \<in> wc_open c" "fd \<notin> set (ws_clients (wc_ep c))"
    "j < length (wc_threads c) \<Longrightarrow> wc_threads c ! j = (fd, Handshaking) \<Longrightarrow> j = i"
  using assms unfolding handshakes_ok_def by blast+

text \<open>No new handshake, and those left are open and not clients.\<close>

lemma handshakes_fewer:
  assumes "handshakes_ok c" "\<And>i fd. i < length (wc_threads c') \<Longrightarrow> wc_threads c' ! i = (fd, Handshaking) \<Longrightarrow>
      i < length (wc_threads c) \<and> wc_threads c ! i = (fd, Handshaking) \<and> fd \<in> wc_open c' \<and> fd \<notin> set (ws_clients (wc_ep c'))"
  shows "handshakes_ok c'"
  unfolding handshakes_ok_def
proof (intro allI impI)
  fix i fd
  assume i: "i < length (wc_threads c')" "wc_threads c' ! i = (fd, Handshaking)"
  note old = assms(2) [OF i]
  have "j = i" if "j < length (wc_threads c')" "wc_threads c' ! j = (fd, Handshaking)" for j
    using handshake_facts(3) [OF assms(1)] old assms(2) [OF that] by blast
  with old show "fd \<in> wc_open c' \<and> fd \<notin> set (ws_clients (wc_ep c')) \<and>
      (\<forall>j < length (wc_threads c'). j \<noteq> i \<longrightarrow> wc_threads c' ! j \<noteq> (fd, Handshaking))" by blast
qed

lemma other_thread:
  assumes "ts[i := (fd, pc)] ! j = (fd', Handshaking)" "pc \<noteq> Handshaking" "i < length ts"
  shows "j \<noteq> i \<and> ts ! j = (fd', Handshaking)"
  using assms by (cases "j = i") simp_all

lemma conns_inv_step: "ws_step c c' \<Longrightarrow> conns_inv c \<Longrightarrow> conns_inv c'"
proof (induction rule: ws_step.induct)
  case (Accept c fd)
  have "handshakes_ok (c\<lparr>wc_open := insert fd (wc_open c), wc_threads := wc_threads c @ [(fd, Handshaking)]\<rparr>)"
    if ok: "clients_ok c" "handshakes_ok c"
    unfolding handshakes_ok_def
  proof (intro allI impI, goal_cases)
    case (1 i fd')
    have new: "j < length (wc_threads c) \<Longrightarrow> wc_threads c ! j \<noteq> (fd, Handshaking)" for j
      using handshake_facts(1) [OF ok(2)] Accept(2) by blast
    show ?case
    proof (cases "i < length (wc_threads c)")
      case True
      then have "wc_threads c ! i = (fd', Handshaking)" using 1 by (simp add: nth_append)
      with handshake_facts [OF ok(2) True this] new [OF True] show ?thesis
        by (auto simp: nth_append less_Suc_eq)
    next
      case False
      then have i: "i = length (wc_threads c)" "fd' = fd" using 1 by (auto simp: less_Suc_eq)
      then show ?thesis using new ok(1) Accept(2) by (auto simp: nth_append less_Suc_eq clients_ok_def)
    qed
  qed
  with Accept show ?case by (auto simp: conns_inv_def clients_ok_def)
next
  case (Refuse i c fd input send_ok)
  have "handshakes_ok (c\<lparr>wc_open := wc_open c - {fd}, wc_threads := (wc_threads c)[i := (fd, Gone)]\<rparr>)"
    if ok: "handshakes_ok c"
  proof (rule handshakes_fewer [OF ok], goal_cases)
    case (1 j fd')
    then have j: "j < length (wc_threads c)" "j \<noteq> i" "wc_threads c ! j = (fd', Handshaking)"
      using other_thread [of "wc_threads c" i fd Gone j fd'] Refuse(1) by simp_all
    moreover have "fd' \<noteq> fd" using handshake_facts(3) [OF ok Refuse(1,2) j(1)] j by auto
    ultimately show ?case using handshake_facts(1,2) [OF ok j(1,3)] by simp
  qed
  with Refuse handshake_facts(2) [OF _ Refuse(1,2)] show ?case by (auto simp: conns_inv_def clients_ok_def)
next
  case (Connect c i fd input)
  have ep: "ws_clients (snd (ws_connect fd input True (wc_ep c))) = ws_clients (wc_ep c) @ [fd]"
    using Connect(4) by (simp add: ws_connect_def)
  have "handshakes_ok (c\<lparr>wc_ep := snd (ws_connect fd input True (wc_ep c)), wc_threads := (wc_threads c)[i := (fd, Serving)]\<rparr>)"
    if ok: "handshakes_ok c"
  proof (rule handshakes_fewer [OF ok], goal_cases)
    case (1 j fd')
    then have j: "j < length (wc_threads c)" "j \<noteq> i" "wc_threads c ! j = (fd', Handshaking)"
      using other_thread [of "wc_threads c" i fd Serving j fd'] Connect(2) by simp_all
    moreover have "fd' \<noteq> fd" using handshake_facts(3) [OF ok Connect(2,3) j(1)] j by auto
    ultimately show ?case using handshake_facts(1,2) [OF ok j(1,3)] by (simp add: ep)
  qed
  with Connect handshake_facts(1,2) [OF _ Connect(2,3)] show ?case by (auto simp: conns_inv_def clients_ok_def ep)
next
  case (Publish c results ev ep)
  from publish_clients [OF Publish(2)] obtain P where P: "ws_clients ep = filter P (ws_clients (wc_ep c))" by blast
  let ?c = "c\<lparr>wc_ep := ep, wc_open := wc_open c - (set (ws_clients (wc_ep c)) - set (ws_clients ep))\<rparr>"
  have "handshakes_ok ?c" if ok: "handshakes_ok c"
  proof (rule handshakes_fewer [OF ok], goal_cases)
    case (1 j fd')
    with handshake_facts(1,2) [OF ok, of j fd'] P show ?case by simp
  qed
  moreover have "clients_ok c \<Longrightarrow> clients_ok ?c" using P by (auto simp: clients_ok_def)
  ultimately show ?case using Publish by (simp add: conns_inv_def)
next
  case (Served c i fd)
  have "handshakes_ok (c\<lparr>wc_threads := (wc_threads c)[i := (fd, Leaving)]\<rparr>)" if ok: "handshakes_ok c"
  proof (rule handshakes_fewer [OF ok], goal_cases)
    case (1 j fd')
    then have "j < length (wc_threads c)" "wc_threads c ! j = (fd', Handshaking)"
      using other_thread [of "wc_threads c" i fd Leaving j fd'] Served(2) by simp_all
    with handshake_facts(1,2) [OF ok this] show ?case by simp
  qed
  with Served show ?case by (simp add: conns_inv_def clients_ok_def)
next
  case (Leave c i fd)
  let ?c = "c\<lparr>wc_ep := ws_disconnect fd (wc_ep c),
    wc_open := (if fd \<in> set (ws_clients (wc_ep c)) then wc_open c - {fd} else wc_open c),
    wc_threads := (wc_threads c)[i := (fd, Gone)]\<rparr>"
  have "handshakes_ok ?c" if ok: "handshakes_ok c"
  proof (rule handshakes_fewer [OF ok], goal_cases)
    case (1 j fd')
    then have j: "j < length (wc_threads c)" "wc_threads c ! j = (fd', Handshaking)"
      using other_thread [of "wc_threads c" i fd Gone j fd'] Leave(2) by simp_all
    with handshake_facts(1,2) [OF ok j] show ?case
      using notin_set_remove1 [of fd' "ws_clients (wc_ep c)" fd] by (auto simp: ws_disconnect_def)
  qed
  moreover have "clients_ok c \<Longrightarrow> clients_ok ?c"
    by (auto simp: clients_ok_def ws_disconnect_def)
  ultimately show ?case using Leave by (simp add: conns_inv_def)
next
  case (Destroy c)
  then show ?case by (simp add: conns_inv_def)
qed

lemma conns_inv_reachable: "ws_reachable c0 c \<Longrightarrow> conns_inv c0 \<Longrightarrow> conns_inv c"
  by (induction rule: ws_reachable.induct) (auto intro: conns_inv_step)

section \<open>Properties\<close>

text \<open>C31. Whatever the interleaving of accepting, handshakes, publishing and leaving, and however
  descriptors are reused: while the endpoint lives, the clients are distinct and all their
  descriptors are open, so that a publish writes to each open connection once and to no closed
  descriptor.\<close>

theorem ws_clients_open:
  assumes "ws_reachable (ws_start eid) c" "wc_alive c"
  shows "distinct (ws_clients (wc_ep c)) \<and> set (ws_clients (wc_ep c)) \<subseteq> wc_open c"
  using conns_inv_reachable [OF assms(1) conns_inv_start] assms(2) by (simp add: conns_inv_def clients_ok_def)

lemma example_key: obtains input where "parse_ws_key input \<noteq> []"
proof -
  have "request_ok [] (ws_request [] [] ''k'' [] CRLF)" by code_simp
  from parse_ws_key_request [OF this, of "[]"] that [of "ws_request [] [] ''k'' [] CRLF @ []"]
  show ?thesis by (simp add: is_space_tab_def)
qed

lemma publish_drops:
  "\<exists>ep'. ws_publish (\<lambda>_. [-1]) event_default ep = Some ep' \<and> ws_clients ep' = []"
proof -
  obtain json where j: "to_json event_default = Some json"
    by (simp add: to_json_def stream_of_def schema_of_def c_read_def event_default_def event_sizes)
  have "ws_send_frame [-1] 1 p = Some (False, [])" for p
    unfolding ws_send_frame_def by (subst send_loop.simps) (simp add: ws_frame_def Let_def)
  then have "\<exists>sent. ws_broadcast (\<lambda>_. [-1]) p fds = Some ([], sent)" for p fds
    by (induction fds) auto
  with j show ?thesis by (force simp: ws_publish_def)
qed

text \<open>The thread of a connection outlives it. A publish whose send fails closes the connection
  and drops the client, but its thread goes on reading the descriptor; when the operating system
  has given the number to a new client, the old thread's end closes the new client's connection
  and drops it. And the destructor does not wait for these threads: one that is still serving
  is left without its endpoint.\<close>

theorem ws_stale_threads:
  "(\<exists>c. ws_reachable (ws_start eid) c \<and> wc_alive c \<and> wc_threads c = [(fd, Gone), (fd, Serving)] \<and>
      fd \<notin> wc_open c \<and> fd \<notin> set (ws_clients (wc_ep c))) \<and>
   (\<exists>c. ws_reachable (ws_start eid) c \<and> \<not> wc_alive c \<and> wc_threads c = [(fd, Serving)])"
proof -
  obtain input where key: "parse_ws_key input \<noteq> []" by (rule example_key)
  let ?c = "\<lambda>ep ts. \<lparr>wc_ep = ep, wc_alive = True, wc_open = {fd}, wc_threads = ts\<rparr>"
  let ?ep0 = "wc_ep (ws_start eid)"
  define ep1 where "ep1 = snd (ws_connect fd input True ?ep0)"
  obtain ep2 where ep2: "ws_publish (\<lambda>_. [-1]) event_default ep1 = Some ep2" "ws_clients ep2 = []"
    using publish_drops by blast
  define ep3 where "ep3 = snd (ws_connect fd input True ep2)"
  have cl: "ws_clients ep1 = [fd]" "ws_clients ep3 = [fd]"
    using key ep2 by (simp_all add: ep1_def ep3_def ws_connect_def ws_start_def)
  have "ws_step (ws_start eid) (?c ?ep0 [(fd, Handshaking)])"
    using ws_step.Accept [of "ws_start eid" fd] by (simp add: ws_start_def)
  from Next [OF First this] have "ws_reachable (ws_start eid) (?c ?ep0 [(fd, Handshaking)])" .
  moreover have "ws_step (?c ?ep0 [(fd, Handshaking)]) (?c ep1 [(fd, Serving)])"
    using ws_step.Connect [of "?c ?ep0 [(fd, Handshaking)]" 0 fd input] key by (simp add: ep1_def)
  ultimately have serving: "ws_reachable (ws_start eid) (?c ep1 [(fd, Serving)])" by (rule Next)
  moreover have "ws_step (?c ep1 [(fd, Serving)]) \<lparr>wc_ep = ep2, wc_alive = True, wc_open = {}, wc_threads = [(fd, Serving)]\<rparr>"
    using ws_step.Publish [of "?c ep1 [(fd, Serving)]" _ _ ep2] ep2 cl by simp
  ultimately have "ws_reachable (ws_start eid) \<lparr>wc_ep = ep2, wc_alive = True, wc_open = {}, wc_threads = [(fd, Serving)]\<rparr>"
    by (rule Next)
  moreover have "ws_step \<lparr>wc_ep = ep2, wc_alive = True, wc_open = {}, wc_threads = [(fd, Serving)]\<rparr>
      (?c ep2 [(fd, Serving), (fd, Handshaking)])"
    using ws_step.Accept [of "\<lparr>wc_ep = ep2, wc_alive = True, wc_open = {}, wc_threads = [(fd, Serving)]\<rparr>" fd] by simp
  ultimately have "ws_reachable (ws_start eid) (?c ep2 [(fd, Serving), (fd, Handshaking)])" by (rule Next)
  moreover have "ws_step (?c ep2 [(fd, Serving), (fd, Handshaking)]) (?c ep3 [(fd, Serving), (fd, Serving)])"
    using ws_step.Connect [of "?c ep2 [(fd, Serving), (fd, Handshaking)]" 1 fd input] key by (simp add: ep3_def)
  ultimately have "ws_reachable (ws_start eid) (?c ep3 [(fd, Serving), (fd, Serving)])" by (rule Next)
  moreover have "ws_step (?c ep3 [(fd, Serving), (fd, Serving)]) (?c ep3 [(fd, Leaving), (fd, Serving)])"
    using ws_step.Served [of "?c ep3 [(fd, Serving), (fd, Serving)]" 0 fd] by simp
  ultimately have "ws_reachable (ws_start eid) (?c ep3 [(fd, Leaving), (fd, Serving)])" by (rule Next)
  moreover have "ws_step (?c ep3 [(fd, Leaving), (fd, Serving)])
      \<lparr>wc_ep = ws_disconnect fd ep3, wc_alive = True, wc_open = {}, wc_threads = [(fd, Gone), (fd, Serving)]\<rparr>"
    using ws_step.Leave [of "?c ep3 [(fd, Leaving), (fd, Serving)]" 0 fd] cl by simp
  ultimately have "ws_reachable (ws_start eid)
      \<lparr>wc_ep = ws_disconnect fd ep3, wc_alive = True, wc_open = {}, wc_threads = [(fd, Gone), (fd, Serving)]\<rparr>"
    by (rule Next)
  moreover have "ws_clients (ws_disconnect fd ep3) = []" using cl by (simp add: ws_disconnect_def)
  ultimately have "\<exists>c. ws_reachable (ws_start eid) c \<and> wc_alive c \<and> wc_threads c = [(fd, Gone), (fd, Serving)] \<and>
      fd \<notin> wc_open c \<and> fd \<notin> set (ws_clients (wc_ep c))"
    by (intro exI [of _ "\<lparr>wc_ep = ws_disconnect fd ep3, wc_alive = True, wc_open = {}, wc_threads = [(fd, Gone), (fd, Serving)]\<rparr>"]) simp
  moreover have "ws_step (?c ep1 [(fd, Serving)])
      \<lparr>wc_ep = ep1\<lparr>ws_running := False\<rparr>, wc_alive = False, wc_open = {}, wc_threads = [(fd, Serving)]\<rparr>"
    using ws_step.Destroy [of "?c ep1 [(fd, Serving)]"] cl by simp
  from Next [OF serving this] have "\<exists>c. ws_reachable (ws_start eid) c \<and> \<not> wc_alive c \<and> wc_threads c = [(fd, Serving)]"
    by (intro exI conjI) auto
  ultimately show ?thesis by (rule conjI)
qed

theorem ws_clients_open_witness:
  "\<exists>c. ws_reachable (ws_start ''w'') c \<and> ws_clients (wc_ep c) = [7] \<and> 7 \<in> wc_open c"
proof -
  obtain input where key: "parse_ws_key input \<noteq> []" by (rule example_key)
  let ?c = "\<lambda>ep ts. \<lparr>wc_ep = ep, wc_alive = True, wc_open = {7 :: int}, wc_threads = ts\<rparr>"
  let ?ep0 = "wc_ep (ws_start ''w'')" and ?ep1 = "snd (ws_connect 7 input True (wc_ep (ws_start ''w'')))"
  have "ws_step (ws_start ''w'') (?c ?ep0 [(7, Handshaking)])"
    using ws_step.Accept [of "ws_start ''w''" 7] by (simp add: ws_start_def)
  from Next [OF First this] have "ws_reachable (ws_start ''w'') (?c ?ep0 [(7, Handshaking)])" .
  moreover have "ws_step (?c ?ep0 [(7, Handshaking)]) (?c ?ep1 [(7, Serving)])"
    using ws_step.Connect [of "?c ?ep0 [(7, Handshaking)]" 0 7 input] key by simp
  ultimately have r: "ws_reachable (ws_start ''w'') (?c ?ep1 [(7, Serving)])" by (rule Next)
  have "ws_clients ?ep1 = [7]" using key by (simp add: ws_connect_def ws_start_def)
  with ws_clients_open [OF r] r show ?thesis by (intro exI [of _ "?c ?ep1 [(7, Serving)]"]) simp
qed

end
