(* ===== verification/Delivery.thy ===== *)
theory Delivery
  imports Pipeline_Laws "HOL-Library.Sublist"
begin

text \<open>
  What the running pipeline of \<^verbatim>\<open>server/main.cpp\<close> does with the events of a whole run: the
  steps of \<^verbatim>\<open>Pipeline\<close> with a record of every event that was routed and every event a script
  thread took, and of the chunks of every stream report. The queue of a script is the list of the events routed to it, and the thread
  takes them from its front. As in \<^verbatim>\<open>Stream_Router\<close> one call of \<^verbatim>\<open>route\<close> or of
  \<^verbatim>\<open>wait_for_trigger\<close> is one step; two threads writing to one queue at the same time are the
  subject of \<^verbatim>\<open>Ring_Interleaving\<close>.
\<close>

section \<open>The record of a run\<close>

datatype action = Routed event | Took nat event | Reported "u8 list list"

text \<open>The copies of an event that the handlers and the routing table of a router put into queue
  \<open>i\<close>; both do not change in a run.\<close>

definition copies :: "'d router \<Rightarrow> nat \<Rightarrow> event \<Rightarrow> event list" where
  "copies r i ev =
     (case stream_of ev of
        None \<Rightarrow> []
      | Some sid \<Rightarrow> replicate (length (filter (to_queue r i) (targets_of r sid))) ev)"

definition delivered :: "'d router \<Rightarrow> nat \<Rightarrow> action list \<Rightarrow> event list" where
  "delivered r i tr = concat (map (\<lambda>a. case a of Routed ev \<Rightarrow> copies r i ev | _ \<Rightarrow> []) tr)"

definition taken :: "nat \<Rightarrow> action list \<Rightarrow> event list" where
  "taken i tr = concat (map (\<lambda>a. case a of Took j ev \<Rightarrow> if j = i then [ev] else [] | _ \<Rightarrow> []) tr)"

text \<open>Whenever the thread takes an event, at most a whole queue of events is waiting.\<close>

definition keeps_up :: "'d router \<Rightarrow> nat \<Rightarrow> action list \<Rightarrow> bool" where
  "keeps_up r i tr \<longleftrightarrow> (\<forall>pre ev rest. tr = pre @ Took i ev # rest \<longrightarrow>
     length (delivered r i pre) \<le> length (taken i pre) + unat QUEUE_CAPACITY)"

text \<open>The events one round of \<^verbatim>\<open>emit_metrics\<close> routes.\<close>

definition tick_events :: "(int \<Rightarrow> int list) \<Rightarrow> u64 \<Rightarrow> 'h pcore \<Rightarrow> event list" where
  "tick_events sends now c =
     (if \<not> tm_enabled (co_telemetry c) then []
      else let (ok, chunks, tel) = pack_stream_metrics now (co_telemetry c);
               evs = (if ok then List.map_filter (metric_event ''streams_v1'' now) chunks else [])
           in case route_all (endpoint_publish sends) evs (c\<lparr>co_telemetry := tel\<rparr>) of
                None \<Rightarrow> []
              | Some c2 \<Rightarrow>
                  (let (ok', chunks', tel') = pack_script_metrics now now (co_telemetry c2)
                   in evs @ (if ok' then List.map_filter (metric_event ''scripts_v1'' now) chunks' else [])))"

definition tick_report :: "u64 \<Rightarrow> 'h pcore \<Rightarrow> action list" where
  "tick_report now c =
     (if \<not> tm_enabled (co_telemetry c) then []
      else case pack_stream_metrics now (co_telemetry c) of (ok, chunks, tel) \<Rightarrow> [Reported chunks])"

inductive pipeline_trace :: "'h pipeline_state \<Rightarrow> action list \<Rightarrow> 'h pipeline_state \<Rightarrow> bool" for st0 where
  Trace_start: "pipeline_trace st0 [] st0"
| Trace_ingest: "pipeline_trace st0 tr st \<Longrightarrow> (plugin, rename_to) \<in> set (ps_plugins st) \<Longrightarrow>
    ingest sends rename_to ev st = Some st' \<Longrightarrow>
    pipeline_trace st0 (tr @ [Routed (rename_stream rename_to ev)]) st'"
| Trace_script: "pipeline_trace st0 tr st \<Longrightarrow> th \<in> set (ps_threads st) \<Longrightarrow>
    wait_for_trigger (sd_queue_idx th) (co_router (ps_core st)) = (Returned (Some ev), r) \<Longrightarrow>
    dispatch_script run dur fmin fmax (sd_dispatch th) ev ((ps_core st)\<lparr>co_router := r\<rparr>) = Some (out, c1) \<Longrightarrow>
    evs = map (rename_stream (sd_output_stream th)) out \<Longrightarrow> route_all (endpoint_publish sends) evs c1 = Some c \<Longrightarrow>
    pipeline_trace st0 (tr @ Took (sd_queue_idx th) ev # map Routed evs) (st\<lparr>ps_core := c\<rparr>)"
| Trace_tick: "pipeline_trace st0 tr st \<Longrightarrow> tm_running (co_telemetry (ps_core st)) \<Longrightarrow>
    emit_tick (endpoint_publish sends) now (ps_core st) = Some c \<Longrightarrow>
    pipeline_trace st0 (tr @ tick_report now (ps_core st) @ map Routed (tick_events sends now (ps_core st)))
      (st\<lparr>ps_core := c\<rparr>)"

text \<open>Exactly the runs of the pipeline have such a record.\<close>

lemma trace_reachable: "pipeline_trace st0 tr st \<Longrightarrow> pipeline_reachable st0 st"
proof (induction rule: pipeline_trace.induct)
  case (Trace_script tr st th ev r run dur fmin fmax out c1 evs sends c)
  then have "script_thread_step (endpoint_publish sends) run dur fmin fmax th (ps_core st) = Ran c"
    by (simp add: script_thread_step_def)
  with Trace_script show ?case by (blast intro: pipeline_reachable.intros Scripted)
qed (blast intro: pipeline_reachable.intros pipeline_step.intros)+

lemma reachable_trace: "pipeline_reachable st0 st \<Longrightarrow> \<exists>tr. pipeline_trace st0 tr st"
proof (induction rule: pipeline_reachable.induct)
  case Start
  show ?case by (blast intro: Trace_start)
next
  case (Step st st')
  then obtain tr where tr: "pipeline_trace st0 tr st" by blast
  from Step(2) show ?case
  proof (cases rule: pipeline_step.cases)
    case (Scripted th sends run dur fmin fmax c)
    then obtain ev r out c1 where "wait_for_trigger (sd_queue_idx th) (co_router (ps_core st)) = (Returned (Some ev), r)"
      "dispatch_script run dur fmin fmax (sd_dispatch th) ev ((ps_core st)\<lparr>co_router := r\<rparr>) = Some (out, c1)"
      "route_all (endpoint_publish sends) (map (rename_stream (sd_output_stream th)) out) c1 = Some c"
      by (auto simp: script_thread_step_def split: prod.splits wait_result.splits option.splits)
    from Trace_script [OF tr Scripted(2) this(1,2) refl this(3)] Scripted(1) show ?thesis by blast
  qed (use tr Trace_ingest Trace_tick in blast)+
qed

section \<open>Queues along a run\<close>

lemma record_append [simp]: "delivered r i [] = []" "taken i [] = []"
  "delivered r i (tr @ tr') = delivered r i tr @ delivered r i tr'" "taken i (tr @ tr') = taken i tr @ taken i tr'"
  "delivered r i (Took j ev # tr) = delivered r i tr" "delivered r i (Routed ev # tr) = copies r i ev @ delivered r i tr"
  "taken i (Took j ev # tr) = (if j = i then ev # taken i tr else taken i tr)" "taken i (Routed ev # tr) = taken i tr"
  "delivered r i (Reported cs # tr) = delivered r i tr" "taken i (Reported cs # tr) = taken i tr"
  by (simp_all add: delivered_def taken_def)

lemma record_tick_report [simp]: "delivered r i (tick_report now c) = []" "taken i (tick_report now c) = []"
  by (simp_all add: tick_report_def split: prod.split)

lemma taken_routed [simp]: "taken i (map Routed evs) = []"
  by (induction evs) simp_all

lemma keeps_up_append: "keeps_up r i (tr @ tr') \<Longrightarrow> keeps_up r i tr"
  unfolding keeps_up_def by (metis append.assoc append_Cons)

lemma keeps_up_take:
  "keeps_up r i (tr @ Took i ev # tr') \<Longrightarrow> length (delivered r i tr) \<le> length (taken i tr) + unat QUEUE_CAPACITY"
  unfolding keeps_up_def by blast

lemma delivered_shape:
  assumes "shape c = shape c'"
  shows "copies (co_router c) = copies (co_router c')" "delivered (co_router c) = delivered (co_router c')"
proof -
  have "to_queue (co_router c) = to_queue (co_router c')"
    using assms by (intro ext) (simp add: shape_def to_queue_def)
  then show eq: "copies (co_router c) = copies (co_router c')"
    using assms by (intro ext) (simp add: copies_def shape_def targets_of_def split: option.split)
  show "delivered (co_router c) = delivered (co_router c')"
    unfolding delivered_def eq ..
qed

text \<open>Queue \<open>i\<close> was given the events \<open>h\<close>, and \<open>n\<close> of them were taken.\<close>

definition holds :: "'d router \<Rightarrow> nat \<Rightarrow> event list \<Rightarrow> nat \<Rightarrow> bool" where
  "holds r i h n \<longleftrightarrow> i < length (rt_queues r) \<and> length (rt_read_positions r) = length (rt_queues r) \<and>
     ring_log (sq_ring (rt_queues r ! i)) h \<and> ring_cap (sq_ring (rt_queues r ! i)) = unat QUEUE_CAPACITY \<and>
     \<not> sq_stopped (rt_queues r ! i) \<and> unat (rt_read_positions r ! i) = n \<and> n \<le> length h"

lemma queue_put_parts: "sq_ring (queue_put ev q) = snd (ring_write (sq_ring q) ev)"
  "sq_stopped (queue_put ev q) = sq_stopped q"
  by (simp_all add: queue_put_def)

lemma queue_puts_log:
  "ring_log (sq_ring q) h \<Longrightarrow> length h + n < 2 ^ 64 \<Longrightarrow>
     ring_log (sq_ring ((queue_put ev ^^ n) q)) (h @ replicate n ev) \<and>
     ring_cap (sq_ring ((queue_put ev ^^ n) q)) = ring_cap (sq_ring q) \<and> sq_stopped ((queue_put ev ^^ n) q) = sq_stopped q"
proof (induction n)
  case (Suc n)
  then have "ring_log (snd (ring_write (sq_ring ((queue_put ev ^^ n) q)) ev)) ((h @ replicate n ev) @ [ev])"
    by (intro ring.write_log) simp_all
  with Suc show ?case by (simp add: queue_put_parts replicate_append_same)
qed simp

lemma route_holds:
  assumes "route (endpoint_publish sends) ev c = Some c'" "core_ok c" "holds (co_router c) i h n"
    and "length (h @ copies (co_router c) i ev) < 2 ^ 64"
  shows "holds (co_router c') i (h @ copies (co_router c) i ev) n \<and> keeps c c'"
proof
  from assms(1) obtain sid where sid: "stream_of ev = Some sid" by (auto simp: route_def split: option.splits)
  have i: "i < length (rt_queues (co_router c))" using assms(3) by (simp add: holds_def)
  let ?n = "length (filter (to_queue (co_router c) i) (targets_of (co_router c) sid))"
  have "length h + ?n < 2 ^ 64" using assms(4) sid by (simp add: copies_def)
  with queue_puts_log [of "rt_queues (co_router c) ! i" h ?n ev] route_queue [OF assms(1) sid i] assms(3) sid
  show "holds (co_router c') i (h @ copies (co_router c) i ev) n"
    by (simp add: holds_def copies_def)
  show "keeps c c'" by (rule route_keeps [OF assms(2,1)])
qed

lemma route_all_holds:
  assumes "route_all (endpoint_publish sends) evs c = Some c'" "core_ok c" "holds (co_router c) i h n"
    and "length (h @ delivered (co_router c) i (map Routed evs)) < 2 ^ 64"
  shows "holds (co_router c') i (h @ delivered (co_router c) i (map Routed evs)) n \<and> keeps c c'"
  using assms
proof (induction evs arbitrary: c h)
  case Nil
  then show ?case by (simp add: keeps_refl)
next
  case (Cons ev evs)
  then obtain c1 where c1: "route (endpoint_publish sends) ev c = Some c1"
    "route_all (endpoint_publish sends) evs c1 = Some c'" by (auto split: option.splits)
  from route_holds [OF c1(1) Cons.prems(2,3)] Cons.prems(4)
  have h: "holds (co_router c1) i (h @ copies (co_router c) i ev) n" "keeps c c1" by simp_all
  then have s: "delivered (co_router c1) = delivered (co_router c)"
    by (intro delivered_shape) (simp add: keeps_def)
  from Cons.IH [OF c1(2) keeps_ok [OF h(2)] h(1)] Cons.prems(4) keeps_trans [OF h(2)] show ?case by (simp add: s)
qed

text \<open>A round of the telemetry routes its events in two groups.\<close>

lemma emit_tick_routes:
  assumes "emit_tick (endpoint_publish sends) now c = Some c'" "tm_enabled (co_telemetry c)"
  obtains ok chunks tel c2 ok' chunks' tel' evs evs' where
    "pack_stream_metrics now (co_telemetry c) = (ok, chunks, tel)"
    "route_all (endpoint_publish sends) evs (c\<lparr>co_telemetry := tel\<rparr>) = Some c2"
    "pack_script_metrics now now (co_telemetry c2) = (ok', chunks', tel')"
    "route_all (endpoint_publish sends) evs' (c2\<lparr>co_telemetry := tel'\<rparr>) = Some c'"
    "tick_events sends now c = evs @ evs'"
proof -
  let ?ev = "\<lambda>s. List.map_filter (metric_event s now)"
  obtain ok chunks tel where s: "pack_stream_metrics now (co_telemetry c) = (ok, chunks, tel)"
    by (metis prod_cases3)
  let ?c1 = "c\<lparr>co_telemetry := tel\<rparr>" and ?evs = "if ok then ?ev ''streams_v1'' chunks else []"
  from assms s obtain c2 where c2: "route_all (endpoint_publish sends) ?evs ?c1 = Some c2"
    by (cases ok) (auto simp: emit_tick_def Let_def split: option.splits)
  obtain ok' chunks' tel' where s': "pack_script_metrics now now (co_telemetry c2) = (ok', chunks', tel')"
    by (metis prod_cases3)
  let ?c3 = "c2\<lparr>co_telemetry := tel'\<rparr>" and ?evs' = "if ok' then ?ev ''scripts_v1'' chunks' else []"
  have "(if ok then route_all (endpoint_publish sends) (?ev ''streams_v1'' chunks) ?c1 else Some ?c1) = Some c2"
    using c2 by (cases ok) simp_all
  with assms have "route_all (endpoint_publish sends) ?evs' ?c3 = Some c'"
    by (cases ok') (simp_all add: emit_tick_def s s' Let_def)
  moreover have "tick_events sends now c = ?evs @ ?evs'"
    using assms(2) s s' c2 by (simp only: tick_events_def Let_def prod.case option.case if_False not_True_eq_False)
  ultimately show thesis using that [OF s c2 s'] by blast
qed

lemma tick_holds:
  assumes "emit_tick (endpoint_publish sends) now c = Some c'" "core_ok c" "holds (co_router c) i h n"
    and "length (h @ delivered (co_router c) i (map Routed (tick_events sends now c))) < 2 ^ 64"
  shows "holds (co_router c') i (h @ delivered (co_router c) i (map Routed (tick_events sends now c))) n"
proof (cases "tm_enabled (co_telemetry c)")
  case False
  with assms show ?thesis by (simp add: emit_tick_def tick_events_def)
next
  case True
  from emit_tick_routes [OF assms(1) True] obtain ok chunks tel c2 ok' chunks' tel' evs evs' where
    t: "pack_stream_metrics now (co_telemetry c) = (ok, chunks, tel)"
      "pack_script_metrics now now (co_telemetry c2) = (ok', chunks', tel')"
    and c2: "route_all (endpoint_publish sends) evs (c\<lparr>co_telemetry := tel\<rparr>) = Some c2"
    and c': "route_all (endpoint_publish sends) evs' (c2\<lparr>co_telemetry := tel'\<rparr>) = Some c'"
    and evs: "tick_events sends now c = evs @ evs'" by metis
  let ?c3 = "c2\<lparr>co_telemetry := tel'\<rparr>"
  have k1: "keeps c (c\<lparr>co_telemetry := tel\<rparr>)" by (rule keeps_telemetry [OF assms(2) tm_running_pack(1) [OF t(1)]])
  from route_all_holds [OF c2 keeps_ok [OF k1], of i h n] assms(3,4)
  have h2: "holds (co_router c2) i (h @ delivered (co_router c) i (map Routed evs)) n" "keeps (c\<lparr>co_telemetry := tel\<rparr>) c2"
    by (simp_all add: evs)
  have k3: "keeps c ?c3"
    using keeps_trans [OF k1 h2(2)] keeps_telemetry [OF keeps_ok [OF h2(2)] tm_running_pack(2) [OF t(2)]] by (rule keeps_trans)
  then have d: "delivered (co_router ?c3) = delivered (co_router c)"
    by (intro delivered_shape) (simp add: keeps_def)
  from route_all_holds [OF c' keeps_ok [OF k3], of i "h @ delivered (co_router c) i (map Routed evs)" n] h2(1) assms(4)
  show ?thesis by (simp only: evs d) (simp add: d)
qed

text \<open>A take gives the first event that waits, if the thread keeps up.\<close>

lemma take_holds:
  assumes "wait_for_trigger j r = (Returned (Some ev), r')" "holds r i h n"
  shows "holds r' i h (if j = i then Suc n else n)" "j = i \<Longrightarrow> n < length h"
    "j = i \<Longrightarrow> length h \<le> n + unat QUEUE_CAPACITY \<Longrightarrow> ev = h ! n"
proof -
  let ?q = "rt_queues r ! j" and ?pos = "rt_read_positions r ! j"
  from assms(1) obtain pos where t: "queue_take ?q ?pos = (Returned (Some ev), pos)"
    and r': "r' = r\<lparr>rt_read_positions := (rt_read_positions r)[j := pos]\<rparr>"
    by (auto simp: wait_for_trigger_def split: if_splits prod.splits)
  from t have pos: "pos = ?pos + 1" "?pos < ring_head (sq_ring ?q)"
    by (auto simp: queue_take_def Let_def split: if_splits option.splits)
  have "unat ?pos < length h \<and> unat (?pos + 1) = Suc (unat ?pos)" if "j = i"
  proof -
    have log: "ring_log (sq_ring ?q) h" using assms(2) that by (simp add: holds_def)
    then have "unat ?pos < length h" using pos(2) by (simp add: word_less_nat_alt ring.head_log)
    with ring.log_short [OF log] show ?thesis by (simp add: unat_Suc_bound)
  qed
  with assms(2) show "holds r' i h (if j = i then Suc n else n)" "j = i \<Longrightarrow> n < length h"
    by (auto simp: holds_def r' pos(1))
  assume i: "j = i" "length h \<le> n + unat QUEUE_CAPACITY"
  from i assms(2) have h: "ring_log (sq_ring ?q) h" "unat ?pos = n" "ring_cap (sq_ring ?q) = unat QUEUE_CAPACITY"
    "\<not> sq_stopped ?q" by (simp_all add: holds_def)
  have "unat ?pos < length h" using \<open>j = i \<Longrightarrow> n < length h\<close> i(1) h(2) by simp
  from queue_take_next [OF h(1) this _ h(4)] i(2) h(2,3) t show "ev = h ! n" by simp
qed

lemma prefix_snoc_nth: "prefix xs ys \<Longrightarrow> length xs < length ys \<Longrightarrow> prefix (xs @ [ys ! length xs]) ys"
  by (auto simp: prefix_def nth_append neq_Nil_conv)

lemma keeps_up_more:
  "keeps_up r i tr \<longrightarrow> prefix (taken i tr) h \<Longrightarrow> taken i tr' = [] \<Longrightarrow>
     keeps_up r i (tr @ tr') \<longrightarrow> prefix (taken i (tr @ tr')) (h @ x)"
  by (auto dest: keeps_up_append intro: prefix_prefix)

lemma trace_holds:
  assumes "pipeline_trace st0 tr st" "pipeline_ok st0" "r = co_router (ps_core st0)" "holds r i [] 0"
    and "length (delivered r i tr) < 2 ^ 64"
  shows "holds (co_router (ps_core st)) i (delivered r i tr) (length (taken i tr)) \<and>
    (keeps_up r i tr \<longrightarrow> prefix (taken i tr) (delivered r i tr))"
  using assms(1,5)
proof (induction rule: pipeline_trace.induct)
  case Trace_start
  then show ?case using assms(3,4) by simp
next
  case (Trace_ingest tr st plugin rename_to sends ev st')
  note reach = reachable_ok [OF trace_reachable [OF Trace_ingest(1)] assms(2)]
  then have core: "core_ok (ps_core st)" by (simp add: pipeline_ok_def)
  from reach have "shape (ps_core st) = shape (ps_core st0)" by simp
  note r = delivered_shape [OF this, folded assms(3)]
  from Trace_ingest(3) have c: "route (endpoint_publish sends) (rename_stream rename_to ev) (ps_core st) = Some (ps_core st')"
    by (auto simp: ingest_def)
  from Trace_ingest.IH Trace_ingest.prems
  have ih: "holds (co_router (ps_core st)) i (delivered r i tr) (length (taken i tr))"
    "keeps_up r i tr \<longrightarrow> prefix (taken i tr) (delivered r i tr)" by simp_all
  let ?ev = "rename_stream rename_to ev"
  from route_holds [OF c core ih(1)] Trace_ingest.prems
  have "holds (co_router (ps_core st')) i (delivered r i tr @ copies r i ?ev) (length (taken i tr))" by (simp add: r)
  then show ?case using keeps_up_more [OF ih(2), of "[Routed ?ev]" "copies r i ?ev"] by simp
next
  case (Trace_script tr st th ev r' run dur fmin fmax out c1 evs sends c)
  let ?j = "sd_queue_idx th" and ?h = "delivered r i tr" and ?n = "length (taken i tr)"
  note reach = reachable_ok [OF trace_reachable [OF Trace_script(1)] assms(2)]
  then have core: "core_ok (ps_core st)" by (simp add: pipeline_ok_def)
  from Trace_script.IH Trace_script.prems
  have ih: "holds (co_router (ps_core st)) i ?h ?n" "keeps_up r i tr \<longrightarrow> prefix (taken i tr) ?h" by simp_all
  note t = take_holds [OF Trace_script(3) ih(1)]
  note k1 = wait_keeps [OF core Trace_script(3)]
  note k2 = keeps_trans [OF k1 dispatch_keeps [OF keeps_ok [OF k1] Trace_script(4)]]
  have "wr_rings (co_registry ((ps_core st)\<lparr>co_router := r'\<rparr>)) = []" using core by (simp add: core_ok_def)
  from dispatch_no_rings(2) [OF this Trace_script(4)] have c1: "co_router c1 = r'" by auto
  from reach k2 have "shape c1 = shape (ps_core st0)" by (simp add: keeps_def)
  note r = delivered_shape [OF this, folded assms(3)]
  from route_all_holds [OF Trace_script(6) keeps_ok [OF k2]] t(1) Trace_script.prems
  have "holds (co_router c) i (?h @ delivered r i (map Routed evs)) (if ?j = i then Suc ?n else ?n)"
    by (simp add: c1 r(2) [unfolded c1])
  moreover have "prefix (taken i (tr @ [Took ?j ev])) ?h" if up: "keeps_up r i (tr @ Took ?j ev # map Routed evs)"
  proof (cases "?j = i")
    case True
    from up True have "length ?h \<le> ?n + unat QUEUE_CAPACITY" using keeps_up_take by metis
    with t(2,3) True ih(2) keeps_up_append [OF up] show ?thesis by (simp add: prefix_snoc_nth)
  qed (use ih(2) keeps_up_append [OF up] in simp)
  ultimately show ?case by (auto intro: prefix_prefix)
next
  case (Trace_tick tr st sends now c)
  note reach = reachable_ok [OF trace_reachable [OF Trace_tick(1)] assms(2)]
  then have core: "core_ok (ps_core st)" by (simp add: pipeline_ok_def)
  from reach have "shape (ps_core st) = shape (ps_core st0)" by simp
  note r = delivered_shape [OF this, folded assms(3)]
  from Trace_tick.IH Trace_tick.prems
  have ih: "holds (co_router (ps_core st)) i (delivered r i tr) (length (taken i tr))"
    "keeps_up r i tr \<longrightarrow> prefix (taken i tr) (delivered r i tr)" by simp_all
  let ?evs = "map Routed (tick_events sends now (ps_core st))"
  from tick_holds [OF Trace_tick(3) core ih(1)] Trace_tick.prems
  have "holds (co_router c) i (delivered r i tr @ delivered r i ?evs) (length (taken i tr))" by (simp add: r)
  then show ?case
    using keeps_up_more [OF ih(2), of "tick_report now (ps_core st) @ ?evs" "delivered r i ?evs"] by simp
qed

section \<open>Queues at the start\<close>

definition fresh :: "'d router \<Rightarrow> bool" where
  "fresh r \<longleftrightarrow> length (rt_read_positions r) = length (rt_queues r) \<and> (\<forall>i < length (rt_queues r). holds r i [] 0)"

lemma register_queue_fresh:
  assumes "fresh r" "register_script_queue QUEUE_CAPACITY r = Some (i, r')"
  shows "fresh (register_handler sid sub dp i r')"
proof -
  from assms(2) obtain q where q: "ring_new event_default QUEUE_CAPACITY = Some q"
    and r': "r' = r\<lparr>rt_queues := rt_queues r @ [\<lparr>sq_ring = q, sq_stopped = False\<rparr>],
      rt_read_positions := rt_read_positions r @ [0]\<rparr>"
    by (auto simp: register_script_queue_def split: option.splits)
  have "ring_log q [] \<and> ring_cap q = unat QUEUE_CAPACITY"
    using ring_new_log [OF q] by (simp add: QUEUE_CAPACITY_def)
  with assms(1) show ?thesis
    by (auto simp: fresh_def holds_def r' register_handler_def nth_append less_Suc_eq)
qed

lemma enter_script_fresh:
  "fresh (co_router (ps_core st)) \<Longrightarrow> enter_script sec script st = Some st' \<Longrightarrow> fresh (co_router (ps_core st'))"
  by (auto simp: enter_script_def Let_def register_script_def intro: register_queue_fresh)

lemma add_scripts_fresh:
  "fresh (co_router (ps_core st)) \<Longrightarrow> add_scripts env secs st = Some st' \<Longrightarrow> fresh (co_router (ps_core st'))"
proof (induction secs arbitrary: st)
  case (Cons sec secs)
  from Cons.prems(2) obtain st1 where st1: "add_script env sec st = Some st1" "add_scripts env secs st1 = Some st'"
    by (auto split: option.splits)
  have "fresh (co_router (ps_core st1))"
    using st1(1) Cons.prems(1) by (auto simp: add_script_def intro: enter_script_fresh split: option.splits bool.splits)
  from Cons.IH [OF this st1(2)] show ?case .
qed simp

lemma start_fresh: "start_pipeline env cfg = Started st \<Longrightarrow> fresh (co_router (ps_core st))"
proof -
  assume "start_pipeline env cfg = Started st"
  then obtain st0 where s: "add_scripts env (of_type cfg ''script'') (wire env cfg) = Some st0"
    and st: "co_router (ps_core st) = co_router (ps_core st0)"
    by (auto simp: start_pipeline_def split: option.splits list.splits if_splits)
  have "fresh (co_router (ps_core (wire env cfg)))"
    by (simp add: wire_def fresh_def router_set_telemetry_def set_routes_def set_publisher_def router_new_def)
  from add_scripts_fresh [OF this s] show ?thesis by (simp only: st)
qed

section \<open>Property\<close>



end
