(* ===== verification/Publishing.thy ===== *)
theory Publishing
  imports Delivery
begin

text \<open>
  What the publisher endpoints of a running pipeline receive over a whole run: the counterpart
  of \<^verbatim>\<open>Delivery\<close> for \<^verbatim>\<open>StreamRouter::route\<close>'s calls of
  \<^verbatim>\<open>Publisher::publish_to\<close> in \<^verbatim>\<open>core/stream_router.hpp\<close>. A relation that every routed
  event extends is kept through the steps of the threads (the locale \<open>event_sink\<close>), and the
  state of an endpoint is such a relation.
\<close>

section \<open>Routed events\<close>

definition routed :: "action list \<Rightarrow> event list" where
  "routed tr = concat (map (\<lambda>a. case a of Routed ev \<Rightarrow> [ev] | _ \<Rightarrow> []) tr)"

lemma routed_append [simp]: "routed [] = []" "routed (tr @ tr') = routed tr @ routed tr'"
  "routed (Took j ev # tr) = routed tr" "routed (Routed ev # tr) = ev # routed tr"
  "routed (Reported cs # tr) = routed tr"
  by (simp_all add: routed_def)

lemma routed_tick_report [simp]: "routed (tick_report now c) = []"
  by (simp add: tick_report_def split: prod.split)

lemma routed_map [simp]: "routed (map Routed evs) = evs"
  by (induction evs) simp_all

text \<open>What decides where an event is published.\<close>

definition wiring :: "'h pcore \<Rightarrow> 'h dispatch_data handler_entry umap \<times> string list umap \<times> bool \<times> endpoint publisher" where
  "wiring c = (rt_handlers (co_router c), rt_route_table (co_router c), rt_publisher (co_router c), co_publisher c)"

lemma wiring_telemetry [simp]: "wiring (c\<lparr>co_telemetry := tel\<rparr>) = wiring c"
  by (simp add: wiring_def)

lemma wiring_wait: "wait_for_trigger i (co_router c) = (res, r) \<Longrightarrow> wiring (c\<lparr>co_router := r\<rparr>) = wiring c"
  by (auto simp: wait_for_trigger_def wiring_def split: if_splits prod.splits)

text \<open>What every step of a recorded run keeps holds along the whole run.\<close>

locale trace_invariant =
  fixes P :: "'h pcore \<Rightarrow> action list \<Rightarrow> bool"
  assumes routes: "P c tr \<Longrightarrow> route_all (endpoint_publish sends) evs c = Some c' \<Longrightarrow> P c' (tr @ map Routed evs)"
    and takes: "P c tr \<Longrightarrow> wr_rings (co_registry c) = [] \<Longrightarrow>
      wait_for_trigger i (co_router c) = (Returned (Some ev), r) \<Longrightarrow>
      dispatch_script run dur fmin fmax (dp :: 'h dispatch_data) ev (c\<lparr>co_router := r\<rparr>) = Some (out, c') \<Longrightarrow>
      P c' (tr @ [Took i ev])"
    and ticks: "P c tr \<Longrightarrow> emit_tick (endpoint_publish sends) now c = Some c' \<Longrightarrow>
      P c' (tr @ tick_report now c @ map Routed (tick_events sends now c))"
begin

lemma trace_kept:
  assumes "pipeline_trace st0 tr st" "P (ps_core st0) []" "pipeline_ok st0"
  shows "P (ps_core st) tr"
  using assms(1)
proof (induction rule: pipeline_trace.induct)
  case Trace_start
  show ?case by (rule assms(2))
next
  case (Trace_ingest tr st plugin rename_to sends ev st')
  then have "route_all (endpoint_publish sends) [rename_stream rename_to ev] (ps_core st) = Some (ps_core st')"
    by (auto simp: ingest_def)
  from routes [OF Trace_ingest.IH this] show ?case by simp
next
  case (Trace_script tr st th ev r run dur fmin fmax out c1 evs sends c)
  have "wr_rings (co_registry (ps_core st)) = []"
    using reachable_ok [OF trace_reachable [OF Trace_script(1)] assms(3)] by (simp add: pipeline_ok_def core_ok_def)
  from routes [OF takes [OF Trace_script.IH this Trace_script(3,4)] Trace_script(6)] show ?case by simp
next
  case (Trace_tick tr st sends now c)
  from ticks [OF Trace_tick.IH Trace_tick(3)] show ?case by simp
qed

end

locale event_sink =
  fixes P :: "'h pcore \<Rightarrow> event list \<Rightarrow> bool"
  assumes frame: "P c evs \<Longrightarrow> wiring c' = wiring c \<Longrightarrow> P c' evs"
    and extended: "P c evs \<Longrightarrow> route (endpoint_publish sends) ev c = Some c' \<Longrightarrow> P c' (evs @ [ev])"
begin

lemma all_extended:
  "P c evs \<Longrightarrow> route_all (endpoint_publish sends) new c = Some c' \<Longrightarrow> P c' (evs @ new)"
proof (induction new arbitrary: c evs)
  case (Cons ev new)
  then obtain c1 where c1: "route (endpoint_publish sends) ev c = Some c1"
    "route_all (endpoint_publish sends) new c1 = Some c'" by (auto split: option.splits)
  from Cons.IH [OF extended [OF Cons.prems(1) c1(1)] c1(2)] show ?case by simp
qed simp

lemma tick_extended:
  assumes "P c evs" "emit_tick (endpoint_publish sends) now c = Some c'"
  shows "P c' (evs @ tick_events sends now c)"
proof (cases "tm_enabled (co_telemetry c)")
  case False
  with assms show ?thesis by (simp add: emit_tick_def tick_events_def)
next
  case True
  from emit_tick_routes [OF assms(2) True] obtain ok chunks tel c2 ok' chunks' tel' evs1 evs2 where
    "route_all (endpoint_publish sends) evs1 (c\<lparr>co_telemetry := tel\<rparr>) = Some c2"
    "route_all (endpoint_publish sends) evs2 (c2\<lparr>co_telemetry := tel'\<rparr>) = Some c'"
    and e: "tick_events sends now c = evs1 @ evs2" by metis
  from all_extended [OF frame [OF all_extended [OF frame [OF assms(1)] this(1)]] this(2)] show ?thesis
    by (simp add: e)
qed

end

sublocale event_sink \<subseteq> along: trace_invariant "\<lambda>c tr. P c (routed tr)"
proof
  show "P c' (routed (tr @ map Routed evs))"
    if "P c (routed tr)" "route_all (endpoint_publish sends) evs c = Some c'" for c tr sends evs c'
    using all_extended [OF that] by simp
  show "P c' (routed (tr @ [Took i ev]))"
    if "P c (routed tr)" "wr_rings (co_registry c) = []" "wait_for_trigger i (co_router c) = (Returned (Some ev), r)"
      "dispatch_script run dur fmin fmax dp ev (c\<lparr>co_router := r\<rparr>) = Some (out, c')"
    for c tr i ev r run dur fmin fmax dp out c'
  proof -
    have "wiring c' = wiring c"
      using dispatch_no_rings(2) [OF _ that(4)] that(2) wiring_wait [OF that(3)] by auto
    from frame [OF that(1) this] show ?thesis by simp
  qed
  show "P c' (routed (tr @ tick_report now c @ map Routed (tick_events sends now c)))"
    if "P c (routed tr)" "emit_tick (endpoint_publish sends) now c = Some c'" for c tr sends now c'
    using tick_extended [OF that] by simp
qed

section \<open>One endpoint\<close>

text \<open>The copies of an event that go to endpoint \<open>e\<close>: a handler of the same name comes first.\<close>

definition publishes :: "'h dispatch_data router \<Rightarrow> string \<Rightarrow> bool" where
  "publishes r e \<longleftrightarrow> map_of (rt_handlers r) e = None \<and> rt_publisher r"

definition sent :: "'h dispatch_data router \<Rightarrow> string \<Rightarrow> event \<Rightarrow> event list" where
  "sent r e ev =
     (case stream_of ev of
        None \<Rightarrow> []
      | Some sid \<Rightarrow>
          if publishes r e then replicate (length (filter (\<lambda>t. t = e) (targets_of r sid))) ev else [])"

text \<open>The endpoint published the events in this order, each time with some results of
  \<^verbatim>\<open>send\<close>.\<close>

inductive ep_receives :: "endpoint \<Rightarrow> event list \<Rightarrow> endpoint \<Rightarrow> bool" for ep0 where
  Nothing: "ep_receives ep0 [] ep0"
| One_more: "ep_receives ep0 evs ep \<Longrightarrow> endpoint_publish sends ev ep = Some ep' \<Longrightarrow> ep_receives ep0 (evs @ [ev]) ep'"

definition ep_sink :: "'h dispatch_data router \<Rightarrow> string \<Rightarrow> endpoint \<Rightarrow> 'h pcore \<Rightarrow> event list \<Rightarrow> bool" where
  "ep_sink r e ep0 c evs \<longleftrightarrow> rt_handlers (co_router c) = rt_handlers r \<and>
     rt_route_table (co_router c) = rt_route_table r \<and> rt_publisher (co_router c) = rt_publisher r \<and>
     (\<exists>ep. map_of (pb_endpoints (co_publisher c)) e = Some ep \<and> ep_receives ep0 evs ep)"

lemma deliver_sink:
  assumes "deliver (endpoint_publish sends) ev sid t c = Some c'" "ep_sink r e ep0 c evs"
  shows "ep_sink r e ep0 c' (if t = e \<and> publishes r e then evs @ [ev] else evs)"
proof (cases "publishes r t \<and> has_endpoint t (co_publisher c)")
  case False
  have "t \<noteq> e \<or> \<not> publishes r e"
    using False assms(2) by (auto simp: ep_sink_def has_endpoint_def)
  with False assms show ?thesis
    by (auto simp: publishes_def deliver_def ep_sink_def Let_def split: option.splits if_splits)
next
  case True
  then obtain ep where ep: "map_of (pb_endpoints (co_publisher c)) t = Some ep" by (auto simp: has_endpoint_def)
  from True assms obtain p tel where p: "publish_to (endpoint_publish sends) ev t (co_publisher c) (co_telemetry c) = Some (p, tel)"
    and c': "c' = c\<lparr>co_publisher := p, co_telemetry := tel\<rparr>"
    by (auto simp: publishes_def deliver_def ep_sink_def split: option.splits)
  from p ep obtain ep' where ep': "endpoint_publish sends ev ep = Some ep'"
    and p': "p = (co_publisher c)\<lparr>pb_endpoints := AList.update t ep' (pb_endpoints (co_publisher c))\<rparr>"
    by (auto simp: publish_to_def split: option.splits)
  show ?thesis using True assms(2) ep One_more [OF _ ep', of ep0 evs]
    by (auto simp: ep_sink_def c' p' update_conv')
qed

lemma deliver_all_sink:
  "deliver_all (endpoint_publish sends) ev sid ts c = Some c' \<Longrightarrow> ep_sink r e ep0 c evs \<Longrightarrow>
     ep_sink r e ep0 c' (evs @ (if publishes r e then replicate (length (filter (\<lambda>t. t = e) ts)) ev else []))"
proof (induction ts arbitrary: c evs)
  case (Cons t ts)
  then obtain c1 where c1: "deliver (endpoint_publish sends) ev sid t c = Some c1"
    "deliver_all (endpoint_publish sends) ev sid ts c1 = Some c'" by (auto split: option.splits)
  from Cons.IH [OF c1(2) deliver_sink [OF c1(1) Cons.prems(2)]] show ?case
    by (cases "t = e"; cases "publishes r e") simp_all
qed simp

lemma route_sink:
  assumes "route (endpoint_publish sends) ev c = Some c'" "ep_sink r e ep0 c evs"
  shows "ep_sink r e ep0 c' (evs @ sent r e ev)"
proof -
  from assms(1) obtain sid where sid: "stream_of ev = Some sid" by (auto simp: route_def split: option.splits)
  with assms(1) obtain seq reg tel where
    "deliver_all (endpoint_publish sends) ev sid (targets_of (co_router c) sid) (c\<lparr>co_registry := reg, co_telemetry := tel\<rparr>) = Some c'"
    by (fastforce simp: route_def targets_of_def split: option.splits)
  moreover have "ep_sink r e ep0 (c\<lparr>co_registry := reg, co_telemetry := tel\<rparr>) evs"
    using assms(2) by (simp add: ep_sink_def)
  ultimately have "ep_sink r e ep0 c' (evs @ (if publishes r e
      then replicate (length (filter (\<lambda>t. t = e) (targets_of (co_router c) sid))) ev else []))"
    by (rule deliver_all_sink)
  moreover have "targets_of (co_router c) sid = targets_of r sid"
    using assms(2) by (simp add: ep_sink_def targets_of_def)
  ultimately show ?thesis by (cases "publishes r e") (simp_all add: sent_def sid)
qed

interpretation sink: event_sink "\<lambda>c evs. ep_sink r e ep0 c (concat (map (sent r e) evs))" for r e ep0
proof
  show "ep_sink r e ep0 c' (concat (map (sent r e) evs))"
    if "ep_sink r e ep0 c (concat (map (sent r e) evs))" "wiring c' = wiring c" for c c' evs
    using that by (simp add: ep_sink_def wiring_def)
  show "ep_sink r e ep0 c' (concat (map (sent r e) (evs @ [ev])))"
    if "ep_sink r e ep0 c (concat (map (sent r e) evs))" "route (endpoint_publish sends) ev c = Some c'" for c evs sends ev c'
    using route_sink [OF that(2,1)] by simp
qed

text \<open>What three classes of endpoint have then received.\<close>

lemma stdout_receives:
  "ep_receives (Stdout_endpoint s) evs ep \<Longrightarrow> \<exists>s'. ep = Stdout_endpoint s' \<and> so_id s' = so_id s \<and>
     so_out s' = so_out s @ concat (map (\<lambda>ev. ''['' @ so_id s @ '']'' @ the (event_fields ev)) evs)"
proof (induction rule: ep_receives.induct)
  case (One_more evs ep sends ev ep')
  then show ?case by (auto simp: stdout_publish_def)
qed simp

lemma file_receives:
  "ep_receives (File_endpoint f) evs ep \<Longrightarrow> \<exists>f'. ep = File_endpoint f' \<and> fe_path f' = fe_path f \<and>
     fe_out f' = fe_out f @ concat (map (\<lambda>ev. show_nat (unat (ev_timestamp_ns ev)) @ the (event_fields ev)) evs)"
proof (induction rule: ep_receives.induct)
  case (One_more evs ep sends ev ep')
  then show ?case by (auto simp: file_publish_def)
qed simp

lemma http_receives:
  "ep_receives (Http_endpoint h) evs ep \<Longrightarrow> \<exists>h'. ep = Http_endpoint h' \<and>
     he_payload h' = (if evs = [] then he_payload h else chars_of (payload_of (last evs)))"
proof (induction rule: ep_receives.induct)
  case (One_more evs ep sends ev ep')
  then show ?case by (auto simp: http_publish_def)
qed simp

text \<open>A run of a configuration with one route, to stdout.\<close>

definition example_out_cfg :: config where
  "example_out_cfg = \<lparr>cfg_sections =
     [\<lparr>sec_type = ''ingestor'', sec_kv = [(''id'', ''i''), (''plugin'', ''p.so'')], sec_multi = []\<rparr>,
      \<lparr>sec_type = ''routes'', sec_kv = [(''s'', ''stdout'')], sec_multi = []\<rparr>]\<rparr>"

lemma example_out_run:
  obtains st0 st where "start_pipeline example_env example_out_cfg = Started st0"
    "pipeline_trace st0 [Routed (set_stream ''s'' event_default)] st"
    "map_of (pb_endpoints (co_publisher (ps_core st0))) ''stdout'' = Some (Stdout_endpoint \<lparr>so_id = ''stdout'', so_out = []\<rparr>)"
    "rt_handlers (co_router (ps_core st0)) = []" "rt_publisher (co_router (ps_core st0))"
    "rt_route_table (co_router (ps_core st0)) = [(''s'', [''stdout''])]"
proof -
  let ?ev = "set_stream ''s'' event_default" and ?s = "\<lparr>so_id = ''stdout'', so_out = []\<rparr>"
  let ?w = "wire example_env example_out_cfg"
  let ?st0 = "?w\<lparr>ps_plugins := [(''p.so'', [])],
    ps_core := (ps_core ?w)\<lparr>co_telemetry := telemetry_start (co_telemetry (ps_core ?w))\<rparr>\<rparr>"
  have "of_type example_out_cfg ''script'' = []" by code_simp
  moreover have "load_plugins example_env (of_type example_out_cfg ''ingestor'') = Some [(''p.so'', [])]" by code_simp
  ultimately have start: "start_pipeline example_env example_out_cfg = Started ?st0" by (simp add: start_pipeline_def)
  have "parse_routes example_out_cfg = [(''s'', [''stdout''])]" by code_simp
  then have r: "rt_handlers (co_router (ps_core ?w)) = []" "rt_publisher (co_router (ps_core ?w))"
    "rt_route_table (co_router (ps_core ?w)) = [(''s'', [''stdout''])]"
    by (simp_all add: wire_def router_set_telemetry_def set_routes_def set_publisher_def router_new_def)
  have "map_of (pb_endpoints (build_endpoints (pe_os example_env) example_out_cfg
      (publisher_set_telemetry True publisher_new))) ''stdout'' = Some (Stdout_endpoint ?s)" by code_simp
  then have ep: "map_of (pb_endpoints (co_publisher (ps_core ?st0))) ''stdout'' = Some (Stdout_endpoint ?s)"
    by (simp add: wire_def)
  have s: "stream_of ?ev = Some ''s''" by (simp add: stream_of_set_stream c_str_simps)
  have "\<exists>c. route (endpoint_publish (\<lambda>_. [])) ?ev (ps_core ?st0) = Some c"
  proof -
    obtain seq reg tel where p: "push ?ev (co_registry (ps_core ?st0)) (if rt_telemetry (co_router (ps_core ?st0))
        then record_event ''s'' (co_telemetry (ps_core ?st0)) else co_telemetry (ps_core ?st0)) = Some (seq, reg, tel)"
      using push_terminated [OF s] by (metis prod_cases3)
    from s have f: "event_fields ?ev \<noteq> None" by (simp add: event_fields_def)
    show ?thesis using p f ep r s
      by (auto simp: route_def deliver_def Let_def has_endpoint_def publish_to_def stdout_publish_def emitted_one_def)
  qed
  then obtain st where st: "ingest (\<lambda>_. []) [] ?ev ?st0 = Some st" by (auto simp: ingest_def rename_stream_eq)
  have tr: "pipeline_trace ?st0 [Routed ?ev] st"
    using Trace_ingest [OF Trace_start _ st, of "''p.so''"] by (simp add: rename_stream_eq)
  show thesis by (rule that [OF start tr ep]) (simp_all add: r)
qed

section \<open>Property\<close>

text \<open>C3. Every endpoint publishes the events that were routed to it, each copy once and in the order in
  which they were routed. Through any run of the pipeline the endpoint under an id is what it
  became by publishing, one after the other, the copies that the routing table sends to it of the
  events that ingestors, scripts and telemetry routed: a stdout endpoint has printed their lines, a file
  endpoint has appended them with their times, an HTTP endpoint holds the payload of the last one.\<close>

theorem endpoints_publish_in_order:
  assumes "start_pipeline env cfg = Started st0" "pipeline_trace st0 tr st"
    and "map_of (pb_endpoints (co_publisher (ps_core st0))) e = Some ep0"
    and "evs = concat (map (sent (co_router (ps_core st0)) e) (routed tr))"
  shows "\<exists>ep. map_of (pb_endpoints (co_publisher (ps_core st))) e = Some ep \<and> ep_receives ep0 evs ep \<and>
    (\<forall>s. ep0 = Stdout_endpoint s \<longrightarrow> (\<exists>s'. ep = Stdout_endpoint s' \<and>
       so_out s' = so_out s @ concat (map (\<lambda>ev. ''['' @ so_id s @ '']'' @ the (event_fields ev)) evs))) \<and>
    (\<forall>f. ep0 = File_endpoint f \<longrightarrow> (\<exists>f'. ep = File_endpoint f' \<and>
       fe_out f' = fe_out f @ concat (map (\<lambda>ev. show_nat (unat (ev_timestamp_ns ev)) @ the (event_fields ev)) evs))) \<and>
    (\<forall>h. ep0 = Http_endpoint h \<and> evs \<noteq> [] \<longrightarrow> (\<exists>h'. ep = Http_endpoint h' \<and>
       he_payload h' = chars_of (payload_of (last evs))))"
proof -
  have "ep_sink (co_router (ps_core st0)) e ep0 (ps_core st0) []"
    using assms(3) Nothing by (simp add: ep_sink_def)
  then obtain ep where "map_of (pb_endpoints (co_publisher (ps_core st))) e = Some ep" "ep_receives ep0 evs ep"
    using sink.along.trace_kept [OF assms(2) _ start_ok [OF assms(1)], of "co_router (ps_core st0)" e ep0]
    by (auto simp: assms(4) ep_sink_def)
  then show ?thesis by (auto dest: stdout_receives file_receives http_receives)
qed

theorem endpoints_publish_in_order_witness:
  "\<exists>st0 st s'. start_pipeline example_env example_out_cfg = Started st0 \<and>
     pipeline_trace st0 [Routed (set_stream ''s'' event_default)] st \<and>
     map_of (pb_endpoints (co_publisher (ps_core st))) ''stdout'' = Some (Stdout_endpoint s') \<and>
     so_out s' = ''[stdout]'' @ the (event_fields (set_stream ''s'' event_default))"
proof -
  let ?ev = "set_stream ''s'' event_default"
  obtain st0 st where run: "start_pipeline example_env example_out_cfg = Started st0" "pipeline_trace st0 [Routed ?ev] st"
    "map_of (pb_endpoints (co_publisher (ps_core st0))) ''stdout'' = Some (Stdout_endpoint \<lparr>so_id = ''stdout'', so_out = []\<rparr>)"
    and r: "rt_handlers (co_router (ps_core st0)) = []" "rt_publisher (co_router (ps_core st0))"
      "rt_route_table (co_router (ps_core st0)) = [(''s'', [''stdout''])]"
    by (rule example_out_run)
  have "stream_of ?ev = Some ''s''" by (simp add: stream_of_set_stream c_str_simps)
  then have "concat (map (sent (co_router (ps_core st0)) ''stdout'') (routed [Routed ?ev])) = [?ev]"
    using r by (simp add: sent_def publishes_def targets_of_def)
  from endpoints_publish_in_order [OF run this [symmetric]] run show ?thesis by auto
qed

end
