(* ===== verification/Accounting.thy ===== *)
theory Accounting
  imports Publishing Telemetry_Runs
begin

text \<open>
  The counters of the running pipeline over a whole run: what \<^verbatim>\<open>route\<close> and
  \<^verbatim>\<open>publish_to\<close> record, what \<^verbatim>\<open>emit_metrics\<close> drains into reports, and how both
  relate to the events of the record of \<^verbatim>\<open>Delivery\<close>.
\<close>

section \<open>What a run does\<close>

definition reports :: "action list \<Rightarrow> u8 list list list" where
  "reports tr = concat (map (\<lambda>a. case a of Reported cs \<Rightarrow> [cs] | _ \<Rightarrow> []) tr)"

text \<open>The events that count: the telemetry's own streams do not.\<close>

definition counts_event :: "event \<Rightarrow> bool" where
  "counts_event ev \<longleftrightarrow> (case stream_of ev of None \<Rightarrow> False | Some sid \<Rightarrow> \<not> telemetry_stream sid)"

text \<open>The copies of an event that go to endpoints. \<open>known\<close> are the endpoints there are.\<close>

definition reaches :: "'h dispatch_data router \<Rightarrow> (string \<Rightarrow> bool) \<Rightarrow> string \<Rightarrow> bool" where
  "reaches r known t \<longleftrightarrow> publishes r t \<and> known t"

definition publications :: "'h dispatch_data router \<Rightarrow> (string \<Rightarrow> bool) \<Rightarrow> event \<Rightarrow> nat" where
  "publications r known ev =
     (case stream_of ev of
        None \<Rightarrow> 0
      | Some sid \<Rightarrow> length (filter (reaches r known) (targets_of r sid)))"

definition all_publications :: "'h dispatch_data router \<Rightarrow> (string \<Rightarrow> bool) \<Rightarrow> event list \<Rightarrow> nat" where
  "all_publications r known evs = sum_list (map (publications r known) (filter counts_event evs))"

lemma reports_append [simp]: "reports [] = []" "reports (tr @ tr') = reports tr @ reports tr'"
  "reports (Routed ev # tr) = reports tr" "reports (Took i ev # tr) = reports tr"
  "reports (Reported cs # tr) = cs # reports tr"
  by (simp_all add: reports_def)

lemma reports_routed [simp]: "reports (map Routed evs) = []"
  by (induction evs) simp_all

section \<open>The account\<close>

text \<open>The counters of a core hold \<open>n\<close> events and \<open>m\<close> publications that no report took.\<close>

definition account :: "'h dispatch_data router \<Rightarrow> (string \<Rightarrow> bool) \<Rightarrow> 'h pcore \<Rightarrow> u64 \<Rightarrow> u64 \<Rightarrow> bool" where
  "account r known c n m \<longleftrightarrow> telemetry_ok (co_telemetry c) \<and> tm_enabled (co_telemetry c) \<and>
     rt_telemetry (co_router c) \<and> pb_telemetry (co_publisher c) \<and> wr_rings (co_registry c) = [] \<and>
     rt_handlers (co_router c) = rt_handlers r \<and> rt_route_table (co_router c) = rt_route_table r \<and>
     rt_publisher (co_router c) = rt_publisher r \<and> (\<forall>e. has_endpoint e (co_publisher c) = known e) \<and>
     pending_counts (co_telemetry c) = (n, m, 0)"

lemma account_reaches: "account r known c n m \<Longrightarrow> (publishes (co_router c) t \<and> has_endpoint t (co_publisher c)) = reaches r known t"
  by (simp add: account_def publishes_def reaches_def)

text \<open>\<^verbatim>\<open>record_event\<close> and \<^verbatim>\<open>record_emitted\<close> on the pending counts.\<close>

lemma pending_recorded:
  assumes "telemetry_ok t" "tm_enabled t" "pending_counts t = (n, m, d)"
  shows "pending_counts (record_event sid t) = (if telemetry_stream sid then n else n + 1, m, d)"
    "pending_counts (record_emitted sid t) = (n, if telemetry_stream sid then m else m + 1, d)"
  using assms
  by (auto simp: pending_counts_def record_event_def record_emitted_def telemetry_ok_def total_count_bump)

lemma enabled_recorded [simp]: "tm_enabled (record_event sid t) = tm_enabled t"
  "tm_enabled (record_emitted sid t) = tm_enabled t"
  by (simp_all add: record_event_def record_emitted_def)

lemma deliver_account:
  assumes "deliver (endpoint_publish sends) ev sid t c = Some c'" "account r known c n m" "stream_of ev = Some sid"
  shows "account r known c' n (if reaches r known t \<and> \<not> telemetry_stream sid then m + 1 else m)"
proof (cases "reaches r known t")
  case False
  then have no: "\<not> (publishes (co_router c) t \<and> has_endpoint t (co_publisher c))"
    using account_reaches [OF assms(2)] by simp
  have "co_telemetry c' = co_telemetry c \<and> co_publisher c' = co_publisher c \<and> co_registry c' = co_registry c \<and>
      rt_telemetry (co_router c') = rt_telemetry (co_router c) \<and> rt_handlers (co_router c') = rt_handlers (co_router c) \<and>
      rt_route_table (co_router c') = rt_route_table (co_router c) \<and> rt_publisher (co_router c') = rt_publisher (co_router c)"
    using assms(1) no by (auto simp: deliver_def publishes_def Let_def split: option.splits if_splits)
  with assms(2) False show ?thesis by (simp add: account_def)
next
  case True
  then have yes: "publishes (co_router c) t" "has_endpoint t (co_publisher c)"
    using account_reaches [OF assms(2)] by auto
  with assms(1) obtain p tel where p: "publish_to (endpoint_publish sends) ev t (co_publisher c) (co_telemetry c) = Some (p, tel)"
    and c': "c' = c\<lparr>co_publisher := p, co_telemetry := tel\<rparr>"
    by (auto simp: deliver_def publishes_def split: option.splits)
  have pb: "pb_telemetry (co_publisher c)" using assms(2) by (simp add: account_def)
  have tel: "tel = record_emitted sid (co_telemetry c)" "pb_telemetry p"
    using p yes(2) pb assms(3) by (auto simp: publish_to_def emitted_one_def has_endpoint_def split: option.splits)
  have known: "has_endpoint e p = has_endpoint e (co_publisher c)" for e
    using p by (rule has_endpoint_publish_to)
  have t: "telemetry_ok (co_telemetry c)" "tm_enabled (co_telemetry c)" "pending_counts (co_telemetry c) = (n, m, 0)"
    using assms(2) by (simp_all add: account_def)
  from pending_recorded(2) [OF t, of sid] telemetry_ok_emitted [OF t(1), of sid] t(2) tel known True assms(2)
  show ?thesis by (simp add: account_def c')
qed

lemma deliver_all_account:
  assumes "deliver_all (endpoint_publish sends) ev sid ts c = Some c'" "account r known c n m" "stream_of ev = Some sid"
  shows "account r known c' n
    (if telemetry_stream sid then m else m + of_nat (length (filter (reaches r known) ts)))"
  using assms(1,2)
proof (induction ts arbitrary: c m)
  case (Cons t ts)
  then obtain c1 where c1: "deliver (endpoint_publish sends) ev sid t c = Some c1"
    "deliver_all (endpoint_publish sends) ev sid ts c1 = Some c'" by (auto split: option.splits)
  from Cons.IH [OF c1(2) deliver_account [OF c1(1) Cons.prems(2) assms(3)]] show ?case
    by (cases "telemetry_stream sid"; cases "reaches r known t") (simp_all add: add.assoc)
qed simp

lemma route_account:
  assumes "route (endpoint_publish sends) ev c = Some c'" "account r known c n m"
  shows "account r known c' (if counts_event ev then n + 1 else n)
    (if counts_event ev then m + of_nat (publications r known ev) else m)"
proof -
  let ?tel = "record_event (the (stream_of ev)) (co_telemetry c)"
  from assms(1) obtain sid where sid: "stream_of ev = Some sid" by (auto simp: route_def split: option.splits)
  with assms obtain seq reg tel where p: "push ev (co_registry c) ?tel = Some (seq, reg, tel)"
    by (fastforce simp: route_def account_def split: option.splits)
  have reg: "reg = co_registry c" "tel = ?tel" using push_no_rings [OF _ p] assms(2) by (simp_all add: account_def)
  from assms p sid have d: "deliver_all (endpoint_publish sends) ev sid (targets_of (co_router c) sid)
      (c\<lparr>co_registry := reg, co_telemetry := tel\<rparr>) = Some c'"
    by (auto simp: route_def account_def targets_of_def split: option.splits)
  have "account r known (c\<lparr>co_registry := reg, co_telemetry := tel\<rparr>) (if telemetry_stream sid then n else n + 1) m"
    using assms(2) sid pending_recorded(1) [of "co_telemetry c" n m 0 sid]
    by (simp add: account_def reg telemetry_ok_intros)
  from deliver_all_account [OF d this sid] assms(2) sid show ?thesis
    by (simp add: counts_event_def publications_def account_def targets_of_def)
qed

lemma route_all_account:
  "route_all (endpoint_publish sends) evs c = Some c' \<Longrightarrow> account r known c n m \<Longrightarrow>
     account r known c' (n + of_nat (length (filter counts_event evs))) (m + of_nat (all_publications r known evs))"
proof (induction evs arbitrary: c n m)
  case (Cons ev evs)
  then obtain c1 where c1: "route (endpoint_publish sends) ev c = Some c1"
    "route_all (endpoint_publish sends) evs c1 = Some c'" by (auto split: option.splits)
  from Cons.IH [OF c1(2) route_account [OF c1(1) Cons.prems(2)]] show ?case
    by (cases "counts_event ev") (simp_all add: all_publications_def ac_simps)
qed (simp add: all_publications_def)

lemma account_frame:
  assumes "account r known c n m" "wiring c' = wiring c" "wr_rings (co_registry c') = []"
    and "rt_telemetry (co_router c') = rt_telemetry (co_router c)" "telemetry_ok (co_telemetry c')"
    and "tm_enabled (co_telemetry c') = tm_enabled (co_telemetry c)"
    and "pending_counts (co_telemetry c') = (n', m', 0)"
  shows "account r known c' n' m'"
  using assms by (simp add: account_def wiring_def)

lemma invocation_counts:
  "record_script_invocation fmin fmax sid d t = Some t' \<Longrightarrow>
     pending_counts t' = pending_counts t \<and> tm_enabled t' = tm_enabled t"
  by (auto simp: record_script_invocation_def pending_counts_def split: if_splits option.splits)

lemma pack_script_counts:
  "pack_script_metrics clock ts t = (ok, chunks, t') \<Longrightarrow> pending_counts t' = pending_counts t \<and> tm_enabled t' = tm_enabled t"
  by (auto simp: pack_script_metrics_def Let_def pending_counts_def split: if_splits)

text \<open>A round of a script thread before it routes what the script emitted.\<close>

lemma dispatch_account:
  assumes "account r known c n m" "wait_for_trigger i (co_router c) = (res, rt)"
    and "dispatch_script run dur fmin fmax dp ev (c\<lparr>co_router := rt\<rparr>) = Some (out, c')"
  shows "account r known c' n m"
proof -
  let ?c = "c\<lparr>co_router := rt\<rparr>"
  have reg: "wr_rings (co_registry ?c) = []" using assms(1) by (simp add: account_def)
  from dispatch_no_rings(2) [OF reg assms(3)] obtain tel where c': "c' = ?c\<lparr>co_telemetry := tel\<rparr>" by auto
  from assms(3) have "record_script_invocation fmin fmax (ls_id (dp_script dp)) dur (co_telemetry ?c) = Some (co_telemetry c')"
    by (auto simp: dispatch_script_def Let_def split: script_mode.splits option.splits)
  then have "record_script_invocation fmin fmax (ls_id (dp_script dp)) dur (co_telemetry c) = Some tel"
    by (simp add: c')
  note inv = telemetry_ok_invocation [OF _ this] invocation_counts [OF this]
  have "rt_telemetry rt = rt_telemetry (co_router c)"
    using assms(2) by (auto simp: wait_for_trigger_def split: if_splits prod.splits)
  moreover have "wiring c' = wiring c" using wiring_wait [OF assms(2)] by (simp add: c')
  moreover have "telemetry_ok (co_telemetry c)" "pending_counts (co_telemetry c) = (n, m, 0)"
    using assms(1) by (simp_all add: account_def)
  ultimately show ?thesis using inv reg by (intro account_frame [OF assms(1)]) (simp_all add: c')
qed

section \<open>The account of a run\<close>

definition reported_total :: "nat \<Rightarrow> action list \<Rightarrow> u64" where
  "reported_total off tr = sum_list (map (reported off) (reports tr))"

lemma reported_total_append [simp]: "reported_total off [] = 0"
  "reported_total off (tr @ tr') = reported_total off tr + reported_total off tr'"
  "reported_total off (Took i ev # tr) = reported_total off tr" "reported_total off (Routed ev # tr) = reported_total off tr"
  "reported_total off (map Routed evs) = 0"
  by (simp_all add: reported_total_def)

definition balanced :: "'h dispatch_data router \<Rightarrow> (string \<Rightarrow> bool) \<Rightarrow> action list \<Rightarrow> 'h pcore \<Rightarrow> bool" where
  "balanced r known tr c \<longleftrightarrow> (\<exists>n m. account r known c n m \<and>
     reported_total 8 tr + n = of_nat (length (filter counts_event (routed tr))) \<and>
     reported_total 16 tr + m = of_nat (all_publications r known (routed tr)) \<and> reported_total 24 tr = 0)"

lemma all_publications_append: "all_publications r known (evs @ evs') = all_publications r known evs + all_publications r known evs'"
  by (simp add: all_publications_def)

lemma routes_balanced:
  assumes "route_all (endpoint_publish sends) evs c = Some c'" "balanced r known tr c"
  shows "balanced r known (tr @ map Routed evs) c'"
proof -
  from assms(2) obtain n m where a: "account r known c n m"
    "reported_total 8 tr + n = of_nat (length (filter counts_event (routed tr)))"
    "reported_total 16 tr + m = of_nat (all_publications r known (routed tr))" "reported_total 24 tr = 0"
    by (auto simp: balanced_def)
  from route_all_account [OF assms(1) a(1)] show ?thesis unfolding balanced_def
    by (intro exI conjI) (assumption, simp_all add: a all_publications_append add.assoc [symmetric])
qed

lemma tick_balanced:
  assumes "emit_tick (endpoint_publish sends) now c = Some c'" "balanced r known tr c"
  shows "balanced r known (tr @ tick_report now c @ map Routed (tick_events sends now c)) c'"
proof -
  from assms(2) obtain n m where a: "account r known c n m"
    "reported_total 8 tr + n = of_nat (length (filter counts_event (routed tr)))"
    "reported_total 16 tr + m = of_nat (all_publications r known (routed tr))" "reported_total 24 tr = 0"
    by (auto simp: balanced_def)
  then have en: "tm_enabled (co_telemetry c)" by (simp add: account_def)
  from emit_tick_routes [OF assms(1) en] obtain ok chunks tel c2 ok' chunks' tel' evs evs' where
    p: "pack_stream_metrics now (co_telemetry c) = (ok, chunks, tel)"
    and c2: "route_all (endpoint_publish sends) evs (c\<lparr>co_telemetry := tel\<rparr>) = Some c2"
    and p': "pack_script_metrics now now (co_telemetry c2) = (ok', chunks', tel')"
    and c': "route_all (endpoint_publish sends) evs' (c2\<lparr>co_telemetry := tel'\<rparr>) = Some c'"
    and e: "tick_events sends now c = evs @ evs'" .
  have rep: "tick_report now c = [Reported chunks]" by (simp add: tick_report_def en p)
  have "pending_counts (co_telemetry c) = (n, m, 0)" using a(1) by (simp add: account_def)
  with pack_reports [OF p] have r: "reported 8 chunks = n" "reported 16 chunks = m" "reported 24 chunks = 0"
    "pending_counts tel = (0, 0, 0)" "tm_enabled tel = tm_enabled (co_telemetry c)" by simp_all
  have "telemetry_ok tel" using telemetry_ok_pack_streams [of "co_telemetry c" now] a(1) p by (simp add: account_def)
  then have "account r known (c\<lparr>co_telemetry := tel\<rparr>) 0 0"
    using account_frame [OF a(1), of "c\<lparr>co_telemetry := tel\<rparr>" 0 0] a(1) r by (simp add: account_def)
  then have "balanced r known (tr @ [Reported chunks]) (c\<lparr>co_telemetry := tel\<rparr>)"
    using a(2-4) r unfolding balanced_def by (intro exI [of _ 0]) (simp add: reported_total_def)
  from routes_balanced [OF c2 this] have b2: "balanced r known (tr @ [Reported chunks] @ map Routed evs) c2" by simp
  then have "balanced r known (tr @ [Reported chunks] @ map Routed evs) (c2\<lparr>co_telemetry := tel'\<rparr>)"
    using account_frame [of r known c2 _ _ "c2\<lparr>co_telemetry := tel'\<rparr>"] pack_script_counts [OF p']
      telemetry_ok_pack_scripts [of "co_telemetry c2" now now] p'
    by (fastforce simp: balanced_def account_def)
  from routes_balanced [OF c' this] show ?thesis by (simp add: rep e)
qed

interpretation accounts: trace_invariant "\<lambda>c tr. balanced r known tr c" for r known
proof
  show "balanced r known (tr @ map Routed evs) c'"
    if "balanced r known tr c" "route_all (endpoint_publish sends) evs c = Some c'" for c tr sends evs c'
    by (rule routes_balanced [OF that(2,1)])
  show "balanced r known (tr @ [Took i ev]) c'"
    if "balanced r known tr c" "wait_for_trigger i (co_router c) = (Returned (Some ev), rt)"
      "dispatch_script run dur fmin fmax dp ev (c\<lparr>co_router := rt\<rparr>) = Some (out, c')"
    for c tr i ev rt run dur fmin fmax dp out c'
    using that(1) unfolding balanced_def
    by (elim exE conjE, intro exI conjI) (erule dispatch_account [OF _ that(2,3)], simp_all)
  show "balanced r known (tr @ tick_report now c @ map Routed (tick_events sends now c)) c'"
    if "balanced r known tr c" "emit_tick (endpoint_publish sends) now c = Some c'" for c tr sends now c'
    by (rule tick_balanced [OF that(2,1)])
qed

section \<open>What a start leaves\<close>

definition counting :: "'h pcore \<Rightarrow> bool" where
  "counting c \<longleftrightarrow> telemetry_ok (co_telemetry c) \<and> tm_enabled (co_telemetry c) \<and> rt_telemetry (co_router c) \<and>
     pb_telemetry (co_publisher c) \<and> wr_rings (co_registry c) = [] \<and> pending_counts (co_telemetry c) = (0, 0, 0)"

lemma counting_account:
  "counting c \<Longrightarrow> account (co_router c) (\<lambda>e. has_endpoint e (co_publisher c)) c 0 0"
  by (simp add: counting_def account_def)

lemma build_telemetry: "pb_telemetry (build_endpoints env cfg p) = pb_telemetry p"
proof -
  have "pb_telemetry (fst (foldl (add_endpoint_section env) (p, b) secs)) = pb_telemetry p" for b secs
    by (induction secs rule: rev_induct)
      (auto simp: add_endpoint_section_def add_endpoint_def split: prod.splits sum.splits)
  from this [of False "of_type cfg ''publisher''"] show ?thesis
    by (auto simp: build_endpoints_def Let_def add_endpoint_def split: prod.split)
qed

lemma wire_counting: "counting (ps_core (wire env cfg))"
proof -
  have "telemetry_ok (set_enabled True telemetry_new)"
    using telemetry_ok_new by (simp add: telemetry_ok_def set_enabled_def)
  then show ?thesis
    by (simp add: counting_def wire_def build_telemetry publisher_set_telemetry_def router_set_telemetry_def
        registry_set_telemetry_def registry_new_def set_enabled_def telemetry_new_def pending_counts_def total_count_def)
qed

lemma register_stats_counts [simp]:
  "pending_counts (register_script_stats s t) = pending_counts t"
  "tm_enabled (register_script_stats s t) = tm_enabled t"
  by (simp_all add: register_script_stats_def pending_counts_def split: option.split)

lemma add_script_counting: "counting (ps_core st) \<Longrightarrow> add_script env sec st = Some st' \<Longrightarrow> counting (ps_core st')"
  by (auto simp: add_script_def enter_script_def Let_def counting_def register_script_def register_handler_def
      register_script_queue_def intro: telemetry_ok_intros split: option.splits bool.splits)

lemma add_scripts_counting:
  "counting (ps_core st) \<Longrightarrow> add_scripts env secs st = Some st' \<Longrightarrow> counting (ps_core st')"
  by (induction secs arbitrary: st) (auto split: option.splits dest: add_script_counting)

lemma start_counting: "start_pipeline env cfg = Started st \<Longrightarrow> counting (ps_core st)"
proof -
  assume "start_pipeline env cfg = Started st"
  then obtain st0 plugins where s: "add_scripts env (of_type cfg ''script'') (wire env cfg) = Some st0"
    and st: "st = st0\<lparr>ps_plugins := plugins,
      ps_core := (ps_core st0)\<lparr>co_telemetry := telemetry_start (co_telemetry (ps_core st0))\<rparr>\<rparr>"
    by (auto simp: start_pipeline_def split: option.splits list.splits if_splits)
  from add_scripts_counting [OF wire_counting s] show ?thesis
    by (auto simp: st counting_def telemetry_start_def telemetry_ok_def pending_counts_def)
qed

section \<open>Property\<close>

text \<open>C6. The stream reports and the counters account for every event of a run. At any time after a
  start, the event totals of all stream reports so far and of the counters together are the number of events
  that ingestors, scripts and the telemetry routed, its own streams apart; the emitted totals are
  the number of copies of those events that the routing table sends to endpoints there are;
  and the drop totals are zero, for whatever the script queues lost. All sums are modulo \<open>2 ^ 64\<close>.\<close>

theorem reports_account_for_events:
  assumes "start_pipeline env cfg = Started st0" "pipeline_trace st0 tr st"
  shows "reported_total 8 tr + total_count (tm_event_counts (co_telemetry (ps_core st))) =
      of_nat (length (filter counts_event (routed tr))) \<and>
    reported_total 16 tr + total_count (tm_emitted_counts (co_telemetry (ps_core st))) =
      of_nat (all_publications (co_router (ps_core st0)) (\<lambda>e. has_endpoint e (co_publisher (ps_core st0))) (routed tr)) \<and>
    reported_total 24 tr + tm_drops (co_telemetry (ps_core st)) = 0"
proof -
  have "balanced (co_router (ps_core st0)) (\<lambda>e. has_endpoint e (co_publisher (ps_core st0))) [] (ps_core st0)"
    using counting_account [OF start_counting [OF assms(1)]]
    by (auto simp: balanced_def all_publications_def)
  from accounts.trace_kept [OF assms(2) this start_ok [OF assms(1)]] show ?thesis
    by (auto simp: balanced_def account_def pending_counts_def)
qed

theorem reports_account_for_events_witness:
  "\<exists>st0 st. start_pipeline example_env example_out_cfg = Started st0 \<and>
     pipeline_trace st0 [Routed (set_stream ''s'' event_default)] st \<and>
     total_count (tm_event_counts (co_telemetry (ps_core st))) = 1 \<and>
     total_count (tm_emitted_counts (co_telemetry (ps_core st))) = 1"
proof -
  let ?ev = "set_stream ''s'' event_default"
  obtain st0 st where run: "start_pipeline example_env example_out_cfg = Started st0" "pipeline_trace st0 [Routed ?ev] st"
    and ep: "map_of (pb_endpoints (co_publisher (ps_core st0))) ''stdout'' = Some (Stdout_endpoint \<lparr>so_id = ''stdout'', so_out = []\<rparr>)"
    and r: "rt_handlers (co_router (ps_core st0)) = []" "rt_publisher (co_router (ps_core st0))"
      "rt_route_table (co_router (ps_core st0)) = [(''s'', [''stdout''])]"
    by (rule example_out_run)
  have s: "stream_of ?ev = Some ''s''" by (simp add: stream_of_set_stream c_str_simps)
  then have c: "counts_event ?ev" by (simp add: counts_event_def telemetry_stream_def)
  have "publications (co_router (ps_core st0)) (\<lambda>e. has_endpoint e (co_publisher (ps_core st0))) ?ev = 1"
    using r s ep by (simp add: publications_def targets_of_def reaches_def publishes_def has_endpoint_def)
  with reports_account_for_events [OF run] c run show ?thesis by (auto simp: all_publications_def)
qed

end
