(* ===== verification/Report_Safety.thy ===== *)
theory Report_Safety
  imports Pipeline_Laws Reassembly
begin

text \<open>
  The telemetry thread never runs into undefined behaviour: whatever the counters hold and
  whatever report the dashboards are in the middle of, every event of a report can be routed to
  every kind of endpoint, and a dashboard reads nothing outside its payload. This is the total
  correctness of \<^verbatim>\<open>emit_metrics\<close> that stopping the pipeline relies on, which waits for
  the thread.
\<close>

section \<open>Dashboards\<close>

lemma stream_chunk_handled:
  assumes "ch \<in> set (stream_chunks ts te tm dr es)"
  shows "\<exists>d'. dashboard_publish (snd (set_payload ch (metric_base ''streams_v1'' now))) d = Some d'"
proof -
  let ?ev = "snd (set_payload ch (metric_base ''streams_v1'' now))"
  from assms obtain j where ch: "ch = chunk_of (stream_header ts te tm dr (stream_chunk_count (length es))) stream_entry j
      (group_at 5 es j)" by (auto simp: stream_chunks_eq)
  have len: "length (group_at 5 es j) \<le> 5" by (rule length_group_at)
  have "length ch \<le> PAYLOAD_MAX" using chunk_sizes(1) [OF assms] by (simp add: PAYLOAD_MAX_def)
  then obtain rest where "ev_payload ?ev = ch @ rest" using packed_set_payload [of ch] by (auto simp: packed_def)
  then have p: "ev_payload ?ev = stream_header ts te tm dr (stream_chunk_count (length es)) j (length (group_at 5 es j)) @
      (concat (map stream_entry (group_at 5 es j)) @ rest)" by (simp add: ch chunk_of_def)
  have n: "length (group_at 5 es j) < 65536" using len by simp
  show ?thesis
    unfolding publish_stream_chunk handle_stream_chunk_def Let_def stream_header_fields [OF p]
      unat_of_nat16 [OF n] read_stream_entries_packed option.case
    by (simp split: if_split)
qed

lemma script_chunk_handled:
  assumes "ch \<in> set (script_chunks ts es)"
  shows "\<exists>d'. dashboard_publish (snd (set_payload ch (metric_base ''scripts_v1'' now))) d = Some d'"
proof -
  let ?ev = "snd (set_payload ch (metric_base ''scripts_v1'' now))"
  from assms obtain j where ch: "ch = chunk_of (script_header ts (ceil_div (length es) 3)) script_entry j
      (group_at 3 es j)" by (auto simp: script_chunks_eq)
  have len: "length (group_at 3 es j) \<le> 3" by (rule length_group_at)
  have "length ch \<le> PAYLOAD_MAX" using chunk_sizes(2) [OF assms] by (simp add: PAYLOAD_MAX_def)
  then obtain rest where "ev_payload ?ev = ch @ rest" using packed_set_payload [of ch] by (auto simp: packed_def)
  then have p: "ev_payload ?ev = script_header ts (ceil_div (length es) 3) j (length (group_at 3 es j)) @
      (concat (map script_entry (group_at 3 es j)) @ rest)" by (simp add: ch chunk_of_def)
  have n: "length (group_at 3 es j) < 65536" using len by simp
  show ?thesis
    unfolding publish_script_chunk handle_script_chunk_def Let_def script_header_fields [OF p]
      unat_of_nat16 [OF n] read_script_entries_packed option.case
    by (simp split: if_split)
qed

text \<open>That holds for the reports of the packers. The number of entries is read from the payload and
  not compared with its size: a chunk of another origin that announces more than the payload
  can hold makes a dashboard that is waiting for a report read past it.\<close>

lemma read_stream_entries_short: "length p < 40 * n \<Longrightarrow> read_stream_entries n p = None"
  by (induction n p rule: read_stream_entries.induct) auto

lemma overfull_chunk_undefined:
  assumes "length (ev_payload ev) = PAYLOAD_MAX" "strncmp_eq (ev_stream_id ev) ''telemetry'' 9"
    and "strncmp_eq (ev_schema_id ev) ''streams_v1'' 10" "db_pending_stream d = None"
    and "ev_payload ev ! 32 < ev_payload ev ! 33" "5 < unat (read_u16 (drop 34 (ev_payload ev)))"
  shows "dashboard_publish ev d = None"
proof -
  have "read_stream_entries (unat (read_u16 (drop 34 (ev_payload ev)))) (drop 36 (ev_payload ev)) = None"
    by (rule read_stream_entries_short) (use assms(1,6) in \<open>simp add: PAYLOAD_MAX_def\<close>)
  moreover have "unat (ev_payload ev ! 32) < unat (ev_payload ev ! 33)"
    using assms(5) by (simp add: word_less_nat_alt)
  ultimately show ?thesis using assms(2-4) by (simp add: dashboard_publish_def handle_stream_chunk_def)
qed

lemma overfull_chunk_example:
  "dashboard_publish (snd (set_payload (replicate 33 0 @ [1, 6, 0]) (metric_base ''streams_v1'' 7))) (dashboard_new ''t'') = None"
  by code_simp

section \<open>Every endpoint\<close>

text \<open>An event that every dashboard takes, with identifiers that are C strings.\<close>

definition showable :: "event \<Rightarrow> bool" where
  "showable ev \<longleftrightarrow> event_ok ev \<and> (\<forall>d. dashboard_publish ev d \<noteq> None)"

text \<open>No \<^verbatim>\<open>send\<close> on a WebSocket connection blocks forever.\<close>

definition sends_return :: "(int \<Rightarrow> int list) \<Rightarrow> bool" where
  "sends_return sends \<longleftrightarrow> (\<forall>fd p. ws_send_frame (sends fd) 1 p \<noteq> None)"

lemma sends_return_failing: "sends_return (\<lambda>_. [-1])"
proof -
  have "ws_send_frame [-1] 1 p = Some (False, [])" for p
    unfolding ws_send_frame_def by (subst send_loop.simps) (simp add: ws_frame_def Let_def)
  then show ?thesis by (simp add: sends_return_def)
qed

lemma ws_broadcast_returns: "sends_return sends \<Longrightarrow> \<exists>r. ws_broadcast sends p fds = Some r"
  by (induction fds) (auto simp: sends_return_def split: option.split prod.split)

lemma publish_showable:
  assumes "showable ev" "sends_return sends"
  shows "endpoint_publish sends ev ep \<noteq> None"
proof -
  have ids: "stream_of ev \<noteq> None" "schema_of ev \<noteq> None"
    using assms(1) by (auto simp: showable_def event_ok_def stream_of_def schema_of_def c_read_def)
  show ?thesis
  proof (cases ep)
    case (Websocket_endpoint w)
    then show ?thesis using ids ws_broadcast_returns [OF assms(2)]
      by (force simp: ws_publish_def to_json_def split: option.split)
  next
    case (Telemetry_endpoint d)
    with assms(1) show ?thesis by (simp add: showable_def)
  qed (use ids in \<open>simp_all add: stdout_publish_def file_publish_def event_fields_def\<close>)
qed

section \<open>Routing\<close>

lemma deliver_returns:
  assumes "showable ev" "sends_return sends"
  shows "\<exists>c'. deliver (endpoint_publish sends) ev sid t c = Some c'"
proof -
  have sid: "stream_of ev \<noteq> None" using assms(1) by (auto simp: showable_def event_ok_def stream_of_def c_read_def)
  have "\<exists>r. publish_to (endpoint_publish sends) ev t p tel = Some r" for p tel
  proof (cases "map_of (pb_endpoints p) t")
    case (Some ep)
    obtain ep' where "endpoint_publish sends ev ep = Some ep'" using publish_showable [OF assms] by blast
    with Some sid show ?thesis by (auto simp: publish_to_def emitted_one_def)
  qed (simp add: publish_to_def)
  then obtain p tel where "publish_to (endpoint_publish sends) ev t (co_publisher c) (co_telemetry c) = Some (p, tel)"
    by fastforce
  then show ?thesis by (auto simp: deliver_def Let_def split: option.split)
qed

lemma deliver_all_returns:
  "showable ev \<Longrightarrow> sends_return sends \<Longrightarrow> \<exists>c'. deliver_all (endpoint_publish sends) ev sid ts c = Some c'"
proof (induction ts arbitrary: c)
  case (Cons t ts)
  with deliver_returns [OF Cons.prems, of sid t c] show ?case by auto
qed simp

lemma route_returns:
  assumes "showable ev" "sends_return sends"
  shows "\<exists>c'. route (endpoint_publish sends) ev c = Some c'"
proof -
  obtain sid where sid: "stream_of ev = Some sid"
    using assms(1) by (auto simp: showable_def event_ok_def stream_of_def c_read_def)
  let ?tel = "if rt_telemetry (co_router c) then record_event sid (co_telemetry c) else co_telemetry c"
  obtain seq reg tel where "push ev (co_registry c) ?tel = Some (seq, reg, tel)"
    using push_terminated [OF sid, of "co_registry c" ?tel] by (metis prod_cases3)
  with deliver_all_returns [OF assms] show ?thesis
    by (cases "map_of (rt_route_table (co_router c)) sid") (simp_all add: route_def sid)
qed

lemma route_all_returns:
  "\<forall>ev \<in> set evs. showable ev \<Longrightarrow> sends_return sends \<Longrightarrow> \<exists>c'. route_all (endpoint_publish sends) evs c = Some c'"
proof (induction evs arbitrary: c)
  case (Cons ev evs)
  with route_returns [of ev sends c] show ?case by auto
qed simp

section \<open>The report\<close>

lemma metric_showable:
  assumes "length ch \<le> PAYLOAD_MAX" "\<And>d. \<exists>d'. dashboard_publish (snd (set_payload ch (metric_base schema now))) d = Some d'"
    and "metric_event schema now ch = Some ev"
  shows "showable ev"
proof -
  have "ev = snd (set_payload ch (metric_base schema now))"
    using assms(3) by (simp add: metric_event_fits [OF assms(1)])
  with assms(2) metric_base_ok [of schema now] show ?thesis by (simp add: showable_def)
qed

lemma map_filter_all_in:
  assumes "\<And>ch ev. ch \<in> set chs \<Longrightarrow> f ch = Some ev \<Longrightarrow> P ev"
  shows "\<forall>ev \<in> set (List.map_filter f chs). P ev"
  using assms by (induction chs) (auto split: option.split)

lemma stream_report_showable:
  "\<forall>ev \<in> set (List.map_filter (metric_event ''streams_v1'' now) (stream_chunks ts te tm dr es)). showable ev"
proof (rule map_filter_all_in)
  fix ch ev assume ch: "ch \<in> set (stream_chunks ts te tm dr es)" and ev: "metric_event ''streams_v1'' now ch = Some ev"
  have "length ch \<le> PAYLOAD_MAX" using chunk_sizes(1) [OF ch] by (simp add: PAYLOAD_MAX_def)
  from metric_showable [OF this stream_chunk_handled [OF ch] ev] show "showable ev" .
qed

lemma script_report_showable:
  "\<forall>ev \<in> set (List.map_filter (metric_event ''scripts_v1'' now) (script_chunks ts es)). showable ev"
proof (rule map_filter_all_in)
  fix ch ev assume ch: "ch \<in> set (script_chunks ts es)" and ev: "metric_event ''scripts_v1'' now ch = Some ev"
  have "length ch \<le> PAYLOAD_MAX" using chunk_sizes(2) [OF ch] by (simp add: PAYLOAD_MAX_def)
  from metric_showable [OF this script_chunk_handled [OF ch] ev] show "showable ev" .
qed

lemma emit_tick_total:
  assumes "sends_return sends"
  shows "\<exists>c'. emit_tick (endpoint_publish sends) now c = Some c'"
proof (cases "tm_enabled (co_telemetry c)")
  case True
  obtain ok chunks tel where s: "pack_stream_metrics now (co_telemetry c) = (ok, chunks, tel)"
    by (metis prod_cases3)
  then have chunks: "\<forall>ev \<in> set (List.map_filter (metric_event ''streams_v1'' now) chunks). showable ev" if ok
    using that stream_report_showable [of now] by (auto simp: pack_stream_metrics_def Let_def split: if_splits)
  let ?c1 = "c\<lparr>co_telemetry := tel\<rparr>"
  obtain c2 where c2: "(if ok then route_all (endpoint_publish sends)
      (List.map_filter (metric_event ''streams_v1'' now) chunks) ?c1 else Some ?c1) = Some c2"
    using route_all_returns [OF chunks assms, of ?c1] by (cases ok) auto
  obtain ok' chunks' tel' where s': "pack_script_metrics now now (co_telemetry c2) = (ok', chunks', tel')"
    by (metis prod_cases3)
  then have chunks': "\<forall>ev \<in> set (List.map_filter (metric_event ''scripts_v1'' now) chunks'). showable ev" if ok'
    using that script_report_showable [of now] by (auto simp: pack_script_metrics_def Let_def split: if_splits)
  show ?thesis
    using True route_all_returns [OF chunks' assms, of "c2\<lparr>co_telemetry := tel'\<rparr>"] c2
    by (cases ok') (simp_all add: emit_tick_def s s')
qed (simp add: emit_tick_def)

text \<open>C37. A round of the telemetry thread is never undefined: whatever the counters, the routing table, the
  handlers, the windows and the endpoints are, also dashboards with half a report of the same
  or another time, \<^verbatim>\<open>emit_metrics\<close> gets through its round if every
  \<^verbatim>\<open>send\<close> returns, and no endpoint reads beyond a payload or an identifier.\<close>

theorem emit_tick_returns:
  assumes "sends_return sends"
  shows "\<exists>c'. emit_tick (endpoint_publish sends) now c = Some c'"
  using assms by (rule emit_tick_total)

theorem emit_tick_returns_witness:
  "\<exists>c'. emit_tick (endpoint_publish (\<lambda>_. [-1])) 7 (ps_core (wire example_env example_cfg)) = Some c'"
  by (rule emit_tick_returns [OF sends_return_failing])

end
