(* ===== verification/Shutdown.thy ===== *)
theory Shutdown
  imports Report_Safety
begin

text \<open>
  \<^verbatim>\<open>stop_pipeline\<close> of \<^verbatim>\<open>server/main.cpp\<close> while the threads of the pipeline go on: the
  plugins emit until they are unloaded, the telemetry thread may be in the middle of its sleep,
  and a script thread anywhere in its loop. The steps are those between which the threads can be
  interleaved; the main thread is at a stage of \<^verbatim>\<open>stop_pipeline\<close> and waits for the threads
  it joins.
\<close>

section \<open>The threads\<close>

text \<open>A script thread before the test of \<^verbatim>\<open>g_running\<close>, in \<^verbatim>\<open>wait_for_trigger\<close>, with
  the event it took, or ended; the telemetry thread before its test, asleep, or ended.\<close>

datatype thread_pc = At_test | At_wait | Holding event | Thread_ended

datatype telemetry_pc = Tel_test | Tel_asleep | Tel_ended

datatype stop_stage =
    Not_stopping
  | Unloading
  | Joining_telemetry
  | Stopping_queues nat
  | Joining nat
  | Stopped

record 'h run_conf =
  rn_state :: "'h pipeline_state"
  rn_running :: bool
  rn_threads :: "thread_pc list"
  rn_telemetry :: telemetry_pc
  rn_stage :: stop_stage

definition run_start :: "'h pipeline_state \<Rightarrow> 'h run_conf" where
  "run_start st = \<lparr>rn_state = st, rn_running = True, rn_threads = replicate (length (ps_threads st)) At_test,
     rn_telemetry = Tel_test, rn_stage = Not_stopping\<rparr>"

abbreviation rn_core :: "'h run_conf \<Rightarrow> 'h pcore" where
  "rn_core c \<equiv> ps_core (rn_state c)"

definition set_core :: "'h pcore \<Rightarrow> 'h run_conf \<Rightarrow> 'h run_conf" where
  "set_core k c = c\<lparr>rn_state := (rn_state c)\<lparr>ps_core := k\<rparr>\<rparr>"

definition set_thread :: "nat \<Rightarrow> thread_pc \<Rightarrow> 'h run_conf \<Rightarrow> 'h run_conf" where
  "set_thread i pc c = c\<lparr>rn_threads := (rn_threads c)[i := pc]\<rparr>"

definition stop_queue :: "nat \<Rightarrow> 'd router \<Rightarrow> 'd router" where
  "stop_queue i r = r\<lparr>rt_queues := (rt_queues r)[i := (rt_queues r ! i)\<lparr>sq_stopped := True\<rparr>]\<rparr>"

section \<open>The steps\<close>

text \<open>What the threads of the pipeline do.\<close>

inductive threads_step :: "'h run_conf \<Rightarrow> 'h run_conf \<Rightarrow> bool" where
  Test: "i < length (rn_threads c) \<Longrightarrow> rn_threads c ! i = At_test \<Longrightarrow>
    threads_step c (set_thread i (if rn_running c then At_wait else Thread_ended) c)"
| Take: "i < length (rn_threads c) \<Longrightarrow> rn_threads c ! i = At_wait \<Longrightarrow>
    wait_for_trigger (sd_queue_idx (ps_threads (rn_state c) ! i)) (co_router (rn_core c)) = (Returned res, r) \<Longrightarrow>
    threads_step c (set_thread i (case res of None \<Rightarrow> Thread_ended | Some ev \<Rightarrow> Holding ev)
      (set_core ((rn_core c)\<lparr>co_router := r\<rparr>) c))"
| Run: "i < length (rn_threads c) \<Longrightarrow> rn_threads c ! i = Holding ev \<Longrightarrow>
    dispatch_script run dur fmin fmax (sd_dispatch (ps_threads (rn_state c) ! i)) ev (rn_core c) = Some (out, k) \<Longrightarrow>
    route_all (endpoint_publish sends) (map (rename_stream (sd_output_stream (ps_threads (rn_state c) ! i))) out) k = Some k' \<Longrightarrow>
    threads_step c (set_thread i At_test (set_core k' c))"
| Tel_Test: "rn_telemetry c = Tel_test \<Longrightarrow>
    threads_step c (c\<lparr>rn_telemetry := (if tm_running (co_telemetry (rn_core c)) then Tel_asleep else Tel_ended)\<rparr>)"
| Tel_Tick: "rn_telemetry c = Tel_asleep \<Longrightarrow> emit_tick (endpoint_publish sends) now (rn_core c) = Some k \<Longrightarrow>
    threads_step c ((set_core k c)\<lparr>rn_telemetry := Tel_test\<rparr>)"

text \<open>What the main thread does in \<^verbatim>\<open>stop_pipeline\<close>. A plugin is stopped when its handle is
  destroyed, and the queues are stopped one after the other.\<close>

inductive main_step :: "'h run_conf \<Rightarrow> 'h run_conf \<Rightarrow> bool" where
  Begin: "rn_stage c = Not_stopping \<Longrightarrow>
    main_step c ((set_core ((rn_core c)\<lparr>co_router := router_set_telemetry False (co_router (rn_core c))\<rparr>) c)
      \<lparr>rn_stage := Unloading\<rparr>)"
| Unload: "rn_stage c = Unloading \<Longrightarrow> ps_plugins (rn_state c) = p # ps \<Longrightarrow>
    main_step c (c\<lparr>rn_state := (rn_state c)\<lparr>ps_plugins := ps\<rparr>\<rparr>)"
| Unloaded: "rn_stage c = Unloading \<Longrightarrow> ps_plugins (rn_state c) = [] \<Longrightarrow>
    main_step c ((set_core ((rn_core c)\<lparr>co_telemetry := telemetry_stop (co_telemetry (rn_core c))\<rparr>) c)
      \<lparr>rn_stage := Joining_telemetry\<rparr>)"
| Tel_joined: "rn_stage c = Joining_telemetry \<Longrightarrow> rn_telemetry c = Tel_ended \<Longrightarrow>
    main_step c (c\<lparr>rn_stage := Stopping_queues 0\<rparr>)"
| Stop_queue: "rn_stage c = Stopping_queues i \<Longrightarrow> i < length (rt_queues (co_router (rn_core c))) \<Longrightarrow>
    main_step c ((set_core ((rn_core c)\<lparr>co_router := stop_queue i (co_router (rn_core c))\<rparr>) c)
      \<lparr>rn_stage := Stopping_queues (Suc i)\<rparr>)"
| Queues_stopped: "rn_stage c = Stopping_queues i \<Longrightarrow> \<not> i < length (rt_queues (co_router (rn_core c))) \<Longrightarrow>
    main_step c (c\<lparr>rn_stage := Joining 0\<rparr>)"
| Join: "rn_stage c = Joining i \<Longrightarrow> i < length (rn_threads c) \<Longrightarrow> rn_threads c ! i = Thread_ended \<Longrightarrow>
    main_step c (c\<lparr>rn_stage := Joining (Suc i)\<rparr>)"
| Joined: "rn_stage c = Joining i \<Longrightarrow> \<not> i < length (rn_threads c) \<Longrightarrow>
    main_step c (c\<lparr>rn_stage := Stopped\<rparr>)"

text \<open>The plugins and the signal handler come from outside.\<close>

inductive outside_step :: "'h run_conf \<Rightarrow> 'h run_conf \<Rightarrow> bool" where
  Signal: "outside_step c (c\<lparr>rn_running := False\<rparr>)"
| Emit: "(plugin, rename_to) \<in> set (ps_plugins (rn_state c)) \<Longrightarrow> ingest sends rename_to ev (rn_state c) = Some st \<Longrightarrow>
    outside_step c (c\<lparr>rn_state := st\<rparr>)"

definition run_step :: "'h run_conf \<Rightarrow> 'h run_conf \<Rightarrow> bool" where
  "run_step c c' \<longleftrightarrow> threads_step c c' \<or> main_step c c' \<or> outside_step c c'"

inductive run_reachable :: "'h run_conf \<Rightarrow> 'h run_conf \<Rightarrow> bool" for c0 where
  Run_start: "run_reachable c0 c0"
| Run_step: "run_reachable c0 c \<Longrightarrow> run_step c c' \<Longrightarrow> run_reachable c0 c'"

section \<open>What the steps keep\<close>

lemma rn_set [simp]: "ps_core (rn_state (set_core k c)) = k" "rn_stage (set_core k c) = rn_stage c"
  "rn_threads (set_core k c) = rn_threads c" "rn_telemetry (set_core k c) = rn_telemetry c"
  "rn_running (set_core k c) = rn_running c" "rn_state (set_thread i pc c) = rn_state c"
  "rn_stage (set_thread i pc c) = rn_stage c" "rn_telemetry (set_thread i pc c) = rn_telemetry c"
  "rn_running (set_thread i pc c) = rn_running c" "rn_threads (set_thread i pc c) = (rn_threads c)[i := pc]"
  "ps_threads (rn_state (set_core k c)) = ps_threads (rn_state c)"
  "ps_plugins (rn_state (set_core k c)) = ps_plugins (rn_state c)"
  by (simp_all add: set_core_def set_thread_def)

lemma set_core_state: "rn_state (set_core k c) = (rn_state c)\<lparr>ps_core := k\<rparr>"
  by (simp add: set_core_def)

text \<open>A step of a thread changes the core, its own position and nothing else.\<close>

lemma threads_step_core:
  assumes "threads_step c c'" "pipeline_ok (rn_state c)"
  shows "\<exists>k. rn_state c' = (rn_state c)\<lparr>ps_core := k\<rparr> \<and> keeps (rn_core c) k"
proof -
  have ok: "core_ok (rn_core c)" using assms(2) by (simp add: pipeline_ok_def)
  have same: ?thesis if "rn_state c' = rn_state c"
    using that keeps_refl [OF ok] by (intro exI [of _ "rn_core c"]) simp
  from assms(1) show ?thesis
  proof (cases rule: threads_step.cases)
    case (Take i res r)
    with wait_keeps [OF ok Take(4)] show ?thesis by (auto simp: set_core_state)
  next
    case (Run i ev run dur fmin fmax out k sends k')
    note d = dispatch_keeps [OF ok Run(4)]
    from Run keeps_trans [OF d route_all_keeps [OF keeps_ok [OF d] Run(5)]] show ?thesis
      by (auto simp: set_core_state)
  next
    case (Tel_Tick sends now k)
    with emit_tick_keeps [OF ok Tel_Tick(3)] show ?thesis by (auto simp: set_core_state)
  qed (use same in simp_all)
qed

lemma threads_step_stage:
  "threads_step c c' \<Longrightarrow> rn_stage c' = rn_stage c \<and> length (rn_threads c') = length (rn_threads c)"
  by (auto elim!: threads_step.cases)

lemma threads_step_ended:
  assumes "threads_step c c'"
  shows "j < length (rn_threads c) \<Longrightarrow> rn_threads c ! j = Thread_ended \<Longrightarrow> rn_threads c' ! j = Thread_ended"
    "rn_telemetry c = Tel_ended \<Longrightarrow> rn_telemetry c' = Tel_ended"
  using assms by (auto elim!: threads_step.cases simp: nth_list_update split: if_splits)

section \<open>The invariant\<close>

abbreviation stops :: "'h run_conf \<Rightarrow> bool list" where
  "stops c \<equiv> map sq_stopped (rt_queues (co_router (rn_core c)))"

text \<open>Nothing emits from outside, and the telemetry thread is told to end.\<close>

definition calm :: "'h run_conf \<Rightarrow> bool" where
  "calm c \<longleftrightarrow> ps_plugins (rn_state c) = [] \<and> \<not> tm_running (co_telemetry (rn_core c))"

definition stage_ok :: "'h run_conf \<Rightarrow> bool" where
  "stage_ok c = (case rn_stage c of
      Not_stopping \<Rightarrow> True
    | Unloading \<Rightarrow> True
    | Joining_telemetry \<Rightarrow> calm c
    | Stopping_queues i \<Rightarrow> calm c \<and> rn_telemetry c = Tel_ended \<and> list_all id (take i (stops c))
    | Joining i \<Rightarrow> calm c \<and> rn_telemetry c = Tel_ended \<and> list_all id (stops c) \<and>
        list_all (\<lambda>pc. pc = Thread_ended) (take i (rn_threads c))
    | Stopped \<Rightarrow> calm c \<and> rn_telemetry c = Tel_ended \<and> list_all id (stops c) \<and>
        list_all (\<lambda>pc. pc = Thread_ended) (rn_threads c))"

definition run_inv :: "'h run_conf \<Rightarrow> bool" where
  "run_inv c \<longleftrightarrow> pipeline_ok (rn_state c) \<and> length (rn_threads c) = length (ps_threads (rn_state c)) \<and> stage_ok c"

lemma run_inv_start: "pipeline_ok st \<Longrightarrow> run_inv (run_start st)"
  by (simp add: run_inv_def run_start_def stage_ok_def)

lemma run_inv_thread:
  assumes "threads_step c c'" "run_inv c"
  shows "run_inv c'"
proof -
  have ok: "pipeline_ok (rn_state c)" using assms(2) by (simp add: run_inv_def)
  from threads_step_core [OF assms(1) ok] obtain k
    where k: "rn_state c' = (rn_state c)\<lparr>ps_core := k\<rparr>" "keeps (rn_core c) k" by blast
  have calm: "calm c' = calm c" and stops: "stops c' = stops c"
    using k by (auto simp: calm_def keeps_def shape_def)
  have len: "length (rn_threads c') = length (rn_threads c)" and stage: "rn_stage c' = rn_stage c"
    using threads_step_stage [OF assms(1)] by simp_all
  have ended: "list_all (\<lambda>pc. pc = Thread_ended) (take i (rn_threads c'))"
    if "list_all (\<lambda>pc. pc = Thread_ended) (take i (rn_threads c))" for i
    using that threads_step_ended(1) [OF assms(1)] len by (simp add: list_all_length)
  have "stage_ok c'"
    using assms(2) ended [of "length (rn_threads c)"] ended threads_step_ended(2) [OF assms(1)] len
    by (simp add: run_inv_def stage_ok_def stage calm stops split: stop_stage.splits)
  then show ?thesis
    using assms(2) k pipeline_ok_keeps [OF ok k(2)] len by (simp add: run_inv_def)
qed

lemma core_ok_telemetry_flag: "core_ok (c\<lparr>co_router := router_set_telemetry b (co_router c)\<rparr>) = core_ok c"
  "core_ok (c\<lparr>co_telemetry := tel\<rparr>) = core_ok c"
  by (simp_all add: core_ok_def router_ok_def router_set_telemetry_def)

lemma stop_queue_queues:
  "length (rt_queues (stop_queue i r)) = length (rt_queues r)"
  "map sq_stopped (rt_queues (stop_queue i r)) = (map sq_stopped (rt_queues r))[i := True]"
  by (simp_all add: stop_queue_def map_update)

lemma core_ok_stop_queue:
  assumes "core_ok c" "i < length (rt_queues (co_router c))"
  shows "core_ok (c\<lparr>co_router := stop_queue i (co_router c)\<rparr>)"
proof -
  have "ring_ok (sq_ring q) \<and> rb_capacity (sq_ring q) = QUEUE_CAPACITY"
    if "q \<in> set ((rt_queues (co_router c))[i := (rt_queues (co_router c) ! i)\<lparr>sq_stopped := True\<rparr>])" for q
  proof -
    from that have "q = (rt_queues (co_router c) ! i)\<lparr>sq_stopped := True\<rparr> \<or> q \<in> set (rt_queues (co_router c))"
      using set_update_subset_insert by fastforce
    then show ?thesis using assms nth_mem [OF assms(2)] by (auto simp: core_ok_def router_ok_def)
  qed
  with assms show ?thesis by (simp add: core_ok_def router_ok_def stop_queue_def)
qed

lemma run_inv_main: "main_step c c' \<Longrightarrow> run_inv c \<Longrightarrow> run_inv c'"
proof (induction rule: main_step.induct)
  case (Begin c)
  then show ?case
    by (simp add: run_inv_def stage_ok_def pipeline_ok_def core_ok_telemetry_flag set_core_def) (simp add: router_set_telemetry_def)
next
  case (Unloaded c)
  then show ?case
    by (simp add: run_inv_def stage_ok_def pipeline_ok_def core_ok_telemetry_flag set_core_def calm_def telemetry_stop_def)
next
  case (Stop_queue c i)
  have "list_all id (take (Suc i) ((stops c)[i := True]))" if "list_all id (take i (stops c))"
    using that Stop_queue(2) by (simp add: list_all_length nth_list_update less_Suc_eq)
  with Stop_queue core_ok_stop_queue [of "rn_core c" i] show ?case
    by (simp add: run_inv_def stage_ok_def pipeline_ok_def set_core_def calm_def stop_queue_queues)
next
  case (Join c i)
  then show ?case by (simp add: run_inv_def stage_ok_def calm_def take_Suc_conv_app_nth)
qed (simp_all add: run_inv_def stage_ok_def calm_def pipeline_ok_def)

lemma run_inv_outside: "outside_step c c' \<Longrightarrow> run_inv c \<Longrightarrow> run_inv c'"
proof (induction rule: outside_step.induct)
  case (Signal c)
  then show ?case by (cases "rn_stage c") (simp_all add: run_inv_def stage_ok_def calm_def)
next
  case (Emit plugin rename_to c sends ev st)
  have ok: "pipeline_ok (rn_state c)" using Emit(3) by (simp add: run_inv_def)
  then have core: "core_ok (rn_core c)" by (simp add: pipeline_ok_def)
  from Emit(2) obtain k where k: "st = (rn_state c)\<lparr>ps_core := k\<rparr>" "keeps (rn_core c) k"
    by (auto simp: ingest_def intro: route_keeps [OF core])
  have "rn_stage c = Not_stopping \<or> rn_stage c = Unloading"
    using Emit(1,3) by (auto simp: run_inv_def stage_ok_def calm_def split: stop_stage.splits)
  then show ?case using k(1) Emit(3) pipeline_ok_keeps [OF ok k(2)]
    by (auto simp: run_inv_def stage_ok_def)
qed

lemma run_inv_reachable: "run_reachable c0 c \<Longrightarrow> run_inv c0 \<Longrightarrow> run_inv c"
  by (induction rule: run_reachable.induct)
     (auto simp: run_step_def intro: run_inv_thread run_inv_main run_inv_outside)

section \<open>Ending\<close>

text \<open>The steps a script thread has left once its queue is stopped.\<close>

fun steps_left :: "thread_pc \<Rightarrow> nat" where
  "steps_left Thread_ended = 0"
| "steps_left At_wait = 1"
| "steps_left At_test = 2"
| "steps_left (Holding ev) = 3"

definition work_left :: "'h run_conf \<Rightarrow> nat" where
  "work_left c = sum_list (map steps_left (rn_threads c)) +
     (case rn_stage c of Joining i \<Rightarrow> Suc (length (rn_threads c) - i) | _ \<Rightarrow> 0)"

lemma work_left_signal [simp]: "work_left (c\<lparr>rn_running := b\<rparr>) = work_left c"
  by (cases "rn_stage c") (simp_all add: work_left_def)

lemma sum_update_less:
  assumes "i < length xs" "f y < f (xs ! i)"
  shows "sum_list (map f (xs[i := y])) < sum_list (map (f :: 'a \<Rightarrow> nat) xs)"
proof -
  have "xs = take i xs @ xs ! i # drop (Suc i) xs" by (rule id_take_nth_drop [OF assms(1)])
  then have "sum_list (map f xs) = sum_list (map f (take i xs)) + f (xs ! i) + sum_list (map f (drop (Suc i) xs))"
    by (metis add.assoc list.simps(9) map_append sum_list.Cons sum_list_append)
  with assms show ?thesis by (simp add: upd_conv_take_nth_drop)
qed

lemma wait_all_stopped:
  assumes "list_all id (map sq_stopped (rt_queues r))" "wait_for_trigger i r = (Returned res, r')"
  shows "res = None"
proof (cases "i < length (rt_queues r)")
  case True
  then have "sq_stopped (rt_queues r ! i)" using assms(1) by (simp add: list_all_length)
  then have "queue_take (rt_queues r ! i) p = (Returned None, p)" for p
    by (simp add: queue_take_def Let_def)
  with True assms(2) show ?thesis by (simp add: wait_for_trigger_def)
next
  case False
  with assms(2) show ?thesis by (simp add: wait_for_trigger_def)
qed

lemma threads_step_work:
  assumes "threads_step c c'" "run_inv c" "rn_stage c = Joining n"
  shows "work_left c' < work_left c"
proof -
  have stopped: "list_all id (stops c)" "rn_telemetry c = Tel_ended"
    using assms(2,3) by (simp_all add: run_inv_def stage_ok_def)
  have less: "work_left (set_thread i pc (set_core k c)) < work_left c"
    if "i < length (rn_threads c)" "steps_left pc < steps_left (rn_threads c ! i)" for i pc k
    using sum_update_less [OF that] by (simp add: work_left_def assms(3))
  have same: "set_core (rn_core c) c = c" by (simp add: set_core_def)
  from assms(1) show ?thesis
  proof (cases rule: threads_step.cases)
    case (Test i)
    with less [of i _ "rn_core c", unfolded same] show ?thesis by simp
  next
    case (Take i res r)
    with less [of i Thread_ended] wait_all_stopped [OF stopped(1) Take(4)] show ?thesis by simp
  next
    case (Run i ev run dur fmin fmax out k sends k')
    with less [of i At_test] show ?thesis by simp
  qed (use stopped in simp_all)
qed

lemma main_step_work:
  "main_step c c' \<Longrightarrow> rn_stage c = Joining n \<Longrightarrow> work_left c' < work_left c \<and> (\<exists>m. rn_stage c' = Joining m \<or> rn_stage c' = Stopped)"
  by (erule main_step.cases) (auto simp: work_left_def)

text \<open>Steps of threads and of main, counted; a signal may come in between.\<close>

inductive run_for :: "nat \<Rightarrow> 'h run_conf \<Rightarrow> 'h run_conf \<Rightarrow> bool" where
  Run_none: "run_for 0 c c"
| Run_outside: "run_for n c c' \<Longrightarrow> outside_step c' c'' \<Longrightarrow> run_for n c c''"
| Run_inside: "run_for n c c' \<Longrightarrow> threads_step c' c'' \<or> main_step c' c'' \<Longrightarrow> run_for (Suc n) c c''"

lemma run_for_work:
  "run_for n c c' \<Longrightarrow> run_inv c \<Longrightarrow> rn_stage c = Joining i \<Longrightarrow>
     run_inv c' \<and> ((\<exists>j. rn_stage c' = Joining j) \<or> rn_stage c' = Stopped) \<and> n + work_left c' \<le> work_left c"
proof (induction rule: run_for.induct)
  case (Run_outside n c c' c'')
  then have inv: "run_inv c'" "run_inv c''" using run_inv_outside by blast+
  from Run_outside(2) inv(1) Run_outside.IH [OF Run_outside.prems] have "c'' = c'\<lparr>rn_running := False\<rparr>"
    by (cases rule: outside_step.cases) (auto simp: run_inv_def stage_ok_def calm_def)
  with Run_outside.IH [OF Run_outside.prems] inv show ?case by simp
next
  case (Run_inside n c c' c'')
  note IH = Run_inside.IH [OF Run_inside.prems]
  have inv: "run_inv c''" using Run_inside(2) IH run_inv_thread run_inv_main by blast
  show ?case
  proof (cases "rn_stage c' = Stopped")
    case True
    then have "list_all (\<lambda>pc. pc = Thread_ended) (rn_threads c')" "rn_telemetry c' = Tel_ended"
      using IH by (simp_all add: run_inv_def stage_ok_def)
    with Run_inside(2) True show ?thesis
      by (auto elim!: threads_step.cases main_step.cases simp: list_all_length)
  next
    case False
    with IH obtain j where j: "rn_stage c' = Joining j" by blast
    have "work_left c'' < work_left c'" "(\<exists>j. rn_stage c'' = Joining j) \<or> rn_stage c'' = Stopped"
      using Run_inside(2) threads_step_work [OF _ _ j, of c''] main_step_work [OF _ j, of c''] threads_step_stage [of c' c''] IH j
      by auto
    with IH inv show ?thesis by auto
  qed
qed simp

section \<open>Going on\<close>

lemma dispatch_returns:
  assumes "core_ok c"
  shows "\<exists>k. dispatch_script (\<lambda>_ _. []) 0 [False] [False] dp ev c = Some ([], k)"
proof -
  have "\<exists>tel. record_script_invocation [False] [False] s 0 tel0 = Some tel" for s tel0
    by (auto simp: record_script_invocation_def split: option.split)
  then show ?thesis using assms
    by (auto simp: dispatch_script_def core_ok_def Let_def make_zero_copy_input_def make_snapshot_input_def
        no_windows min_begin_def split: script_mode.split)
qed

lemma thread_goes_on:
  assumes "run_inv c" "list_all id (stops c)" "i < length (rn_threads c)" "rn_threads c ! i \<noteq> Thread_ended"
  shows "\<exists>c'. threads_step c c'"
proof (cases "rn_threads c ! i")
  case At_test
  with assms(3) show ?thesis by (blast intro: Test)
next
  case At_wait
  obtain res r where w: "wait_for_trigger (sd_queue_idx (ps_threads (rn_state c) ! i)) (co_router (rn_core c)) = (res, r)"
    by fastforce
  with assms(2) have "res = Returned None"
    by (auto simp: wait_for_trigger_def queue_take_def Let_def list_all_length split: if_splits prod.splits)
  with w threads_step.Take [OF assms(3) At_wait] show ?thesis by blast
next
  case (Holding ev)
  have "core_ok (rn_core c)" using assms(1) by (simp add: run_inv_def pipeline_ok_def)
  from dispatch_returns [OF this] obtain k where
    "dispatch_script (\<lambda>_ _. []) 0 [False] [False] (sd_dispatch (ps_threads (rn_state c) ! i)) ev (rn_core c) = Some ([], k)"
    by blast
  from threads_step.Run [OF assms(3) Holding this] show ?thesis by (simp, blast)
qed (use assms(4) in simp)

lemma telemetry_goes_on:
  assumes "rn_telemetry c \<noteq> Tel_ended"
  shows "\<exists>c'. threads_step c c'"
proof (cases "rn_telemetry c")
  case Tel_asleep
  obtain k where "emit_tick (endpoint_publish (\<lambda>_. [-1])) 1 (rn_core c) = Some k"
    using emit_tick_total [OF sends_return_failing] by blast
  with Tel_asleep show ?thesis by (blast intro: Tel_Tick)
qed (use assms in \<open>auto intro: Tel_Test\<close>)

text \<open>Main can move, or the thread it waits for can.\<close>

lemma stop_goes_on:
  assumes "run_inv c" "rn_stage c \<noteq> Stopped"
  shows "\<exists>c'. threads_step c c' \<or> main_step c c'"
proof (cases "rn_stage c")
  case Unloading
  then show ?thesis by (cases "ps_plugins (rn_state c)") (blast intro: Unload Unloaded)+
next
  case Joining_telemetry
  then show ?thesis using telemetry_goes_on [of c] by (blast intro: Tel_joined)
next
  case (Stopping_queues i)
  then show ?thesis by (blast intro: Stop_queue Queues_stopped)
next
  case (Joining i)
  then have "list_all id (stops c)" using assms(1) by (simp add: run_inv_def stage_ok_def)
  with Joining thread_goes_on [OF assms(1), of i] show ?thesis by (blast intro: Join Joined)
qed (use assms(2) in \<open>auto intro: Begin\<close>)

lemma steps_left_sum: "sum_list (map steps_left pcs) \<le> 3 * length pcs"
proof (induction pcs)
  case (Cons pc pcs)
  have "steps_left pc \<le> 3" by (cases pc) simp_all
  with Cons show ?case by simp
qed simp

lemma run_threads: "run_reachable (run_start st0) c \<Longrightarrow> length (rn_threads c) = length (ps_threads st0)"
proof (induction rule: run_reachable.induct)
  case (Run_step c c')
  then show ?case
    using threads_step_stage [of c c'] by (auto simp: run_step_def elim!: main_step.cases outside_step.cases)
qed (simp add: run_start_def)

section \<open>The stop can be completed\<close>

lemma reach_step: "run_reachable c1 c' \<Longrightarrow> run_step c c1 \<Longrightarrow> run_reachable c c'"
  by (induction rule: run_reachable.induct) (blast intro: run_reachable.intros)+

lemma first_step:
  assumes "\<exists>c'. run_reachable c1 c' \<and> rn_stage c' = Stopped"
  shows "main_step c c1 \<Longrightarrow> \<exists>c'. run_reachable c c' \<and> rn_stage c' = Stopped"
    "threads_step c c1 \<Longrightarrow> \<exists>c'. run_reachable c c' \<and> rn_stage c' = Stopped"
  using assms reach_step by (auto simp: run_step_def; blast)+

lemma finish_joining: "run_inv c \<Longrightarrow> rn_stage c = Joining i \<Longrightarrow> \<exists>c'. run_reachable c c' \<and> rn_stage c' = Stopped"
proof (induction "work_left c" arbitrary: c i rule: less_induct)
  case less
  from stop_goes_on [OF less.prems(1)] less.prems(2) obtain c1 where c1: "threads_step c c1 \<or> main_step c c1" by auto
  then have inv: "run_inv c1" using less.prems(1) by (auto intro: run_inv_thread run_inv_main)
  have w: "work_left c1 < work_left c" "(\<exists>j. rn_stage c1 = Joining j) \<or> rn_stage c1 = Stopped"
    using c1 threads_step_work [OF _ less.prems, of c1] main_step_work [OF _ less.prems(2), of c1]
      threads_step_stage [of c c1] less.prems(2) by auto
  with less.hyps [OF w(1) inv] Run_start [of c1] have "\<exists>c'. run_reachable c1 c' \<and> rn_stage c' = Stopped" by blast
  with c1 show ?case by (blast intro: first_step)
qed

lemma finish_queues:
  "run_inv c \<Longrightarrow> rn_stage c = Stopping_queues i \<Longrightarrow> \<exists>c'. run_reachable c c' \<and> rn_stage c' = Stopped"
proof (induction "length (rt_queues (co_router (rn_core c))) - i" arbitrary: c i)
  case 0
  let ?c = "c\<lparr>rn_stage := Joining 0\<rparr>"
  have m: "main_step c ?c" using 0 by (intro Queues_stopped) (simp_all add: not_less)
  from first_step(1) [OF finish_joining [OF run_inv_main [OF m 0(2)]] m] show ?case by simp
next
  case (Suc n)
  let ?c = "(set_core ((rn_core c)\<lparr>co_router := stop_queue i (co_router (rn_core c))\<rparr>) c)\<lparr>rn_stage := Stopping_queues (Suc i)\<rparr>"
  have m: "main_step c ?c" using Suc by (intro Stop_queue) simp_all
  have "n = length (rt_queues (co_router (rn_core ?c))) - Suc i" using Suc(2) by (simp add: stop_queue_queues)
  from first_step(1) [OF Suc(1) [OF this run_inv_main [OF m Suc(3)]] m] show ?case by simp
qed

lemma finish_telemetry:
  assumes "run_inv c" "rn_stage c = Joining_telemetry"
  shows "\<exists>c'. run_reachable c c' \<and> rn_stage c' = Stopped"
proof -
  have ended: "\<exists>c'. run_reachable c c' \<and> rn_stage c' = Stopped"
    if "run_inv c" "rn_stage c = Joining_telemetry" "rn_telemetry c = Tel_ended" for c :: "'a run_conf"
  proof -
    have m: "main_step c (c\<lparr>rn_stage := Stopping_queues 0\<rparr>)" using that by (intro Tel_joined)
    from first_step(1) [OF finish_queues [OF run_inv_main [OF m that(1)]] m] show ?thesis by simp
  qed
  have test: "\<exists>c'. run_reachable c c' \<and> rn_stage c' = Stopped"
    if "run_inv c" "rn_stage c = Joining_telemetry" "rn_telemetry c = Tel_test" for c :: "'a run_conf"
  proof -
    have "\<not> tm_running (co_telemetry (rn_core c))" using that by (simp add: run_inv_def stage_ok_def calm_def)
    with Tel_Test [OF that(3)] have t: "threads_step c (c\<lparr>rn_telemetry := Tel_ended\<rparr>)" by simp
    from first_step(2) [OF ended [OF run_inv_thread [OF t that(1)]] t] that(2) show ?thesis by simp
  qed
  show ?thesis
  proof (cases "rn_telemetry c")
    case Tel_asleep
    obtain k where "emit_tick (endpoint_publish (\<lambda>_. [-1])) 1 (rn_core c) = Some k"
      using emit_tick_total [OF sends_return_failing] by blast
    with Tel_asleep have t: "threads_step c ((set_core k c)\<lparr>rn_telemetry := Tel_test\<rparr>)" by (rule Tel_Tick)
    from first_step(2) [OF test [OF run_inv_thread [OF t assms(1)]] t] assms(2) show ?thesis by simp
  qed (use ended [OF assms] test [OF assms] in simp_all)
qed

lemma finish_unloading:
  "run_inv c \<Longrightarrow> rn_stage c = Unloading \<Longrightarrow> \<exists>c'. run_reachable c c' \<and> rn_stage c' = Stopped"
proof (induction "ps_plugins (rn_state c)" arbitrary: c)
  case Nil
  from Nil(3) Nil(1) [symmetric] have m: "main_step c ((set_core ((rn_core c)\<lparr>co_telemetry :=
      telemetry_stop (co_telemetry (rn_core c))\<rparr>) c)\<lparr>rn_stage := Joining_telemetry\<rparr>)" by (rule Unloaded)
  from first_step(1) [OF finish_telemetry [OF run_inv_main [OF m Nil(2)]] m] show ?case by simp
next
  case (Cons p ps)
  from Cons(4) Cons(2) [symmetric] have m: "main_step c (c\<lparr>rn_state := (rn_state c)\<lparr>ps_plugins := ps\<rparr>\<rparr>)"
    by (rule Unload)
  from first_step(1) [OF Cons(1) [OF _ run_inv_main [OF m Cons(3)]] m] Cons(4) show ?case by simp
qed

lemma stop_possible:
  assumes "run_inv c"
  shows "\<exists>c'. run_reachable c c' \<and> rn_stage c' = Stopped"
proof (cases "rn_stage c")
  case Not_stopping
  from Begin [OF this] obtain c1 where c1: "main_step c c1" "rn_stage c1 = Unloading" by simp
  from first_step(1) [OF finish_unloading [OF run_inv_main [OF c1(1) assms] c1(2)] c1(1)] show ?thesis .
next
  case Stopped
  then show ?thesis by (blast intro: Run_start)
qed (use assms finish_unloading finish_telemetry finish_queues finish_joining in blast)+

section \<open>Properties\<close>





end
