(* ===== verification/Counter_Interleaving.thy ===== *)
theory Counter_Interleaving
  imports Telemetry_Laws
begin

text \<open>
  The tables of counters of \<^verbatim>\<open>core/telemetry.hpp\<close> under concurrency: any number of threads
  record, each first looking its stream up under the shared lock and counting there when it is
  found, otherwise letting the lock go and coming back with the exclusive lock, while the
  telemetry thread drains the table under the exclusive lock. The steps are the critical
  sections. Both tables (events and emissions) are operated by the same code.
\<close>

section \<open>The steps\<close>

text \<open>A recording thread has not begun its next call, or has looked for its stream in vain.\<close>

datatype recorder_pc = Ready | Missed string

record counter_conf =
  cc_enabled :: bool
  cc_counts :: "u64 umap"
  cc_recorders :: "(recorder_pc \<times> string list) list"
  cc_reports :: "u64 umap list"

text \<open>Each thread is paired with the streams of its next calls; a report keeps the counts that
  were not zero.\<close>

inductive counter_step :: "counter_conf \<Rightarrow> counter_conf \<Rightarrow> bool" where
  Ignored: "i < length (cc_recorders c) \<Longrightarrow> cc_recorders c ! i = (Ready, s # ss) \<Longrightarrow>
    \<not> cc_enabled c \<or> telemetry_stream s \<Longrightarrow>
    counter_step c (c\<lparr>cc_recorders := (cc_recorders c)[i := (Ready, ss)]\<rparr>)"
| Found: "i < length (cc_recorders c) \<Longrightarrow> cc_recorders c ! i = (Ready, s # ss) \<Longrightarrow>
    cc_enabled c \<Longrightarrow> \<not> telemetry_stream s \<Longrightarrow> map_of (cc_counts c) s = Some n \<Longrightarrow>
    counter_step c (c\<lparr>cc_counts := AList.update s (n + 1) (cc_counts c),
                      cc_recorders := (cc_recorders c)[i := (Ready, ss)]\<rparr>)"
| Not_found: "i < length (cc_recorders c) \<Longrightarrow> cc_recorders c ! i = (Ready, s # ss) \<Longrightarrow>
    cc_enabled c \<Longrightarrow> \<not> telemetry_stream s \<Longrightarrow> map_of (cc_counts c) s = None \<Longrightarrow>
    counter_step c (c\<lparr>cc_recorders := (cc_recorders c)[i := (Missed s, ss)]\<rparr>)"
| Inserted: "i < length (cc_recorders c) \<Longrightarrow> cc_recorders c ! i = (Missed s, ss) \<Longrightarrow>
    counter_step c (c\<lparr>cc_counts := bump (cc_counts c) s,
                      cc_recorders := (cc_recorders c)[i := (Ready, ss)]\<rparr>)"
| Drained: "counter_step c (c\<lparr>cc_counts := zero_counts (cc_counts c),
                              cc_reports := cc_reports c @ [snapshot_counts (cc_counts c)]\<rparr>)"

inductive counter_reachable :: "counter_conf \<Rightarrow> counter_conf \<Rightarrow> bool" for c0 where
  Initially: "counter_reachable c0 c0"
| Then: "counter_reachable c0 c \<Longrightarrow> counter_step c c' \<Longrightarrow> counter_reachable c0 c'"

definition counter_start :: "u64 umap \<Rightarrow> string list list \<Rightarrow> counter_conf" where
  "counter_start m calls = \<lparr>cc_enabled = True, cc_counts = m, cc_recorders = map (Pair Ready) calls, cc_reports = []\<rparr>"

section \<open>What is still to be counted\<close>

definition to_record :: "recorder_pc \<times> string list \<Rightarrow> string list" where
  "to_record = (\<lambda>(pc, ss). (case pc of Ready \<Rightarrow> ss | Missed s \<Rightarrow> s # ss))"

definition outstanding :: "string \<Rightarrow> counter_conf \<Rightarrow> nat" where
  "outstanding s c = sum_list (map (\<lambda>r. count_list (to_record r) s) (cc_recorders c))"

definition reported_count :: "string \<Rightarrow> counter_conf \<Rightarrow> u64" where
  "reported_count s c = sum_list (map (\<lambda>m. count_at m s) (cc_reports c))"

lemma sum_list_update_eq:
  "i < length xs \<Longrightarrow> sum_list (map f (xs[i := y])) + f (xs ! i) = sum_list (map (f :: 'a \<Rightarrow> nat) xs) + f y"
proof (induction xs arbitrary: i)
  case (Cons x xs)
  show ?case
  proof (cases i)
    case (Suc j)
    with Cons show ?thesis by simp
  qed simp
qed simp

lemma outstanding_update:
  assumes "i < length (cc_recorders c)" "cc_recorders c ! i = r" "cc_recorders c' = (cc_recorders c)[i := r']"
  shows "outstanding s c' + count_list (to_record r) s = outstanding s c + count_list (to_record r') s"
  using sum_list_update_eq [OF assms(1), of "\<lambda>r. count_list (to_record r) s" r'] assms(2,3)
  by (simp add: outstanding_def)

text \<open>No step changes the sum of what is in the table, in the reports and outstanding.\<close>

definition balance :: "string \<Rightarrow> counter_conf \<Rightarrow> u64" where
  "balance s c = count_at (cc_counts c) s + reported_count s c + of_nat (outstanding s c)"

lemma counter_step_keeps:
  assumes "counter_step c c'" "um_ok (cc_counts c)" "cc_enabled c"
  shows "um_ok (cc_counts c') \<and> cc_enabled c' \<and> (\<not> telemetry_stream s \<longrightarrow> balance s c' = balance s c)"
  using assms
proof (cases rule: counter_step.cases)
  case (Ignored i x ss)
  have "outstanding s c' = outstanding s c" if "\<not> telemetry_stream s"
  proof -
    have "x \<noteq> s" using Ignored(4) assms(3) that by auto
    with outstanding_update [OF Ignored(2,3), of c' "(Ready, ss)" s] Ignored(1) show ?thesis
      by (simp add: to_record_def)
  qed
  with Ignored(1) assms(2,3) show ?thesis by (simp add: balance_def reported_count_def)
next
  case (Found i x ss n)
  have "outstanding s c = outstanding s c' + (if x = s then 1 else 0)"
    using outstanding_update [OF Found(2,3), of c' "(Ready, ss)" s] Found(1)
    by (simp add: to_record_def split: if_splits)
  then have "of_nat (outstanding s c) = (of_nat (outstanding s c') + (if x = s then 1 else 0) :: u64)" by simp
  moreover have "bump (cc_counts c) x = cc_counts c'" using Found by (simp add: bump_def)
  then have "count_at (cc_counts c') s = count_at (cc_counts c) s + (if x = s then 1 else 0)"
    using counts.at_inc [OF assms(2), of x s] by auto
  ultimately show ?thesis using Found assms(2) by (simp add: balance_def reported_count_def)
next
  case (Not_found i x ss)
  with outstanding_update [OF Not_found(2,3), of c' "(Missed x, ss)" s] assms(2) show ?thesis
    by (simp add: balance_def reported_count_def to_record_def)
next
  case (Inserted i x ss)
  have "outstanding s c = outstanding s c' + (if x = s then 1 else 0)"
    using outstanding_update [OF Inserted(2,3), of c' "(Ready, ss)" s] Inserted(1)
    by (simp add: to_record_def split: if_splits)
  then have "of_nat (outstanding s c) = (of_nat (outstanding s c') + (if x = s then 1 else 0) :: u64)" by simp
  moreover have "count_at (cc_counts c') s = count_at (cc_counts c) s + (if x = s then 1 else 0)"
    using counts.at_inc [OF assms(2), of x s] Inserted(1) by auto
  ultimately show ?thesis using Inserted assms(2,3) by (simp add: balance_def reported_count_def)
next
  case Drained
  with assms(2,3) show ?thesis
    by (simp add: balance_def reported_count_def outstanding_def count_at_snapshot)
qed

lemma counter_reachable_keeps:
  "counter_reachable c0 c \<Longrightarrow> um_ok (cc_counts c0) \<Longrightarrow> cc_enabled c0 \<Longrightarrow>
     um_ok (cc_counts c) \<and> cc_enabled c \<and> (\<not> telemetry_stream s \<longrightarrow> balance s c = balance s c0)"
proof (induction rule: counter_reachable.induct)
  case (Then c c')
  with counter_step_keeps [OF Then(2), of s] show ?case by simp
qed simp

section \<open>Equivalence with atomic recording\<close>

lemma outstanding_start: "outstanding s (counter_start m calls) = count_list (concat calls) s"
  by (induction calls) (simp_all add: outstanding_def counter_start_def to_record_def)

text \<open>C39. Recording is atomic. However the calls of \<^verbatim>\<open>record_event\<close> of any threads are
  interleaved, in the middle of their two critical sections too, with each other and with the reports: at the end, what
  the reports took and what the table holds of a stream is what the atomic \<open>record_event\<close>,
  applied to all calls one after the other, would have counted; at every point before, it is
  that less the calls that are still outstanding. No count is lost to two threads that both
  miss a stream, or to a report in between, and none is doubled.\<close>

theorem recording_atomic:
  assumes "telemetry_ok t" "tm_enabled t" "counter_reachable (counter_start (tm_event_counts t) calls) c"
    and "\<not> telemetry_stream s"
  shows "count_at (cc_counts c) s + reported_count s c + of_nat (outstanding s c) =
      count_at (tm_event_counts (fold record_event (concat calls) t)) s"
proof -
  have "tm_event_counts (fold record_event ss t) = fold (\<lambda>s m. bump m s) (filter (\<lambda>s. \<not> telemetry_stream s) ss) (tm_event_counts t)" for ss
    using assms(2) by (induction ss arbitrary: t) (simp_all add: record_event_def)
  then have "count_at (tm_event_counts (fold record_event ss t)) s =
      count_at (tm_event_counts t) s + of_nat (count_list (filter (\<lambda>s. \<not> telemetry_stream s) ss) s)" for ss
    using counts.at_incs [of "tm_event_counts t" "filter (\<lambda>s. \<not> telemetry_stream s) ss" s] assms(1)
    by (simp add: telemetry_ok_def foldl_conv_fold)
  moreover have "count_list (filter (\<lambda>s. \<not> telemetry_stream s) ss) s = count_list ss s" for ss
    using assms(4) by (induction ss) auto
  moreover have "balance s c = balance s (counter_start (tm_event_counts t) calls)"
    using counter_reachable_keeps [OF assms(3), of s] assms(1,4) by (simp add: counter_start_def telemetry_ok_def)
  then have "balance s c = count_at (tm_event_counts t) s + of_nat (count_list (concat calls) s)"
    using outstanding_start [of s "tm_event_counts t" calls] by (simp add: balance_def counter_start_def reported_count_def)
  ultimately show ?thesis by (simp add: balance_def)
qed

text \<open>Two threads that record the same new stream both miss it before either inserts it.\<close>

theorem recording_atomic_witness:
  "\<exists>c. counter_reachable (counter_start [] [[''a''], [''a'']]) c \<and> outstanding ''a'' c = 0 \<and>
     count_at (cc_counts c) ''a'' = 2"
proof -
  let ?conf = "\<lambda>m rs. \<lparr>cc_enabled = True, cc_counts = m, cc_recorders = rs, cc_reports = []\<rparr>"
  let ?start = "counter_start [] [[''a''], [''a'']]"
  have t: "\<not> telemetry_stream ''a''" by (simp add: telemetry_stream_def)
  have "counter_step ?start (?conf [] [(Missed ''a'', []), (Ready, [''a''])])"
    using Not_found [of 0 ?start "''a''" "[]"] t by (simp add: counter_start_def)
  from Then [OF Initially this] have "counter_reachable ?start (?conf [] [(Missed ''a'', []), (Ready, [''a''])])" .
  moreover have "counter_step (?conf [] [(Missed ''a'', []), (Ready, [''a''])]) (?conf [] [(Missed ''a'', []), (Missed ''a'', [])])"
    using Not_found [of 1 "?conf [] [(Missed ''a'', []), (Ready, [''a''])]" "''a''" "[]"] t by simp
  ultimately have "counter_reachable ?start (?conf [] [(Missed ''a'', []), (Missed ''a'', [])])" by (rule Then)
  moreover have "counter_step (?conf [] [(Missed ''a'', []), (Missed ''a'', [])]) (?conf [(''a'', 1)] [(Ready, []), (Missed ''a'', [])])"
    using Inserted [of 0 "?conf [] [(Missed ''a'', []), (Missed ''a'', [])]" "''a''" "[]"] by (simp add: bump_def)
  ultimately have "counter_reachable ?start (?conf [(''a'', 1)] [(Ready, []), (Missed ''a'', [])])" by (rule Then)
  moreover have "counter_step (?conf [(''a'', 1)] [(Ready, []), (Missed ''a'', [])]) (?conf [(''a'', 2)] [(Ready, []), (Ready, [])])"
    using Inserted [of 1 "?conf [(''a'', 1)] [(Ready, []), (Missed ''a'', [])]" "''a''" "[]"] by (simp add: bump_def)
  ultimately have r: "counter_reachable ?start (?conf [(''a'', 2)] [(Ready, []), (Ready, [])])" by (rule Then)
  have o: "outstanding ''a'' (?conf [(''a'', 2)] [(Ready, []), (Ready, [])]) = 0" by (simp add: outstanding_def to_record_def)
  let ?t = "set_enabled True telemetry_new"
  have "count_at (tm_event_counts (fold record_event (concat [[''a''], [''a'']]) ?t)) ''a'' = 2"
    by (simp add: record_event_def set_enabled_def telemetry_new_def t bump_def)
  moreover have "counter_reachable (counter_start (tm_event_counts ?t) [[''a''], [''a'']]) (?conf [(''a'', 2)] [(Ready, []), (Ready, [])])"
    using r by (simp add: set_enabled_def telemetry_new_def)
  moreover have "telemetry_ok ?t" by (simp add: telemetry_ok_def set_enabled_def telemetry_new_def um_ok_def)
  ultimately have "count_at (cc_counts (?conf [(''a'', 2)] [(Ready, []), (Ready, [])])) ''a'' = 2"
    using recording_atomic [of ?t "[[''a''], [''a'']]" "?conf [(''a'', 2)] [(Ready, []), (Ready, [])]" "''a''"] t o
    by (simp add: set_enabled_def reported_count_def)
  with r o show ?thesis by blast
qed

end
