(* ===== verification/Http_Connections.thy ===== *)
theory Http_Connections
  imports Http_Laws "HOL-Library.Multiset"
begin

text \<open>
  The connections of the HTTP endpoint of \<^verbatim>\<open>publisher/endpoints.hpp\<close> over time: the
  accepting thread, one detached thread per connection, the publishing thread and the
  destructor, interleaved at their critical sections. File descriptors are numbers that the
  operating system gives out again, to this endpoint or to another part of the program.
\<close>

section \<open>The steps\<close>

text \<open>A connection's thread before it has entered the list of clients, while it reads the request
  and answers, after it has closed the connection, and at its end.\<close>

datatype http_pc = Accepted | Answering | Closed | Removed

record http_conf =
  hc_ep :: http_endpoint
  hc_alive :: bool
  hc_open :: "int set"
  hc_foreign :: "int set"
  hc_threads :: "(int \<times> http_pc) list"

definition http_start :: "http_endpoint \<Rightarrow> http_conf" where
  "http_start ep = \<lparr>hc_ep = ep, hc_alive = True, hc_open = {}, hc_foreign = {}, hc_threads = []\<rparr>"

definition set_http_thread :: "nat \<Rightarrow> int \<times> http_pc \<Rightarrow> http_conf \<Rightarrow> http_conf" where
  "set_http_thread i t c = c\<lparr>hc_threads := (hc_threads c)[i := t]\<rparr>"

text \<open>A thread that needs the endpoint has no step after its end. In \<open>Answer\<close> the request was read as the
  results \<open>rs\<close> of \<^verbatim>\<open>recv\<close>; also when they end in an error the connection is closed
  before it is taken from the list.\<close>

inductive http_step :: "http_conf \<Rightarrow> http_conf \<Rightarrow> bool" where
  Accept: "hc_alive c \<Longrightarrow> fd \<notin> hc_open c \<union> hc_foreign c \<Longrightarrow>
    http_step c (c\<lparr>hc_open := insert fd (hc_open c), hc_threads := hc_threads c @ [(fd, Accepted)]\<rparr>)"
| Register: "hc_alive c \<Longrightarrow> i < length (hc_threads c) \<Longrightarrow> hc_threads c ! i = (fd, Accepted) \<Longrightarrow>
    http_step c (set_http_thread i (fd, Answering) (c\<lparr>hc_ep := http_begin fd (hc_ep c)\<rparr>))"
| Answer: "hc_alive c \<Longrightarrow> i < length (hc_threads c) \<Longrightarrow> hc_threads c ! i = (fd, Answering) \<Longrightarrow>
    http_answer rs (hc_ep c) = Some answer \<Longrightarrow>
    http_step c (set_http_thread i (fd, Closed) (c\<lparr>hc_open := hc_open c - {fd}\<rparr>))"
| Remove: "hc_alive c \<Longrightarrow> i < length (hc_threads c) \<Longrightarrow> hc_threads c ! i = (fd, Closed) \<Longrightarrow>
    http_step c (set_http_thread i (fd, Removed) (c\<lparr>hc_ep := remove_client fd (hc_ep c)\<rparr>))"
| Publish: "hc_alive c \<Longrightarrow> http_step c (c\<lparr>hc_ep := http_publish ev (hc_ep c)\<rparr>)"
| Elsewhere: "fd \<notin> hc_open c \<union> hc_foreign c \<Longrightarrow> http_step c (c\<lparr>hc_foreign := insert fd (hc_foreign c)\<rparr>)"
| Destroy: "hc_alive c \<Longrightarrow>
    http_step c (c\<lparr>hc_alive := False, hc_open := hc_open c - set (he_clients (hc_ep c)),
                   hc_foreign := hc_foreign c - set (he_clients (hc_ep c))\<rparr>)"

inductive http_reachable :: "http_conf \<Rightarrow> http_conf \<Rightarrow> bool" for c0 where
  Http_first: "http_reachable c0 c0"
| Http_next: "http_reachable c0 c \<Longrightarrow> http_step c c' \<Longrightarrow> http_reachable c0 c'"

section \<open>The invariant\<close>

definition in_list :: "int \<times> http_pc \<Rightarrow> bool" where
  "in_list t \<longleftrightarrow> snd t = Answering \<or> snd t = Closed"

definition has_socket :: "int \<times> http_pc \<Rightarrow> bool" where
  "has_socket t \<longleftrightarrow> snd t = Accepted \<or> snd t = Answering"

definition fds :: "(int \<times> http_pc \<Rightarrow> bool) \<Rightarrow> (int \<times> http_pc) list \<Rightarrow> int multiset" where
  "fds P ts = mset (map fst (filter P ts))"

text \<open>The list of clients is that of the threads between their two entries in it; the threads
  that read or write have descriptors of their own, all open.\<close>

definition http_inv :: "http_conf \<Rightarrow> bool" where
  "http_inv c \<longleftrightarrow> (hc_alive c \<longrightarrow>
     mset (he_clients (hc_ep c)) = fds in_list (hc_threads c) \<and>
     fds has_socket (hc_threads c) = mset_set (hc_open c) \<and> finite (hc_open c) \<and>
     hc_open c \<inter> hc_foreign c = {})"

lemma fds_simps [simp]: "fds P [] = {#}"
  "fds P (t # ts) = (if P t then add_mset (fst t) (fds P ts) else fds P ts)"
  "fds P (ts @ us) = fds P ts + fds P us"
  by (simp_all add: fds_def)

lemma fds_update:
  "i < length ts \<Longrightarrow> fds P (ts[i := t]) + fds P [ts ! i] = fds P ts + fds P [t]"
proof (induction ts arbitrary: i)
  case (Cons x ts)
  show ?case
  proof (cases i)
    case (Suc j)
    with Cons.IH [of j] Cons.prems show ?thesis by (auto simp: add.assoc simp del: fds_simps(2) simp: fds_simps(2) [of P x])
  qed simp
qed simp

lemma http_inv_start: "he_clients ep = [] \<Longrightarrow> http_inv (http_start ep)"
  by (simp add: http_inv_def http_start_def)

lemma http_inv_step: "http_step c c' \<Longrightarrow> http_inv c \<Longrightarrow> http_inv c'"
proof (induction rule: http_step.induct)
  case (Accept c fd)
  then show ?case by (auto simp: http_inv_def in_list_def has_socket_def)
next
  case (Register c i fd)
  from fds_update [OF Register(2), of in_list "(fd, Answering)"]
    fds_update [OF Register(2), of has_socket "(fd, Answering)"] Register show ?case
    by (simp add: http_inv_def set_http_thread_def http_begin_def in_list_def has_socket_def)
next
  case (Answer c i fd rs answer)
  let ?ts = "(hc_threads c)[i := (fd, Closed)]"
  have inv: "mset (he_clients (hc_ep c)) = fds in_list (hc_threads c)"
    "fds has_socket (hc_threads c) = mset_set (hc_open c)" "finite (hc_open c)" "hc_open c \<inter> hc_foreign c = {}"
    using Answer(1,5) by (simp_all add: http_inv_def)
  have l: "fds in_list ?ts = fds in_list (hc_threads c)"
    using fds_update [OF Answer(2), of in_list "(fd, Closed)"] Answer(3) by (simp add: in_list_def)
  have s: "add_mset fd (fds has_socket ?ts) = mset_set (hc_open c)"
    using fds_update [OF Answer(2), of has_socket "(fd, Closed)"] Answer(3) inv(2) by (simp add: has_socket_def)
  then have "fd \<in># mset_set (hc_open c)" by (metis union_single_eq_member)
  then have "fd \<in> hc_open c" using inv(3) by simp
  then have "mset_set (hc_open c - {fd}) = fds has_socket ?ts"
    using s [symmetric] inv(3) by (simp add: mset_set_Diff)
  with inv l show ?case by (auto simp: http_inv_def set_http_thread_def)
next
  case (Remove c i fd)
  from fds_update [OF Remove(2), of in_list "(fd, Removed)"]
    fds_update [OF Remove(2), of has_socket "(fd, Removed)"] Remove show ?case
    by (auto simp: http_inv_def set_http_thread_def remove_client_def in_list_def has_socket_def dest!: sym [of "add_mset _ _"])
next
  case (Publish c ev)
  then show ?case by (simp add: http_inv_def http_publish_def)
next
  case (Elsewhere fd c)
  then show ?case by (auto simp: http_inv_def)
next
  case (Destroy c)
  then show ?case by (simp add: http_inv_def)
qed

lemma http_inv_reachable: "http_reachable c0 c \<Longrightarrow> http_inv c0 \<Longrightarrow> http_inv c"
  by (induction rule: http_reachable.induct) (auto intro: http_inv_step)

section \<open>Properties\<close>

text \<open>C40. Whatever the interleaving of accepting, registering, answering and publishing, while the
  endpoint lives its list of clients holds exactly the descriptors of the connections that have
  registered and not yet removed themselves, each as often as it is used, so that none leaks: when
  every connection has ended the list is empty. The descriptors of connections that are being
  served are open and belong to one connection each.\<close>

theorem http_clients_tracked:
  assumes "http_reachable (http_start (http_new eid host port path content_type)) c" "hc_alive c"
  shows "mset (he_clients (hc_ep c)) = fds in_list (hc_threads c) \<and>
    ((\<forall>t \<in> set (hc_threads c). snd t = Removed) \<longrightarrow> he_clients (hc_ep c) = []) \<and>
    fds has_socket (hc_threads c) = mset_set (hc_open c)"
proof -
  have inv: "http_inv c"
    using http_inv_reachable [OF assms(1) http_inv_start] by (simp add: http_new_def)
  have "fds in_list (hc_threads c) = {#}" if "\<forall>t \<in> set (hc_threads c). snd t = Removed"
    using that by (auto simp: fds_def in_list_def filter_empty_conv)
  with inv assms(2) show ?thesis unfolding http_inv_def by (metis mset_zero_iff)
qed

lemma http_answer_error: "http_answer [None] ep = Some None"
  by (simp add: http_answer_def)

text \<open>The thread of a connection closes its descriptor before it takes it from the list. When
  the operating system gives the number to another part of the program in between, the
  destructor closes a descriptor that is not its own; and it does not wait for the connection's
  thread, which then takes the number from the list of a destroyed endpoint.\<close>

theorem http_closes_foreign:
  "\<exists>c c'. http_reachable (http_start (http_new eid host port path content_type)) c \<and> hc_alive c \<and>
     http_step c c' \<and> \<not> hc_alive c' \<and> hc_open c = {} \<and>
     fd \<in> hc_foreign c \<and> fd \<notin> hc_foreign c' \<and> hc_threads c' = [(fd, Closed)]"
proof -
  let ?ep = "http_new eid host port path content_type"
  let ?ep1 = "http_begin fd ?ep"
  let ?conf = "\<lambda>ep open frn pc. \<lparr>hc_ep = ep, hc_alive = True, hc_open = open, hc_foreign = frn, hc_threads = [(fd, pc)]\<rparr>"
  have "http_step (http_start ?ep) (?conf ?ep {fd} {} Accepted)"
    using Accept [of "http_start ?ep" fd] by (simp add: http_start_def)
  from Http_next [OF Http_first this] have "http_reachable (http_start ?ep) (?conf ?ep {fd} {} Accepted)" .
  moreover have "http_step (?conf ?ep {fd} {} Accepted) (?conf ?ep1 {fd} {} Answering)"
    using Register [of "?conf ?ep {fd} {} Accepted" 0 fd] by (simp add: set_http_thread_def)
  ultimately have "http_reachable (http_start ?ep) (?conf ?ep1 {fd} {} Answering)" by (rule Http_next)
  moreover have "http_step (?conf ?ep1 {fd} {} Answering) (?conf ?ep1 {} {} Closed)"
    using Answer [of "?conf ?ep1 {fd} {} Answering" 0 fd "[None]"] http_answer_error by (simp add: set_http_thread_def)
  ultimately have "http_reachable (http_start ?ep) (?conf ?ep1 {} {} Closed)" by (rule Http_next)
  moreover have "http_step (?conf ?ep1 {} {} Closed) (?conf ?ep1 {} {fd} Closed)"
    using Elsewhere [of fd "?conf ?ep1 {} {} Closed"] by simp
  ultimately have r: "http_reachable (http_start ?ep) (?conf ?ep1 {} {fd} Closed)" by (rule Http_next)
  have "http_step (?conf ?ep1 {} {fd} Closed) ((?conf ?ep1 {} {} Closed)\<lparr>hc_alive := False\<rparr>)"
    using Destroy [of "?conf ?ep1 {} {fd} Closed"] by (simp add: http_begin_def http_new_def)
  with r show ?thesis
    by (intro exI [of _ "?conf ?ep1 {} {fd} Closed"] exI [of _ "(?conf ?ep1 {} {} Closed)\<lparr>hc_alive := False\<rparr>"]) simp
qed

theorem http_clients_tracked_witness:
  "\<exists>c. http_reachable (http_start (http_new ''h'' [] 80 ''/'' [])) c \<and> he_clients (hc_ep c) = [7] \<and> hc_open c = {7}"
proof -
  let ?ep = "http_new ''h'' [] 80 ''/'' []"
  let ?conf = "\<lambda>ep pc. \<lparr>hc_ep = ep, hc_alive = True, hc_open = {7}, hc_foreign = {}, hc_threads = [(7, pc)]\<rparr>"
  have "http_step (http_start ?ep) (?conf ?ep Accepted)"
    using Accept [of "http_start ?ep" 7] by (simp add: http_start_def)
  from Http_next [OF Http_first this] have "http_reachable (http_start ?ep) (?conf ?ep Accepted)" .
  moreover have "http_step (?conf ?ep Accepted) (?conf (http_begin 7 ?ep) Answering)"
    using Register [of "?conf ?ep Accepted" 0 7] by (simp add: set_http_thread_def)
  ultimately have r: "http_reachable (http_start ?ep) (?conf (http_begin 7 ?ep) Answering)" by (rule Http_next)
  have "mset (he_clients (http_begin 7 ?ep)) = {#7#}"
    using http_clients_tracked [OF r] by (simp add: in_list_def)
  then have "he_clients (http_begin 7 ?ep) = [7]" by simp
  with r show ?thesis by (intro exI [of _ "?conf (http_begin 7 ?ep) Answering"]) simp
qed

end
