(* ===== verification/Dummy_Ingestor.thy ===== *)
theory Dummy_Ingestor
  imports Bytes Event
begin

text \<open>
  The sample plugin \<^verbatim>\<open>examples/plugins/dummy/dummy_ingestor.cpp\<close>: a thread that emits
  an event per round, holding the clock as its payload, until it is told to stop. The readings
  of the clock are the argument; pinning the thread to a core is left out.
\<close>

section \<open>The plugin\<close>

record dummy_ingestor =
  di_running :: bool
  di_joinable :: bool
  di_seq :: u64

definition dummy_new :: dummy_ingestor where
  "dummy_new = \<lparr>di_running = False, di_joinable = False, di_seq = 0\<rparr>"

text \<open>Assigning to a thread that is still joinable ends the program, \<open>None\<close>.\<close>

definition dummy_start :: "dummy_ingestor \<Rightarrow> dummy_ingestor option" where
  "dummy_start d =
     (if di_joinable d then None else Some \<lparr>di_running = True, di_joinable = True, di_seq = 0\<rparr>)"

definition dummy_stop :: "dummy_ingestor \<Rightarrow> dummy_ingestor" where
  "dummy_stop d = d\<lparr>di_running := False, di_joinable := False\<rparr>"

text \<open>The payload is the clock as it lies in memory, low byte first.\<close>

definition dummy_event :: "u64 \<Rightarrow> u64 \<Rightarrow> event" where
  "dummy_event now seq =
     (let ev = event_default\<lparr>ev_timestamp_ns := now, ev_sequence := seq\<rparr>;
          ev = set_stream ''dummy_ticks'' ev;
          ev = set_schema ''tick_v1'' ev
      in snd (set_payload (w64 now) ev))"

text \<open>The rounds of the loop for the readings of the clock: the events and the state.\<close>

fun dummy_loop :: "u64 list \<Rightarrow> dummy_ingestor \<Rightarrow> event list \<times> dummy_ingestor" where
  "dummy_loop [] d = ([], d)"
| "dummy_loop (now # nows) d =
     (if di_running d
      then let (evs, d') = dummy_loop nows (d\<lparr>di_seq := di_seq d + 1\<rparr>) in (dummy_event now (di_seq d) # evs, d')
      else ([], d))"

section \<open>What it emits\<close>

lemma length_w64 [simp]: "length (w64 v) = 8"
  by (rule tel64.length_put)

lemma dummy_event_ok:
  "event_ok (dummy_event now seq)" "stream_of (dummy_event now seq) = Some ''dummy_ticks''"
  "schema_of (dummy_event now seq) = Some ''tick_v1''" "payload_of (dummy_event now seq) = w64 now"
  "ev_timestamp_ns (dummy_event now seq) = now" "ev_sequence (dummy_event now seq) = seq"
proof -
  let ?e0 = "event_default\<lparr>ev_timestamp_ns := now, ev_sequence := seq\<rparr>"
  have ok: "event_ok ?e0" using event_ok_default by (simp add: event_ok_def event_shape_def)
  then have sh: "event_shape ?e0" by (simp add: event_ok_def)
  show "event_ok (dummy_event now seq)" using ok by (simp add: dummy_event_def Let_def)
  show "stream_of (dummy_event now seq) = Some ''dummy_ticks''"
    using stream_of_set_stream [OF sh, of "''dummy_ticks''"]
    by (simp add: dummy_event_def Let_def stream_of_def c_str_id)
  show "schema_of (dummy_event now seq) = Some ''tick_v1''"
    using schema_of_set_schema [OF event_shape_set_stream [OF sh], of "''tick_v1''" "''dummy_ticks''"]
    by (simp add: dummy_event_def Let_def schema_of_def c_str_id)
  show "payload_of (dummy_event now seq) = w64 now"
    by (simp add: dummy_event_def Let_def payload_of_set_payload PAYLOAD_MAX_def)
  show "ev_timestamp_ns (dummy_event now seq) = now" "ev_sequence (dummy_event now seq) = seq"
    by (simp_all add: dummy_event_def Let_def)
qed

lemma dummy_loop_running:
  "di_running d \<Longrightarrow> dummy_loop nows d =
     (map (\<lambda>i. dummy_event (nows ! i) (di_seq d + of_nat i)) [0..<length nows],
      d\<lparr>di_seq := di_seq d + of_nat (length nows)\<rparr>)"
proof (induction nows arbitrary: d)
  case (Cons now nows)
  have "map (\<lambda>i. dummy_event ((now # nows) ! i) (di_seq d + of_nat i)) [0..<Suc (length nows)] =
      dummy_event now (di_seq d) # map (\<lambda>i. dummy_event (nows ! i) (di_seq d + 1 + of_nat i)) [0..<length nows]"
    by (simp only: map_upt_Suc) (simp add: add.assoc)
  with Cons show ?case by (simp add: ac_simps)
qed simp

section \<open>Properties\<close>

text \<open>The sample plugin counts and stamps its events: started, it emits one event per reading of
  the clock, numbered from zero, well formed, on the stream \<open>dummy_ticks\<close>, with the reading as
  timestamp and, low byte first, as payload; stopped, it emits nothing.\<close>

theorem dummy_ticks:
  assumes "dummy_start d = Some d'" "length nows < 2 ^ 64"
  shows "length (fst (dummy_loop nows d')) = length nows \<and>
    (\<forall>i < length nows. let e = fst (dummy_loop nows d') ! i in event_ok e \<and> stream_of e = Some ''dummy_ticks'' \<and>
      unat (ev_sequence e) = i \<and> ev_timestamp_ns e = nows ! i \<and> read_u64 (payload_of e) = nows ! i) \<and>
    fst (dummy_loop nows' (dummy_stop (snd (dummy_loop nows d')))) = []"
proof -
  have d': "di_running d'" "di_seq d' = 0" using assms(1) by (auto simp: dummy_start_def split: if_splits)
  have "unat (of_nat i :: u64) = i" if "i < length nows" for i
    using that assms(2) by (simp add: unat_of_nat)
  moreover have "dummy_loop nows' (dummy_stop e) = ([], dummy_stop e)" for e
    by (cases nows') (simp_all add: dummy_stop_def)
  ultimately show ?thesis
    using d' by (simp add: dummy_loop_running dummy_event_ok tel64.get_put_alone)
qed

theorem dummy_ticks_witness:
  "\<exists>d. dummy_start dummy_new = Some d \<and> read_u64 (payload_of (fst (dummy_loop [5, 9] d) ! 1)) = 9"
proof -
  have s: "dummy_start dummy_new = Some \<lparr>di_running = True, di_joinable = True, di_seq = 0\<rparr>"
    by (simp add: dummy_start_def dummy_new_def)
  from dummy_ticks [OF s, of "[5, 9]" "[]"] have "\<forall>i < 2. read_u64 (payload_of (fst (dummy_loop [5, 9]
      \<lparr>di_running = True, di_joinable = True, di_seq = 0\<rparr>) ! i)) = [5, 9] ! i"
    by (simp add: Let_def del: dummy_loop.simps)
  then have "read_u64 (payload_of (fst (dummy_loop [5, 9] \<lparr>di_running = True, di_joinable = True, di_seq = 0\<rparr>) ! 1)) = [5, 9] ! 1"
    by (elim allE [of _ 1]) simp
  with s show ?thesis by simp
qed

end
