(* ===== verification/Sample_Pipeline.thy ===== *)
theory Sample_Pipeline
  imports Pipeline_Laws Passthrough Dummy_Ingestor
begin

text \<open>
  The shipped example as a whole: the sample plugin of \<^verbatim>\<open>Dummy_Ingestor\<close>, the running
  pipeline of \<^verbatim>\<open>Pipeline\<close>, the host of \<^verbatim>\<open>Wasm_Marshal\<close> and the sample
  script of \<^verbatim>\<open>Passthrough\<close>, composed along the way of one clock reading.
\<close>

section \<open>One reading\<close>

lemma rename_stream_keeps [simp]:
  "ev_payload_size (rename_stream name ev) = ev_payload_size ev"
  "processed (rename_stream name ev) = processed ev" "payload_of (rename_stream name ev) = payload_of ev"
  by (simp_all add: rename_stream_eq processed_def set_stream_def payload_of_def)

lemma event_ok_rename_stream [simp]: "event_ok ev \<Longrightarrow> event_ok (rename_stream name ev)"
  by (simp add: rename_stream_eq)

lemma route_all_single [simp]: "route_all pub [ev] c = route pub ev c"
  by (simp split: option.splits)

lemma dummy_event_size: "ev_payload_size (dummy_event now seq) = 8"
  by (simp add: dummy_event_def Let_def set_payload_def PAYLOAD_MAX_def)

text \<open>What the host gets from the script for a reading: nothing of the reading.\<close>

lemma reading_in_host:
  assumes "event_ok ev" "ev_payload_size ev = 8" "IO_BUF_SIZE * 2 \<le> length mem"
  shows "invoke_zero_copy (\<lambda>m n. on_trigger clock 0 n (of_nat IO_BUF_SIZE) (of_nat IO_BUF_SIZE) m) (Some mem) reg
      \<lparr>zi_trigger_event = ev, zi_windows = []\<rparr> =
    Some [with_payload (take 8 (drop (IO_BUF_SIZE + 90) mem)) (processed ev)]"
proof -
  have len: "length (wev_ptr ev) = 78" "length (payload_of ev) = 8"
    using length_wev_ptr [OF assms(1)] wev_ptr_eq(4) [OF assms(1)] assms(2) by simp_all
  then have "length (input_bytes reg \<lparr>zi_trigger_event = ev, zi_windows = []\<rparr>) \<le> IO_BUF_SIZE"
    by (simp add: input_bytes_def IO_BUF_SIZE_def)
  with passthrough_in_host [of "\<lparr>zi_trigger_event = ev, zi_windows = []\<rparr>" mem reg clock] assms len
  have "invoke_zero_copy (\<lambda>m n. on_trigger clock 0 n (of_nat IO_BUF_SIZE) (of_nat IO_BUF_SIZE) m) (Some mem) reg
      \<lparr>zi_trigger_event = ev, zi_windows = []\<rparr> =
    Some [with_payload (take 8 (drop 16 (payload_of ev @ drop (IO_BUF_SIZE + 82) mem))) (processed ev)]"
    by simp
  then show ?thesis by (simp add: len add.commute)
qed


section \<open>Witness\<close>

definition sample_mem :: "u8 list" where
  "sample_mem = replicate (IO_BUF_SIZE * 2) 0"

definition sample_run :: "unit \<Rightarrow> script_input \<Rightarrow> event list" where
  "sample_run h i = (case i of
     Zero_copy_input z \<Rightarrow> the (invoke_zero_copy
       (\<lambda>m n. on_trigger 5 0 n (of_nat IO_BUF_SIZE) (of_nat IO_BUF_SIZE) m) (Some sample_mem) registry_new z)
   | Snapshot_input _ \<Rightarrow> [])"


end
