(* ===== verification/Spec2Isabelle.thy ===== *)
theory Spec2Isabelle
  imports Telemetry_Runs Router_Laws Config_Laws Http_Laws Pipeline_Laws Wasm_Laws Ring_Interleaving
    Queue_Wakeup Reload Python_Calls Wasm_Host Ring_Buffer_Test Passthrough_Log Script_Events Telemetry_Screen
    Ws_Connections Accounting Shutdown Counter_Interleaving Http_Connections Sample_Pipeline
begin

text \<open>
  A model of mawmaw, an event pipeline in C++. Plugins (\<^emph>\<open>ingestors\<close>) emit events; a router
  delivers every event to the scripts and publisher endpoints that a routing table names for its
  stream; each script has a queue and a thread, runs in Python or WASM on the event that
  triggered it and on windows over recent events of other streams, and what it emits is routed
  again; endpoints print, write, serve or broadcast events; a telemetry thread counts all of
  this and sends its reports through the same router to a dashboard. A monitor restarts the
  pipeline when the configuration or a plugin changes.

  \<^bold>\<open>Conventions.\<close> Integers have their width (\<open>u8\<close> to \<open>u64\<close>) and wrap. A
  \<^verbatim>\<open>std::string\<close> is a \<open>string\<close>, a \<^verbatim>\<open>char\<close> array a \<open>string\<close> of the array's
  length, raw memory a list of bytes. An \<^verbatim>\<open>unordered_map\<close> is an association list
  with distinct keys (\<open>umap\<close>, invariant \<open>um_ok\<close>): its order is the iteration order, which no
  property relies on. \<open>None\<close> is undefined behaviour or a failed assertion, as each definition
  says; exceptions are values of a sum or a datatype. What the operating system, the engines, the plugins and
  the clock do is an argument. Objects that the code shares through pointers are fields of one
  state (\<open>core\<close>: router, registry, publisher, telemetry).

  \<^bold>\<open>The theories and what they model.\<close>
  \<^item> \<^verbatim>\<open>Prelude\<close>, \<^verbatim>\<open>CText\<close>, \<^verbatim>\<open>Bytes\<close>: words and maps; C strings, decimal output and
    \<^verbatim>\<open>getline\<close>; the little-endian writers and readers of \<^verbatim>\<open>server/main.cpp\<close>,
    \<^verbatim>\<open>publisher/endpoints.hpp\<close> and \<^verbatim>\<open>executor/wasm/wasm_script.hpp\<close>, each shown to be an
    instance of the locale \<open>byte_codec\<close>.
  \<^item> \<^verbatim>\<open>Event\<close>: \<^verbatim>\<open>core/event.hpp\<close>.
  \<^item> \<^verbatim>\<open>Ring_Buffer\<close>: \<^verbatim>\<open>RingBuffer\<close> and \<^verbatim>\<open>RingView\<close> of
    \<^verbatim>\<open>core/ring_buffer.hpp\<close>, refined to the log of everything written (\<open>ring_log\<close>);
    \<^verbatim>\<open>Ring_Buffer_Test\<close>: \<^verbatim>\<open>tests/test_ring_buffer.cpp\<close> evaluated on them;
    \<^verbatim>\<open>Ring_Interleaving\<close>: the three memory accesses of a write, interleaved.
  \<^item> \<^verbatim>\<open>Window_Registry\<close>, \<^verbatim>\<open>Window_Laws\<close>: \<^verbatim>\<open>core/window_registry.hpp\<close>, refined to
    a history per stream (\<open>reg_repr\<close>); count and time windows, snapshots, reader positions and drops.
  \<^item> \<^verbatim>\<open>Stream_Router\<close>, \<^verbatim>\<open>Router_Laws\<close>: \<^verbatim>\<open>core/stream_router.hpp\<close> (routing, script
    queues); \<^verbatim>\<open>Queue_Wakeup\<close>: its condition variable as steps of threads and a mutex.
  \<^item> \<^verbatim>\<open>Publisher\<close>, \<^verbatim>\<open>Endpoints\<close>: \<^verbatim>\<open>publisher/publisher.hpp\<close> and the endpoint
    classes and \<^verbatim>\<open>make_endpoint\<close> of \<^verbatim>\<open>publisher/endpoints.hpp\<close>.
  \<^item> \<^verbatim>\<open>Telemetry\<close>, \<^verbatim>\<open>Telemetry_Laws\<close>, \<^verbatim>\<open>Chunking\<close>, \<^verbatim>\<open>Telemetry_Runs\<close>:
    \<^verbatim>\<open>core/telemetry.hpp\<close> and the counters and packers of \<^verbatim>\<open>server/main.cpp\<close>;
    \<^verbatim>\<open>Dashboard\<close>, \<^verbatim>\<open>Reassembly\<close>, \<^verbatim>\<open>Dashboard_Text\<close>: the telemetry endpoint that reassembles
    and prints the reports; \<^verbatim>\<open>Telemetry_Screen\<close>: a report from the counters to the screen;
    \<^verbatim>\<open>Report_Safety\<close>: no report is undefined anywhere on its way;
    \<^verbatim>\<open>Counter_Interleaving\<close>: threads that record while a report is made, by critical sections.
  \<^item> \<^verbatim>\<open>Config\<close>, \<^verbatim>\<open>Config_Laws\<close>: \<^verbatim>\<open>config/config.hpp\<close>.
  \<^item> \<^verbatim>\<open>Base64\<close>, \<^verbatim>\<open>Sha1\<close>, \<^verbatim>\<open>WebSocket\<close>, \<^verbatim>\<open>WebSocket_Laws\<close>:
    \<^verbatim>\<open>publisher/websocket_endpoint.hpp\<close>; \<^verbatim>\<open>Ws_Connections\<close>: its threads and
    descriptors as interleaved steps; \<^verbatim>\<open>Http_Endpoint\<close>, \<^verbatim>\<open>Http_Laws\<close>: the HTTP
    endpoint of \<^verbatim>\<open>publisher/endpoints.hpp\<close>; \<^verbatim>\<open>Http_Connections\<close>: its threads and
    descriptors.
  \<^item> \<^verbatim>\<open>Wasm_Marshal\<close>, \<^verbatim>\<open>Wasm_Laws\<close>, \<^verbatim>\<open>Python_Marshal\<close>, \<^verbatim>\<open>Script_Events\<close>: how
    events pass to and from scripts; \<^verbatim>\<open>Passthrough\<close>, \<^verbatim>\<open>Passthrough_Log\<close>: the sample
    WASM script in C; \<^verbatim>\<open>Wasm_Host\<close>: \<^verbatim>\<open>executor/i_script.hpp\<close>, what a WASM script
    can call, and its memory over many invocations; \<^verbatim>\<open>Python_Calls\<close>: what is asked of the
    Python interpreter, with its lock and the references.
  \<^item> \<^verbatim>\<open>Loading\<close>: \<^verbatim>\<open>ingestor/plugin_loader.hpp\<close>, \<^verbatim>\<open>executor/python/python_engine.hpp\<close>,
    \<^verbatim>\<open>executor/wasm/wasm_engine.hpp\<close> and the constructors of both kinds of script, with their errors; \<^verbatim>\<open>Dummy_Ingestor\<close>: the
    sample plugin.
  \<^item> \<^verbatim>\<open>Pipeline\<close>, \<^verbatim>\<open>Pipeline_Laws\<close>: \<^verbatim>\<open>start_pipeline\<close>, the script threads, the ingestor
    callback and \<^verbatim>\<open>stop_pipeline\<close> of \<^verbatim>\<open>server/main.cpp\<close>, as a step relation
    over whole configurations; \<^verbatim>\<open>Delivery\<close>, \<^verbatim>\<open>Publishing\<close>,
    \<^verbatim>\<open>Accounting\<close>: the same steps with the
    record of what was routed, taken and reported in a run; \<^verbatim>\<open>Shutdown\<close>: \<^verbatim>\<open>stop_pipeline\<close> as the stages of the main
    thread, interleaved with the script threads, the telemetry thread, the plugins and the
    signal; \<^verbatim>\<open>Reload\<close>: file times, the monitor and the loop of \<^verbatim>\<open>main\<close>, which starts the
    pipeline of \<^verbatim>\<open>Pipeline\<close> with what \<^verbatim>\<open>Loading\<close> makes of the files;
    \<^verbatim>\<open>Sample_Pipeline\<close>: the sample plugin, the pipeline, the WASM host and the sample script
    composed.

  \<^bold>\<open>What is shown.\<close> The ring, the queues and the registry refine logs, also after the
  writer has lapped a reader, and one producer may run beside any readers; routing delivers to
  exactly the named targets; no wake-up is lost; a stop never blocks for good, ends within four
  steps per script thread once the queues are stopped, and leaves nothing that could use what is
  then destroyed. Counters are conserved between recording and reporting, also when threads
  record during a report, and over any run of the pipeline the reports and the counters account for
  every event routed and every copy published; a round of the telemetry thread is defined whatever it meets, and a report cut into chunks arrives whole on
  the dashboard. A configuration written as documented is parsed back, an error names its line,
  and the routing table is what the text says. Frames, messages, handshakes and HTTP answers
  are what a client can decode. The pipeline keeps the invariant that every script thread owns
  one queue and one position, and in any run a script runs on exactly the events routed to it, in their order, while it
  keeps up, and an endpoint publishes exactly those routed to it, in their order. Where
  the code does not do what it is meant to, the property states what it does instead: a lapped
  time window, an overrun queue, two producers on one ring, a report of 256 chunks, payloads
  displaced on their way back from WASM (so that the shipped example loses every reading, and
  longer events leave bytes in later ones), references lost with every event given to Python, scripts
  that are never given a window, a server that ends when the file of its only plugin goes away.

  \<^bold>\<open>Interfaces.\<close> The locales are \<open>byte_codec\<close> (integers in byte buffers),
  \<open>seq_log\<close> (a ring as a log), \<open>fifo_queue\<close> (a script queue as a list), \<open>stream_store\<close>
  (the registry as a history per stream), \<open>counter_table\<close> (the telemetry's counters),
  \<open>reassembly\<close> (a report from its chunks, for both kinds of report), \<open>endpoints\<close> (what
  the publisher asks of an endpoint class), \<open>trace_invariant\<close> (what the steps of a recorded
  run keep) and \<open>event_sink\<close> (what every routed event of a run extends, a case of the former). Each is interpreted on the model's definitions, and
  the properties of the components rest on those interpretations.

  \<^bold>\<open>Loops and bounds.\<close> Every loop is structural recursion or has a proved measure (the time
  window, the frames of a connection, \<^verbatim>\<open>getline\<close>, digits). Where the code can spin or
  block, the outcomes of the attempts are a list (compare-exchange, \<^verbatim>\<open>send\<close>,
  \<^verbatim>\<open>recv\<close>), and running out of it is the separate result \<open>None\<close>. Histories are shorter
  than \<open>2^64\<close> events where a property says so.

  \<^bold>\<open>Not modelled.\<close> The addresses handed to the socket calls (which of the calls fails is an argument),
  the creation of threads, how long they sleep and the core the sample plugin is pinned to; the dynamic
  linker and the wasm3 and Python interpreters themselves (their answers are arguments); lines printed to the log; \<^verbatim>\<open>executor/script_registry.hpp\<close>, which
  nothing includes and which does not fit the interfaces it calls; weak memory effects beyond
  the interleavings of \<^verbatim>\<open>Ring_Interleaving\<close>, \<^verbatim>\<open>Queue_Wakeup\<close>,
  \<^verbatim>\<open>Counter_Interleaving\<close>, \<^verbatim>\<open>Shutdown\<close>, \<^verbatim>\<open>Ws_Connections\<close> and
  \<^verbatim>\<open>Http_Connections\<close>.
\<close>

end
